(* ===== verification/Kernel_Prelude.thy ===== *)
theory Kernel_Prelude
  imports "HOL-Library.Word"
begin

unbundle bit_operations_syntax

text \<open>
  What every component of the kernel model shares: the machine integers of the x86\_64
  target, the ways an execution can fail, the checked arithmetic and indexing of a Rust
  development build (the profile of \<^verbatim>\<open>cargo run\<close>, in which overflow panics), the
  standard library's \<^verbatim>\<open>core::alloc::Layout\<close>, and the contract of the spin lock that guards
  every global of the kernel.
\<close>

named_theorems kernel_simps \<open>characterisations of the checked operations\<close>

section \<open>Integers and failures\<close>

type_synonym u8 = "8 word"
type_synonym u16 = "16 word"
type_synonym u32 = "32 word"
type_synonym u64 = "64 word"
type_synonym usize = "64 word"

datatype panic =
    ArithmeticOverflow
  | IndexOutOfBounds
  | AssertionFailed
  | ExpectFailed string
  | UnwrapFailed
  | ExplicitPanic string
  | AllocFailed

text \<open>
  An execution fails by a panic (the panic handler then loops forever), by waiting for a
  lock nobody will release, by a loop that never ends, or by following a reference that
  does not point to a live object (undefined behaviour in Rust, which the theorems exclude).
\<close>

datatype fault = Panic panic | Deadlock | Diverges | InvalidAccess

type_synonym 'a result = "fault + 'a"

definition and_then :: "'a result \<Rightarrow> ('a \<Rightarrow> 'b result) \<Rightarrow> 'b result" where
  "and_then r f = (case r of Inl e \<Rightarrow> Inl e | Inr x \<Rightarrow> f x)"

lemma and_then_simps [simp]:
  "and_then (Inl e) f = Inl e"
  "and_then (Inr x) f = f x"
  by (simp_all add: and_then_def)

lemma and_then_eq_Inr [kernel_simps]:
  "and_then r f = Inr y \<longleftrightarrow> (\<exists>x. r = Inr x \<and> f x = Inr y)"
  by (cases r) simp_all

lemma and_then_eq_Inl:
  "and_then r f = Inl e \<longleftrightarrow> r = Inl e \<or> (\<exists>x. r = Inr x \<and> f x = Inl e)"
  by (cases r) auto

lemma and_then_assoc: "and_then (and_then r f) g = and_then r (\<lambda>x. and_then (f x) g)"
  by (cases r) simp_all

definition is_ok :: "'a result \<Rightarrow> bool" where
  "is_ok r = (\<not> isl r)"

lemma is_ok_projr: "is_ok r \<Longrightarrow> r = Inr (projr r)"
  by (cases r) (simp_all add: is_ok_def)

definition require :: "bool \<Rightarrow> fault \<Rightarrow> unit result" where
  "require b e = (if b then Inr () else Inl e)"

lemma require_simps [simp]:
  "require True e = Inr ()"
  "require False e = Inl e"
  by (simp_all add: require_def)

lemma require_eq_Inr [kernel_simps]: "require b e = Inr u \<longleftrightarrow> b"
  by (cases b) simp_all

text \<open>\<^verbatim>\<open>for x in xs { body }\<close> over a state, stopping at the first failure.\<close>

fun for_loop :: "'a list \<Rightarrow> ('a \<Rightarrow> 's \<Rightarrow> 's result) \<Rightarrow> 's \<Rightarrow> 's result" where
  "for_loop [] body s = Inr s"
| "for_loop (x # xs) body s = and_then (body x s) (for_loop xs body)"

lemma for_loop_append: "for_loop (xs @ ys) body s = and_then (for_loop xs body s) (for_loop ys body)"
proof (induction xs arbitrary: s)
  case Nil
  then show ?case by simp
next
  case (Cons x xs)
  then show ?case by (cases "body x s") simp_all
qed

text \<open>A loop whose body always succeeds is a fold, given an invariant under which it does.\<close>

lemma for_loop_fold:
  assumes "\<And>x s. x \<in> set xs \<Longrightarrow> P s \<Longrightarrow> body x s = Inr (f x s) \<and> P (f x s)" and "P s"
  shows "for_loop xs body s = Inr (fold f xs s) \<and> P (fold f xs s)"
  using assms by (induction xs arbitrary: s) auto

lemma for_loop_total:
  assumes "\<And>x s. x \<in> set xs \<Longrightarrow> P s \<Longrightarrow> \<exists>s'. body x s = Inr s' \<and> P s'" and "P s"
  shows "\<exists>s'. for_loop xs body s = Inr s' \<and> P s'"
  using assms
proof (induction xs arbitrary: s)
  case Nil
  then show ?case by simp
next
  case (Cons x xs)
  then obtain t where "body x s = Inr t" "P t" by (meson list.set_intros(1))
  then show ?case using Cons.IH [of t] Cons.prems(1) by simp
qed

text \<open>Two nested loops are one loop over the pairs.\<close>

lemma for_loop_map: "for_loop (map g xs) body s = for_loop xs (\<lambda>x. body (g x)) s"
proof (induction xs arbitrary: s)
  case Nil
  then show ?case by simp
next
  case (Cons x xs)
  then show ?case by (cases "body (g x) s") simp_all
qed

lemma for_loop_nested:
  "for_loop xs (\<lambda>x. for_loop ys (f x)) s = for_loop (List.product xs ys) (\<lambda>(x, y). f x y) s"
proof (induction xs arbitrary: s)
  case Nil
  then show ?case by simp
next
  case (Cons x xs)
  show ?case
    by (cases "for_loop ys (f x) s") (simp_all add: for_loop_append for_loop_map Cons.IH)
qed

lemma for_loop_Suc: "for_loop [0..<Suc n] (\<lambda>_. f) s = and_then (for_loop [0..<n] (\<lambda>_. f) s) f"
proof -
  have "for_loop [n] (\<lambda>_. f) s = f s" for s by (cases "f s") simp_all
  then have "for_loop [n] (\<lambda>_. f) = f" by (rule ext)
  then show ?thesis by (simp add: for_loop_append)
qed

text \<open>
  \<^verbatim>\<open>loop { body }\<close> without a \<^verbatim>\<open>break\<close>: it ends only with a failure of its body, and having no value means that
  it runs forever.
\<close>

partial_function (option) loop_forever :: "('s \<Rightarrow> 's result) \<Rightarrow> 's \<Rightarrow> fault option" where
  "loop_forever body s = (case body s of Inl e \<Rightarrow> Some e | Inr s' \<Rightarrow> loop_forever body s')"

lemma loop_forever_Some:
  fixes s :: "'s"
  assumes "loop_forever body s = Some e"
  shows "(\<forall>s. P s \<longrightarrow> (\<exists>s'. body s = Inr s' \<and> P s')) \<longrightarrow> \<not> P s"
proof (rule loop_forever.raw_induct [OF _ assms])
  fix lf :: "('s \<Rightarrow> 's result) \<Rightarrow> 's \<Rightarrow> fault option" and body and s :: "'s" and e
  assume ih: "\<And>body (s :: 's) e. lf body s = Some e \<Longrightarrow> (\<forall>s. P s \<longrightarrow> (\<exists>s'. body s = Inr s' \<and> P s')) \<longrightarrow> \<not> P s"
    and eq: "(case body s of Inl e \<Rightarrow> Some e | Inr s' \<Rightarrow> lf body s') = Some e"
  show "(\<forall>s. P s \<longrightarrow> (\<exists>s'. body s = Inr s' \<and> P s')) \<longrightarrow> \<not> P s"
    using ih [of body] eq by (auto split: sum.splits) (metis Inr_inject)
qed

lemma loop_forever_None:
  assumes "P s" and "\<And>s. P s \<Longrightarrow> \<exists>s'. body s = Inr s' \<and> P s'"
  shows "loop_forever body s = None"
  using loop_forever_Some [of body s _ P] assms by (cases "loop_forever body s") auto

section \<open>Arithmetic\<close>

text \<open>\<^verbatim>\<open>a + b\<close>, \<^verbatim>\<open>a - b\<close> and \<^verbatim>\<open>a * b\<close> on unsigned integers with overflow checks.\<close>

definition add_chk :: "'a::len word \<Rightarrow> 'a word \<Rightarrow> 'a word result" where
  "add_chk a b = (if unat a + unat b < 2 ^ LENGTH('a) then Inr (a + b)
                  else Inl (Panic ArithmeticOverflow))"

definition sub_chk :: "'a::len word \<Rightarrow> 'a word \<Rightarrow> 'a word result" where
  "sub_chk a b = (if b \<le> a then Inr (a - b) else Inl (Panic ArithmeticOverflow))"

definition mul_chk :: "'a::len word \<Rightarrow> 'a word \<Rightarrow> 'a word result" where
  "mul_chk a b = (if unat a * unat b < 2 ^ LENGTH('a) then Inr (a * b)
                  else Inl (Panic ArithmeticOverflow))"

definition checked_add :: "'a::len word \<Rightarrow> 'a word \<Rightarrow> 'a word option" where
  "checked_add a b = (if unat a + unat b < 2 ^ LENGTH('a) then Some (a + b) else None)"

definition saturating_add :: "'a::len word \<Rightarrow> 'a word \<Rightarrow> 'a word" where
  "saturating_add a b = (if unat a + unat b < 2 ^ LENGTH('a) then a + b else -1)"

lemma unat_add_ok: "unat (a::'a::len word) + unat b < 2 ^ LENGTH('a) \<Longrightarrow> unat (a + b) = unat a + unat b"
  by (simp add: unat_add_lem)

lemma unat_mul_ok: "unat (a::'a::len word) * unat b < 2 ^ LENGTH('a) \<Longrightarrow> unat (a * b) = unat a * unat b"
  by (simp add: unat_mult_lem)

lemma add_chk_Inr:
  "add_chk (a::'a::len word) b = Inr c \<longleftrightarrow> unat a + unat b < 2 ^ LENGTH('a) \<and> c = a + b"
  by (auto simp: add_chk_def)

lemma add_chk_unat:
  assumes "unat (a::'a::len word) + unat b < 2 ^ LENGTH('a)"
  shows "\<exists>c. add_chk a b = Inr c \<and> unat c = unat a + unat b"
  using assms by (simp add: add_chk_def unat_add_ok)

lemma sub_chk_Inr:
  "sub_chk a b = Inr c \<longleftrightarrow> b \<le> a \<and> c = a - b"
  by (auto simp: sub_chk_def)

lemma sub_chk_unat:
  assumes "unat b \<le> unat a"
  shows "\<exists>c. sub_chk a b = Inr c \<and> unat c = unat a - unat b"
  using assms by (simp add: sub_chk_def word_le_nat_alt unat_sub)

lemma checked_add_Some:
  "checked_add (a::'a::len word) b = Some c \<longleftrightarrow> unat a + unat b < 2 ^ LENGTH('a) \<and> c = a + b"
  by (auto simp: checked_add_def)

lemma checked_add_None:
  "checked_add (a::'a::len word) b = None \<longleftrightarrow> 2 ^ LENGTH('a) \<le> unat a + unat b"
  by (auto simp: checked_add_def)

lemma unat_saturating_add:
  "unat (saturating_add (a::'a::len word) b) = min (unat a + unat b) (2 ^ LENGTH('a) - 1)"
proof (cases "unat a + unat b < 2 ^ LENGTH('a)")
  case True
  then show ?thesis by (simp add: saturating_add_def unat_add_ok)
next
  case False
  then show ?thesis by (simp add: saturating_add_def unsigned_minus_1_eq_mask mask_eq_exp_minus_1)
qed

lemma unat_lt_usize: "unat (a::64 word) < 18446744073709551616"
  using unsigned_less [of a, where 'a = nat] by simp

section \<open>Indexing\<close>

text \<open>\<^verbatim>\<open>xs[i]\<close> and \<^verbatim>\<open>xs[i] = v\<close>: both panic out of range.\<close>

definition index_get :: "'a list \<Rightarrow> nat \<Rightarrow> 'a result" where
  "index_get xs i = (if i < length xs then Inr (xs ! i) else Inl (Panic IndexOutOfBounds))"

definition index_set :: "'a list \<Rightarrow> nat \<Rightarrow> 'a \<Rightarrow> 'a list result" where
  "index_set xs i v = (if i < length xs then Inr (xs[i := v]) else Inl (Panic IndexOutOfBounds))"

lemma index_get_ok [simp]: "i < length xs \<Longrightarrow> index_get xs i = Inr (xs ! i)"
  by (simp add: index_get_def)

lemma index_set_ok [simp]: "i < length xs \<Longrightarrow> index_set xs i v = Inr (xs[i := v])"
  by (simp add: index_set_def)

lemma index_get_Inr [kernel_simps]: "index_get xs i = Inr x \<longleftrightarrow> i < length xs \<and> x = xs ! i"
  by (auto simp: index_get_def)

lemma index_set_Inr [kernel_simps]: "index_set xs i v = Inr ys \<longleftrightarrow> i < length xs \<and> ys = xs[i := v]"
  by (auto simp: index_set_def)

section \<open>Powers of two and rounding\<close>

definition is_power_of_two :: "usize \<Rightarrow> bool" where
  "is_power_of_two w = list_ex (\<lambda>k. w = 2 ^ k) [0..<64]"

lemma unat_pow2: "k < 64 \<Longrightarrow> unat (2 ^ k :: usize) = 2 ^ k"
proof -
  assume "k < 64"
  then have "(2::nat) ^ k < 2 ^ 64" by (intro power_strict_increasing) simp_all
  then have "unat (of_nat (2 ^ k) :: usize) = 2 ^ k" by (subst unat_of_nat) simp
  then show ?thesis by simp
qed

lemma is_power_of_two_iff: "is_power_of_two w \<longleftrightarrow> (\<exists>k<64. unat w = 2 ^ k)"
proof
  assume "is_power_of_two w"
  then show "\<exists>k<64. unat w = 2 ^ k"
    by (auto simp: is_power_of_two_def list_ex_iff unat_pow2)
next
  assume "\<exists>k<64. unat w = 2 ^ k"
  then obtain k where k: "k < 64" "unat w = 2 ^ k" by blast
  then have "w = 2 ^ k" by (simp add: word_unat_eq_iff unat_pow2)
  with k show "is_power_of_two w"
    by (auto simp: is_power_of_two_def list_ex_iff)
qed

text \<open>Clearing the low \<open>k\<close> bits rounds down to a multiple of \<open>2 ^ k\<close>.\<close>

lemma and_not_mask_eq: "w AND NOT (mask k) = push_bit k (drop_bit k (w::'a::len word))"
  by (rule bit_eqI) (auto simp: bit_and_iff bit_not_iff bit_mask_iff bit_push_bit_iff bit_drop_bit_eq)

lemma unat_and_not_mask: "unat ((w::'a::len word) AND NOT (mask k)) = unat w div 2 ^ k * 2 ^ k"
proof -
  have "unat w div 2 ^ k * 2 ^ k \<le> unat w" by simp
  also have "\<dots> < 2 ^ LENGTH('a)" by (rule unsigned_less)
  finally have "unat w div 2 ^ k * 2 ^ k < 2 ^ LENGTH('a)" .
  moreover have "unat (w AND NOT (mask k)) = take_bit LENGTH('a) (push_bit k (drop_bit k (unat w)))"
    by (simp add: and_not_mask_eq unsigned_push_bit_eq unat_drop_bit_eq)
  ultimately show ?thesis
    by (simp add: push_bit_eq_mult drop_bit_eq_div take_bit_nat_eq_self)
qed

lemma unat_and_not_pow2:
  assumes "k < 64" and "unat al = 2 ^ k"
  shows "unat ((w::usize) AND NOT (al - 1)) = unat w div unat al * unat al"
proof -
  have "al = 2 ^ k" using assms by (simp add: word_unat_eq_iff unat_pow2)
  then have "al - 1 = mask k" by (simp add: mask_eq_exp_minus_1)
  then show ?thesis using assms(2) by (simp add: unat_and_not_mask)
qed

text \<open>The least multiple of \<open>a\<close> that is not below \<open>n\<close>.\<close>

definition round_up :: "nat \<Rightarrow> nat \<Rightarrow> nat" where
  "round_up n a = (n + a - 1) div a * a"

lemma round_up_ge: "0 < a \<Longrightarrow> n \<le> round_up n a"
proof -
  assume a: "0 < a"
  have "n + a - 1 = round_up n a + (n + a - 1) mod a" by (simp add: round_up_def)
  moreover have "(n + a - 1) mod a < a" using a by simp
  ultimately show ?thesis by linarith
qed

lemma round_up_less: "0 < a \<Longrightarrow> round_up n a < n + a"
proof -
  assume a: "0 < a"
  have "round_up n a \<le> n + a - 1" unfolding round_up_def by simp
  with a show ?thesis by simp
qed

lemma round_up_dvd [simp]: "a dvd round_up n a"
  by (simp add: round_up_def)

lemma round_up_least: "0 < a \<Longrightarrow> n \<le> m \<Longrightarrow> a dvd m \<Longrightarrow> round_up n a \<le> m"
proof -
  assume a: "0 < a" and nm: "n \<le> m" and "a dvd m"
  then obtain q where m: "m = a * q" by auto
  have "n + a - 1 < (q + 1) * a" using nm a by (simp add: m algebra_simps)
  then have "(n + a - 1) div a < q + 1" by (simp add: less_mult_imp_div_less)
  then have "(n + a - 1) div a * a \<le> q * a" by simp
  then show ?thesis by (simp add: round_up_def m mult.commute)
qed

lemma round_up_id: "0 < a \<Longrightarrow> a dvd n \<Longrightarrow> round_up n a = n"
  by (meson dual_order.refl le_antisym round_up_ge round_up_least)

section \<open>Layouts\<close>

text \<open>
  \<^verbatim>\<open>core::alloc::Layout\<close>: a size and a power-of-two alignment such that the size rounded up to
  the alignment does not exceed \<^verbatim>\<open>isize::MAX\<close>.
\<close>

record layout =
  l_size :: usize
  l_align :: usize

definition from_size_align :: "usize \<Rightarrow> usize \<Rightarrow> layout option" where
  "from_size_align sz al =
     (if is_power_of_two al \<and> unat sz + (unat al - 1) \<le> 2 ^ 63 - 1
      then Some \<lparr>l_size = sz, l_align = al\<rparr> else None)"

definition valid_layout :: "layout \<Rightarrow> bool" where
  "valid_layout l = (from_size_align (l_size l) (l_align l) \<noteq> None)"

definition align_to :: "layout \<Rightarrow> usize \<Rightarrow> layout option" where
  "align_to l al = from_size_align (l_size l) (max (l_align l) al)"

definition pad_to_align :: "layout \<Rightarrow> layout" where
  "pad_to_align l = l\<lparr>l_size := (l_size l + (l_align l - 1)) AND NOT (l_align l - 1)\<rparr>"

lemma valid_layout_iff:
  "valid_layout l \<longleftrightarrow> is_power_of_two (l_align l) \<and> unat (l_size l) + (unat (l_align l) - 1) \<le> 2 ^ 63 - 1"
  by (simp add: valid_layout_def from_size_align_def)

lemma is_power_of_two_pos: "is_power_of_two w \<Longrightarrow> 0 < unat w"
  by (auto simp: is_power_of_two_iff)

lemma valid_layout_align_pos: "valid_layout l \<Longrightarrow> 0 < unat (l_align l)"
  by (simp add: valid_layout_iff is_power_of_two_pos)

lemma is_power_of_two_le: "is_power_of_two w \<Longrightarrow> unat w \<le> 2 ^ 63"
proof -
  assume "is_power_of_two w"
  then obtain k where k: "k < 64" "unat w = 2 ^ k" by (auto simp: is_power_of_two_iff)
  from k(1) have "(2::nat) ^ k \<le> 2 ^ 63" by (intro power_increasing) simp_all
  with k show ?thesis by simp
qed

lemma valid_layout_align_le: "valid_layout l \<Longrightarrow> unat (l_align l) \<le> 2 ^ 63"
  unfolding valid_layout_iff by (blast intro: is_power_of_two_le)

lemma pad_to_align_size:
  assumes "valid_layout l"
  shows "unat (l_size (pad_to_align l)) = round_up (unat (l_size l)) (unat (l_align l))"
proof -
  from assms obtain k where k: "k < 64" "unat (l_align l) = 2 ^ k"
    by (auto simp: valid_layout_iff is_power_of_two_iff)
  have pos: "0 < unat (l_align l)" using assms by (rule valid_layout_align_pos)
  then have one: "unat (l_align l - 1) = unat (l_align l) - 1"
    by (simp add: unat_minus_one word_neq_0_conv unat_gt_0)
  have "unat (l_size l) + (unat (l_align l) - 1) \<le> 2 ^ 63 - 1"
    using assms by (simp add: valid_layout_iff)
  then have "unat (l_size l + (l_align l - 1)) = unat (l_size l) + (unat (l_align l) - 1)"
    using one by (subst unat_add_ok) simp_all
  then show ?thesis
    using pos by (simp add: pad_to_align_def unat_and_not_pow2 [OF k] round_up_def)
qed

lemma pad_to_align_align [simp]: "l_align (pad_to_align l) = l_align l"
  by (simp add: pad_to_align_def)

section \<open>Spin locks\<close>

text \<open>
  The documented contract of \<^verbatim>\<open>spin::Mutex\<close>, which every global of the kernel sits in: \<^verbatim>\<open>lock\<close>
  returns once no guard is alive (and never if the only context that could drop the guard
  is the one that waits), \<^verbatim>\<open>try_lock\<close> gives nothing while a guard is alive. \<open>held\<close> says
  whether a guard is alive.
\<close>

record 'a mutex =
  held :: bool
  inner :: 'a

definition mutex_lock :: "'a mutex \<Rightarrow> 'a result" where
  "mutex_lock m = (if held m then Inl Deadlock else Inr (inner m))"

definition mutex_try_lock :: "'a mutex \<Rightarrow> 'a option" where
  "mutex_try_lock m = (if held m then None else Some (inner m))"

lemma mutex_lock_Inr [kernel_simps]: "mutex_lock m = Inr x \<longleftrightarrow> \<not> held m \<and> x = inner m"
  by (auto simp: mutex_lock_def)

lemma mutex_try_lock_Some [kernel_simps]: "mutex_try_lock m = Some x \<longleftrightarrow> \<not> held m \<and> x = inner m"
  by (auto simp: mutex_try_lock_def)

end
