(* ===== verification/Allocator.thy ===== *)
theory Allocator
  imports Kernel_Prelude "HOL-Library.Multiset"
begin

text \<open>
  \<^verbatim>\<open>allocator.rs\<close>: the bounds of the kernel heap, the \<^verbatim>\<open>Locked\<close> wrapper, \<^verbatim>\<open>align_up\<close>, and the
  contract of \<^verbatim>\<open>GlobalAlloc\<close> that the three allocator modules below it implement. The contract
  is the locale \<open>global_allocator\<close>: its client lemmas are about any sequence of allocations,
  deallocations and writes into allocated memory that respects the safety rules of
  \<^verbatim>\<open>GlobalAlloc\<close>, and every allocator theory interprets it.
\<close>

section \<open>Constants, alignment, the locked wrapper\<close>

definition HEAP_START :: usize where
  "HEAP_START = 0x444444440000"

definition HEAP_SIZE :: usize where
  "HEAP_SIZE = 100 * 1024 * 1024"

definition align_up :: "usize \<Rightarrow> usize \<Rightarrow> usize result" where
  "align_up addr align =
     and_then (add_chk addr align) (\<lambda>s.
     and_then (sub_chk s 1) (\<lambda>t.
     and_then (sub_chk align 1) (\<lambda>m. Inr (t AND NOT m))))"

definition locked_new :: "'a \<Rightarrow> 'a mutex" where
  "locked_new a = \<lparr>held = False, inner = a\<rparr>"

definition locked_lock :: "'a mutex \<Rightarrow> 'a result" where
  "locked_lock m = mutex_lock m"

text \<open>
  The global heap is \<^verbatim>\<open>linked_list_allocator::LockedHeap\<close>, a crate: its \<^verbatim>\<open>init\<close> is a parameter.
\<close>

definition init_heap :: "('h \<Rightarrow> usize \<Rightarrow> usize \<Rightarrow> 'h result) \<Rightarrow> 'h mutex \<Rightarrow> 'h mutex result" where
  "init_heap heap_init ALLOCATOR =
     and_then (mutex_lock ALLOCATOR) (\<lambda>h.
     and_then (heap_init h HEAP_START HEAP_SIZE) (\<lambda>h.
     Inr (ALLOCATOR\<lparr>inner := h\<rparr>)))"

lemma locked_lock_Inr [kernel_simps]: "locked_lock m = Inr x \<longleftrightarrow> \<not> held m \<and> x = inner m"
  by (simp add: locked_lock_def mutex_lock_Inr)

lemma locked_lock_free [simp]: "\<not> held m \<Longrightarrow> locked_lock m = Inr (inner m)"
  by (simp add: locked_lock_Inr)

lemma locked_new_simps [simp]: "\<not> held (locked_new a)" "inner (locked_new a) = a"
  by (simp_all add: locked_new_def)

lemma align_up_ok:
  assumes "is_power_of_two al" and fits: "unat a + unat al < 2 ^ 64"
  shows "\<exists>r. align_up a al = Inr r \<and> unat r = round_up (unat a) (unat al)"
proof -
  from assms(1) obtain k where k: "k < 64" "unat al = 2 ^ k"
    by (auto simp: is_power_of_two_iff)
  have al: "0 < unat al" using assms(1) by (rule is_power_of_two_pos)
  have s: "unat (a + al) = unat a + unat al" using fits by (intro unat_add_ok) simp
  then have one: "1 \<le> a + al" and al1: "1 \<le> al" using al by (simp_all add: word_le_nat_alt)
  have t: "unat (a + al - 1) = unat a + unat al - 1" using s one by (simp add: unat_sub)
  have "align_up a al = Inr ((a + al - 1) AND NOT (al - 1))"
    using fits one al1 by (simp add: align_up_def add_chk_def sub_chk_def)
  then show ?thesis using t by (simp add: unat_and_not_pow2 [OF k] round_up_def)
qed

lemma align_up_aligned:
  assumes "is_power_of_two al" and "unat a + unat al < 2 ^ 64" and "unat al dvd unat a"
  shows "align_up a al = Inr a"
  using align_up_ok [OF assms(1,2)] assms
  by (auto simp: round_up_id is_power_of_two_pos word_unat_eq_iff)

lemma align_up_overflow:
  "2 ^ 64 \<le> unat a + unat al \<Longrightarrow> align_up a al = Inl (Panic ArithmeticOverflow)"
  by (simp add: align_up_def add_chk_def)

section \<open>Blocks and extents\<close>

type_synonym block = "usize \<times> layout"

text \<open>An extent is a start address and a length in bytes.\<close>

type_synonym extent = "nat \<times> nat"

definition apart :: "extent \<Rightarrow> extent \<Rightarrow> bool" where
  "apart e f = (fst e + snd e \<le> fst f \<or> fst f + snd f \<le> fst e)"

definition within :: "nat \<Rightarrow> nat \<Rightarrow> extent \<Rightarrow> bool" where
  "within lo hi e = (lo \<le> fst e \<and> fst e + snd e \<le> hi)"

definition all_apart :: "extent list \<Rightarrow> bool" where
  "all_apart es = sorted_wrt apart es"

definition extent :: "block \<Rightarrow> extent" where
  "extent b = (unat (fst b), unat (l_size (snd b)))"

definition bytes :: "extent \<Rightarrow> nat set" where
  "bytes e = {fst e ..< fst e + snd e}"

definition block_aligned :: "block \<Rightarrow> bool" where
  "block_aligned b = (unat (l_align (snd b)) dvd unat (fst b))"

text \<open>
  The state of the memory a client sees: every live block lies in the heap, starts at a
  multiple of its alignment, and no two overlap.
\<close>

definition live_ok :: "nat \<Rightarrow> nat \<Rightarrow> block list \<Rightarrow> bool" where
  "live_ok lo hi live =
     (list_all (\<lambda>b. within lo hi (extent b) \<and> block_aligned b) live \<and>
      all_apart (map extent live))"

definition live_bytes :: "block list \<Rightarrow> nat set" where
  "live_bytes live = (\<Union>b\<in>set live. bytes (extent b))"

lemma apart_sym: "apart e f \<longleftrightarrow> apart f e"
  by (auto simp: apart_def)

lemma all_apart_Nil [simp]: "all_apart []"
  by (simp add: all_apart_def)

lemma all_apart_Cons [simp]: "all_apart (e # es) \<longleftrightarrow> (\<forall>f\<in>set es. apart e f) \<and> all_apart es"
  by (simp add: all_apart_def)

lemma all_apart_append:
  "all_apart (es @ fs) \<longleftrightarrow> all_apart es \<and> all_apart fs \<and> (\<forall>e\<in>set es. \<forall>f\<in>set fs. apart e f)"
  by (simp add: all_apart_def sorted_wrt_append)

lemma all_apart_move: "all_apart (xs @ e # ys) \<longleftrightarrow> all_apart (e # xs @ ys)"
  by (auto simp: all_apart_append apart_sym)

lemma all_apart_perm:
  assumes "mset xs = mset ys"
  shows "all_apart xs \<longleftrightarrow> all_apart ys"
  using assms
proof (induction xs arbitrary: ys)
  case Nil
  then show ?case by simp
next
  case (Cons e xs)
  then have "e \<in> set ys" by (metis list.set_intros(1) mset_eq_setD)
  then obtain us vs where ys: "ys = us @ e # vs" by (meson split_list)
  with Cons.prems have m: "mset xs = mset (us @ vs)" by simp
  then have s: "set xs = set (us @ vs)" by (rule mset_eq_setD)
  have "all_apart xs \<longleftrightarrow> all_apart (us @ vs)" using m by (rule Cons.IH)
  with s show ?case by (simp only: ys all_apart_move) simp
qed

lemma all_apart_remove1: "all_apart es \<Longrightarrow> all_apart (remove1 e es)"
  by (induction es) (auto dest: notin_set_remove1)

lemma apart_shrink:
  "apart e f \<Longrightarrow> fst e \<le> fst e' \<Longrightarrow> fst e' + snd e' \<le> fst e + snd e \<Longrightarrow> apart e' f"
  by (auto simp: apart_def)

lemma within_shrink:
  "within lo hi e \<Longrightarrow> fst e \<le> fst e' \<Longrightarrow> fst e' + snd e' \<le> fst e + snd e \<Longrightarrow> within lo hi e'"
  by (auto simp: within_def)

lemma apart_mono: "apart (a, m) (b, n) \<Longrightarrow> m' \<le> m \<Longrightarrow> n' \<le> n \<Longrightarrow> apart (a, m') (b, n')"
  by (auto simp: apart_def)

lemma all_apart_mono:
  assumes "all_apart (map f xs)" and "\<And>x. fst (g x) = fst (f x)" and "\<And>x. x \<in> set xs \<Longrightarrow> snd (g x) \<le> snd (f x)"
  shows "all_apart (map g xs)"
  using assms
proof (induction xs)
  case Nil
  then show ?case by simp
next
  case (Cons x xs)
  have "apart (g x) (g y)" if "y \<in> set xs" for y
  proof -
    have "apart (f x) (f y)" using Cons.prems(1) that by simp
    moreover have "snd (g x) \<le> snd (f x)" "snd (g y) \<le> snd (f y)"
      using Cons.prems(3) that by simp_all
    ultimately show ?thesis using Cons.prems(2) by (auto simp: apart_def)
  qed
  with Cons show ?case by simp
qed

lemma apart_disjoint: "apart e f \<Longrightarrow> bytes e \<inter> bytes f = {}"
  by (auto simp: apart_def bytes_def)

lemma live_ok_disjoint:
  assumes "live_ok lo hi live" and "i < length live" and "j < length live" and "i \<noteq> j"
  shows "bytes (extent (live ! i)) \<inter> bytes (extent (live ! j)) = {}"
proof -
  have sw: "sorted_wrt apart (map extent live)"
    using assms(1) by (simp add: live_ok_def all_apart_def)
  have "apart (extent (live ! i)) (extent (live ! j))" if "i < j" "j < length live" for i j
    using sorted_wrt_nth_less [OF sw that(1)] that by simp
  then have "apart (extent (live ! i)) (extent (live ! j)) \<or> apart (extent (live ! j)) (extent (live ! i))"
    using assms(2-4) by (cases "i < j") (simp_all add: nat_neq_iff)
  then show ?thesis by (blast dest: apart_disjoint)
qed

section \<open>The contract of GlobalAlloc\<close>

text \<open>
  What a client of \<^verbatim>\<open>GlobalAlloc\<close> may do: allocate with a layout the allocator accepts, free a
  live block with the layout it was allocated with, and write the bytes of its live blocks. A trace
  leads from a state and its live blocks to a later state and the blocks live then.
  A null result of an allocation leaves the set of live blocks as it is.
\<close>

inductive heap_trace ::
  "('s \<Rightarrow> layout \<Rightarrow> ('s \<times> usize) result) \<Rightarrow> ('s \<Rightarrow> usize \<Rightarrow> layout \<Rightarrow> 's result) \<Rightarrow>
   (layout \<Rightarrow> bool) \<Rightarrow> (nat set \<Rightarrow> 's \<Rightarrow> 's \<Rightarrow> bool) \<Rightarrow> 's \<Rightarrow> block list \<Rightarrow> 's \<Rightarrow> block list \<Rightarrow> bool"
  for alloc dealloc accepts touches s0 live0 where
  start: "heap_trace alloc dealloc accepts touches s0 live0 s0 live0"
| alloc_null: "heap_trace alloc dealloc accepts touches s0 live0 s live \<Longrightarrow> accepts l \<Longrightarrow>
    alloc s l = Inr (s', 0) \<Longrightarrow> heap_trace alloc dealloc accepts touches s0 live0 s' live"
| alloc_block: "heap_trace alloc dealloc accepts touches s0 live0 s live \<Longrightarrow> accepts l \<Longrightarrow>
    alloc s l = Inr (s', p) \<Longrightarrow> p \<noteq> 0 \<Longrightarrow> heap_trace alloc dealloc accepts touches s0 live0 s' ((p, l) # live)"
| dealloc: "heap_trace alloc dealloc accepts touches s0 live0 s live \<Longrightarrow> (p, l) \<in> set live \<Longrightarrow>
    dealloc s p l = Inr s' \<Longrightarrow> heap_trace alloc dealloc accepts touches s0 live0 s' (remove1 (p, l) live)"
| client_write: "heap_trace alloc dealloc accepts touches s0 live0 s live \<Longrightarrow> A \<subseteq> live_bytes live \<Longrightarrow>
    touches A s s' \<Longrightarrow> heap_trace alloc dealloc accepts touches s0 live0 s' live"

lemma trace_first_alloc:
  assumes "accepts l" and "alloc s0 l = Inr (s', p)" and "p \<noteq> 0"
  shows "heap_trace alloc dealloc accepts touches s0 live0 s' ((p, l) # live0)"
  using heap_trace.start assms by (rule heap_trace.alloc_block)

locale global_allocator =
  fixes alloc :: "'s \<Rightarrow> layout \<Rightarrow> ('s \<times> usize) result"
    and dealloc :: "'s \<Rightarrow> usize \<Rightarrow> layout \<Rightarrow> 's result"
    and accepts :: "layout \<Rightarrow> bool"
    and touches :: "nat set \<Rightarrow> 's \<Rightarrow> 's \<Rightarrow> bool"
    and inv :: "nat \<Rightarrow> nat \<Rightarrow> 's \<Rightarrow> block list \<Rightarrow> bool"
  assumes accepts_valid: "accepts l \<Longrightarrow> valid_layout l"
    and inv_live_ok: "inv lo hi s live \<Longrightarrow> live_ok lo hi live"
    and alloc_returns: "inv lo hi s live \<Longrightarrow> accepts l \<Longrightarrow> \<exists>s' p. alloc s l = Inr (s', p)"
    and alloc_null_inv: "inv lo hi s live \<Longrightarrow> accepts l \<Longrightarrow> alloc s l = Inr (s', 0) \<Longrightarrow> inv lo hi s' live"
    and alloc_block_inv: "inv lo hi s live \<Longrightarrow> accepts l \<Longrightarrow> alloc s l = Inr (s', p) \<Longrightarrow> p \<noteq> 0 \<Longrightarrow>
          inv lo hi s' ((p, l) # live)"
    and dealloc_inv: "inv lo hi s live \<Longrightarrow> (p, l) \<in> set live \<Longrightarrow>
          \<exists>s'. dealloc s p l = Inr s' \<and> inv lo hi s' (remove1 (p, l) live)"
    and touches_inv: "inv lo hi s live \<Longrightarrow> A \<subseteq> live_bytes live \<Longrightarrow> touches A s s' \<Longrightarrow> inv lo hi s' live"
begin

lemma trace_inv:
  assumes "inv lo hi s0 live0" and "heap_trace alloc dealloc accepts touches s0 live0 s live"
  shows "inv lo hi s live"
  using assms(2)
proof (induction rule: heap_trace.induct)
  case start
  show ?case by (rule assms(1))
next
  case (alloc_null s live l s')
  then show ?case by (blast intro: alloc_null_inv)
next
  case (alloc_block s live l s' p)
  then show ?case by (blast intro: alloc_block_inv)
next
  case (dealloc s live p l s')
  then show ?case using dealloc_inv by fastforce
next
  case (client_write s live A s')
  then show ?case by (blast intro: touches_inv)
qed

lemma trace_safe:
  assumes "inv lo hi s0 live0" and "heap_trace alloc dealloc accepts touches s0 live0 s live"
  shows "live_ok lo hi live"
    and "accepts l \<Longrightarrow> \<exists>s' p. alloc s l = Inr (s', p)"
    and "(p, l) \<in> set live \<Longrightarrow> \<exists>s'. dealloc s p l = Inr s'"
proof -
  from assms have i: "inv lo hi s live" by (rule trace_inv)
  show "live_ok lo hi live" using i by (rule inv_live_ok)
  show "accepts l \<Longrightarrow> \<exists>s' p. alloc s l = Inr (s', p)" using i by (rule alloc_returns)
  show "(p, l) \<in> set live \<Longrightarrow> \<exists>s'. dealloc s p l = Inr s'" using dealloc_inv [OF i] by blast
qed

lemma alloc_fresh:
  assumes "inv lo hi s live" and "accepts l" and "alloc s l = Inr (s', p)" and "p \<noteq> 0"
  shows "bytes (extent (p, l)) \<inter> live_bytes live = {}"
proof -
  have "live_ok lo hi ((p, l) # live)"
    using assms by (blast intro: inv_live_ok alloc_block_inv)
  then have "\<forall>b\<in>set live. apart (extent (p, l)) (extent b)" by (simp add: live_ok_def)
  then show ?thesis by (auto simp: live_bytes_def dest: apart_disjoint)
qed

end

section \<open>Properties\<close>

text \<open>For a power-of-two alignment, \<open>align_up\<close> returns the least multiple of the
  alignment that is not below the address, and panics with an overflow exactly when address plus
  alignment does not fit into 64 bits.\<close>

theorem align_up_correct:
  assumes "is_power_of_two al"
  shows "if unat a + unat al < 2 ^ 64
         then \<exists>r. align_up a al = Inr r \<and> unat al dvd unat r \<and> unat a \<le> unat r \<and>
                (\<forall>m. unat al dvd m \<and> unat a \<le> m \<longrightarrow> unat r \<le> m)
         else align_up a al = Inl (Panic ArithmeticOverflow)"
proof (cases "unat a + unat al < 2 ^ 64")
  case True
  from align_up_ok [OF assms True] obtain r where r: "align_up a al = Inr r"
    and u: "unat r = round_up (unat a) (unat al)"
    by blast
  have pos: "0 < unat al" using assms by (rule is_power_of_two_pos)
  have "unat al dvd unat r" "unat a \<le> unat r" using u pos by (simp_all add: round_up_ge)
  moreover have "\<forall>m. unat al dvd m \<and> unat a \<le> m \<longrightarrow> unat r \<le> m"
    using u pos by (simp add: round_up_least)
  ultimately show ?thesis using r True by simp
next
  case False
  then show ?thesis using align_up_overflow [of a al] by simp
qed

theorem align_up_correct_witness:
  "is_power_of_two 8 \<and> (\<exists>r. align_up 4100 8 = Inr r \<and> 8 dvd unat r \<and> 4100 \<le> unat r)"
proof -
  have p: "is_power_of_two 8" unfolding is_power_of_two_iff by (rule exI [of _ 3]) simp
  from align_up_correct [OF p, of 4100] p show ?thesis by auto
qed

end
