(* ===== verification/Bump_Allocator.thy ===== *)
theory Bump_Allocator
  imports Allocator
begin

text \<open>
  \<^verbatim>\<open>allocator/bump.rs\<close>: an allocator that only moves a pointer forward and starts over when
  its last block is freed. State: the four fields of \<^verbatim>\<open>BumpAllocator\<close> inside the \<^verbatim>\<open>Locked\<close>
  wrapper; a null pointer is the address 0. The theory shows that it is a
  \<open>global_allocator\<close>, the exact result of every allocation, and the reset.
\<close>

section \<open>State and operations\<close>

record bump_allocator =
  heap_start :: usize
  heap_end :: usize
  bump_next :: usize
  allocations :: usize

definition bump_new :: bump_allocator where
  "bump_new = \<lparr>heap_start = 0, heap_end = 0, bump_next = 0, allocations = 0\<rparr>"

definition bump_init :: "bump_allocator \<Rightarrow> usize \<Rightarrow> usize \<Rightarrow> bump_allocator" where
  "bump_init self start sz =
     self\<lparr>heap_start := start, heap_end := saturating_add start sz, bump_next := start\<rparr>"

definition bump_alloc :: "bump_allocator mutex \<Rightarrow> layout \<Rightarrow> (bump_allocator mutex \<times> usize) result" where
  "bump_alloc self l =
     and_then (locked_lock self) (\<lambda>bump.
     and_then (align_up (bump_next bump) (l_align l)) (\<lambda>alloc_start.
     case checked_add alloc_start (l_size l) of
       None \<Rightarrow> Inr (self, 0)
     | Some alloc_end \<Rightarrow>
         if alloc_end > heap_end bump then Inr (self, 0)
         else and_then (add_chk (allocations bump) 1) (\<lambda>n.
                Inr (self\<lparr>inner := bump\<lparr>bump_next := alloc_end, allocations := n\<rparr>\<rparr>, alloc_start))))"

definition bump_dealloc ::
  "bump_allocator mutex \<Rightarrow> usize \<Rightarrow> layout \<Rightarrow> bump_allocator mutex result" where
  "bump_dealloc self ptr l =
     and_then (locked_lock self) (\<lambda>bump.
     and_then (sub_chk (allocations bump) 1) (\<lambda>n.
       let bump = bump\<lparr>allocations := n\<rparr> in
       Inr (self\<lparr>inner := (if n = 0 then bump\<lparr>bump_next := heap_start bump\<rparr> else bump)\<rparr>)))"

section \<open>Invariant\<close>

definition bump_accepts :: "layout \<Rightarrow> bool" where
  "bump_accepts l = (valid_layout l \<and> 0 < unat (l_size l))"

text \<open>The allocator keeps nothing in the heap itself: writes of a client leave it as it is.\<close>

definition bump_touches :: "nat set \<Rightarrow> bump_allocator mutex \<Rightarrow> bump_allocator mutex \<Rightarrow> bool" where
  "bump_touches A s s' = (s' = s)"

definition size_of_block :: "block \<Rightarrow> nat" where
  "size_of_block b = unat (l_size (snd b))"

definition bump_inv :: "nat \<Rightarrow> nat \<Rightarrow> bump_allocator mutex \<Rightarrow> block list \<Rightarrow> bool" where
  "bump_inv lo hi m live =
     (let b = inner m in
      \<not> held m \<and> unat (heap_start b) = lo \<and> unat (heap_end b) = hi \<and>
      0 < lo \<and> lo \<le> unat (bump_next b) \<and> unat (bump_next b) \<le> hi \<and> hi < 2 ^ 63 \<and>
      unat (allocations b) = length live \<and>
      list_all (\<lambda>c. within lo (unat (bump_next b)) (extent c) \<and> block_aligned c \<and> 0 < size_of_block c) live \<and>
      all_apart (map extent live) \<and>
      sum_list (map size_of_block live) \<le> unat (bump_next b) - lo)"

lemma length_le_sum_sizes:
  "list_all (\<lambda>c. 0 < size_of_block c) live \<Longrightarrow> length live \<le> sum_list (map size_of_block live)"
  by (induction live) auto

lemma sum_sizes_remove1:
  "sum_list (map size_of_block (remove1 b live)) \<le> sum_list (map size_of_block live)"
  by (induction live) auto

lemma list_all_remove1: "list_all P xs \<Longrightarrow> list_all P (remove1 x xs)"
  by (auto simp: list_all_iff dest: notin_set_remove1)

lemma all_apart_map_remove1: "all_apart (map f xs) \<Longrightarrow> all_apart (map f (remove1 x xs))"
  by (induction xs) (auto dest: notin_set_remove1)

lemma bump_align_ok:
  assumes "bump_inv lo hi m live" and "valid_layout l"
  obtains r where "align_up (bump_next (inner m)) (l_align l) = Inr r"
    and "unat r = round_up (unat (bump_next (inner m))) (unat (l_align l))"
proof -
  have "unat (l_align l) \<le> 2 ^ 63"
    using assms(2) by (rule valid_layout_align_le)
  then have "unat (bump_next (inner m)) + unat (l_align l) < 2 ^ 64"
    using assms(1) by (simp add: bump_inv_def Let_def)
  then show ?thesis
    using align_up_ok assms(2) that by (force simp: valid_layout_iff)
qed

lemma bump_inv_count:
  assumes "bump_inv lo hi m live"
  shows "unat (allocations (inner m)) + 1 < 2 ^ 64"
proof -
  have "list_all (\<lambda>c. 0 < size_of_block c) live"
    using assms by (auto simp: bump_inv_def Let_def list_all_iff)
  then have "length live \<le> sum_list (map size_of_block live)" by (rule length_le_sum_sizes)
  moreover have "sum_list (map size_of_block live) < 2 ^ 63"
    using assms by (auto simp: bump_inv_def Let_def)
  moreover have "unat (allocations (inner m)) = length live"
    using assms by (simp add: bump_inv_def Let_def)
  ultimately show ?thesis by simp
qed

section \<open>Functional behaviour\<close>

text \<open>
  The result of an allocation: the next free address rounded up to the alignment if the
  block still fits below the end of the heap, and null otherwise.
\<close>

lemma bump_alloc_cases:
  assumes inv: "bump_inv lo hi m live" and acc: "bump_accepts l"
  defines "b \<equiv> inner m"
  defines "start \<equiv> round_up (unat (bump_next b)) (unat (l_align l))"
  shows "if start + unat (l_size l) \<le> hi
         then \<exists>p n e. bump_alloc m l = Inr (m\<lparr>inner := b\<lparr>bump_next := e, allocations := n\<rparr>\<rparr>, p) \<and>
                unat p = start \<and> unat e = start + unat (l_size l) \<and> unat n = Suc (unat (allocations b))
         else bump_alloc m l = Inr (m, 0)"
proof -
  have valid: "valid_layout l" using acc by (simp add: bump_accepts_def)
  obtain r where r: "align_up (bump_next b) (l_align l) = Inr r" and ur: "unat r = start"
    using bump_align_ok [OF inv valid] unfolding b_def start_def by blast
  have free: "\<not> held m" and hi: "unat (heap_end b) = hi" and hib: "hi < 2 ^ 63"
    using inv by (simp_all add: bump_inv_def Let_def b_def)
  have cnt: "unat (allocations b) + unat (1::usize) < 2 ^ LENGTH(64)"
    using bump_inv_count [OF inv] by (simp add: b_def)
  show ?thesis
  proof (cases "start + unat (l_size l) \<le> hi")
    case True
    then have fits: "unat r + unat (l_size l) < 2 ^ LENGTH(64)" using ur hib by simp
    then have e: "unat (r + l_size l) = start + unat (l_size l)" using ur unat_add_ok by metis
    have "\<not> r + l_size l > heap_end b" using e True hi by (simp add: word_less_nat_alt)
    moreover have "checked_add r (l_size l) = Some (r + l_size l)" using fits by (simp add: checked_add_def)
    moreover have "add_chk (allocations b) 1 = Inr (allocations b + 1)"
      using cnt by (simp add: add_chk_def)
    moreover have "unat (allocations b + 1) = Suc (unat (allocations b))"
      using unat_add_ok [OF cnt] by simp
    ultimately have "bump_alloc m l =
        Inr (m\<lparr>inner := b\<lparr>bump_next := r + l_size l, allocations := allocations b + 1\<rparr>\<rparr>, r)"
      and "unat (allocations b + 1) = Suc (unat (allocations b))"
      using free r by (simp_all add: bump_alloc_def b_def [symmetric])
    then show ?thesis using True ur e by auto
  next
    case False
    have "bump_alloc m l = Inr (m, 0)"
    proof (cases "checked_add r (l_size l)")
      case None
      then show ?thesis using free r by (simp add: bump_alloc_def b_def [symmetric])
    next
      case (Some e)
      then have "unat e = start + unat (l_size l)"
        using ur by (auto simp: checked_add_Some unat_add_ok)
      then have "e > heap_end b" using False hi by (simp add: word_less_nat_alt)
      then show ?thesis using free r Some by (simp add: bump_alloc_def b_def [symmetric])
    qed
    with False show ?thesis by simp
  qed
qed

lemma bump_alloc_inv:
  assumes inv: "bump_inv lo hi m live" and acc: "bump_accepts l"
    and res: "bump_alloc m l = Inr (m', p)"
  shows "if p = 0 then m' = m else bump_inv lo hi m' ((p, l) # live)"
proof (cases "round_up (unat (bump_next (inner m))) (unat (l_align l)) + unat (l_size l) \<le> hi")
  case True
  define start where "start = round_up (unat (bump_next (inner m))) (unat (l_align l))"
  from True obtain n e where m': "m' = m\<lparr>inner := inner m\<lparr>bump_next := e, allocations := n\<rparr>\<rparr>"
    and p: "unat p = start" and e: "unat e = start + unat (l_size l)"
    and n: "unat n = Suc (unat (allocations (inner m)))"
    using bump_alloc_cases [OF inv acc] res by (auto simp: start_def)
  have ge: "unat (bump_next (inner m)) \<le> start"
    using acc by (auto simp: start_def bump_accepts_def intro: round_up_ge valid_layout_align_pos)
  have al: "unat (l_align l) dvd start" by (simp add: start_def)
  have old: "within lo start (extent c)" if "c \<in> set live" for c
    using inv that ge by (auto simp: bump_inv_def Let_def list_all_iff within_def)
  have "p \<noteq> 0" using inv p ge by (auto simp: bump_inv_def Let_def)
  moreover have "bump_inv lo hi m' ((p, l) # live)"
    using inv acc m' p e n ge al old True
    by (auto simp: bump_inv_def Let_def extent_def within_def block_aligned_def bump_accepts_def
        size_of_block_def list_all_iff apart_def start_def [symmetric])
  ultimately show ?thesis by simp
next
  case False
  then show ?thesis using bump_alloc_cases [OF inv acc] res by auto
qed

lemma bump_dealloc_ok:
  assumes inv: "bump_inv lo hi m live" and mem: "(p, l) \<in> set live"
  shows "\<exists>m'. bump_dealloc m p l = Inr m' \<and> bump_inv lo hi m' (remove1 (p, l) live)"
proof -
  define b where "b = inner m"
  have free: "\<not> held m" and len: "unat (allocations b) = length live"
    using inv by (simp_all add: bump_inv_def Let_def b_def)
  have pos: "0 < length live" using mem by (cases live) auto
  then have "unat (1::usize) \<le> unat (allocations b)" using len by (simp add: Suc_le_eq)
  then obtain n where n: "sub_chk (allocations b) 1 = Inr n" and un: "unat n = length live - 1"
    using sub_chk_unat len by fastforce
  have len': "length (remove1 (p, l) live) = length live - 1"
    using mem by (simp add: length_remove1)
  define m' where "m' = m\<lparr>inner := (if n = 0 then b\<lparr>allocations := n, bump_next := heap_start b\<rparr>
                                    else b\<lparr>allocations := n\<rparr>)\<rparr>"
  have d: "bump_dealloc m p l = Inr m'"
    using free n by (simp add: bump_dealloc_def m'_def b_def Let_def)
  show ?thesis
  proof (cases "n = 0")
    case True
    then have "remove1 (p, l) live = []" using un len' by (metis length_0_conv unsigned_0)
    then show ?thesis using inv d True by (auto simp: bump_inv_def Let_def m'_def b_def)
  next
    case False
    have "list_all (\<lambda>c. within lo (unat (bump_next b)) (extent c) \<and> block_aligned c \<and> 0 < size_of_block c)
            (remove1 (p, l) live)"
      by (rule list_all_remove1) (use inv in \<open>simp add: bump_inv_def Let_def b_def\<close>)
    moreover have "all_apart (map extent (remove1 (p, l) live))"
      by (rule all_apart_map_remove1) (use inv in \<open>simp add: bump_inv_def Let_def\<close>)
    moreover have "sum_list (map size_of_block (remove1 (p, l) live)) \<le> unat (bump_next b) - lo"
      using inv sum_sizes_remove1 [of "(p, l)" live] by (auto simp: bump_inv_def Let_def b_def)
    ultimately have "bump_inv lo hi m' (remove1 (p, l) live)"
      using inv False un len' by (simp add: bump_inv_def Let_def m'_def b_def)
    with d show ?thesis by blast
  qed
qed

lemma bump_inv_init:
  assumes "0 < unat start" and "unat start + unat sz < 2 ^ 63"
  shows "bump_inv (unat start) (unat start + unat sz) (locked_new (bump_init bump_new start sz)) []"
  using assms by (simp add: bump_inv_def bump_init_def bump_new_def unat_saturating_add)

lemma bump_inv_live_ok: "bump_inv lo hi m live \<Longrightarrow> live_ok lo hi live"
  by (auto simp: bump_inv_def Let_def live_ok_def list_all_iff within_def)

section \<open>The allocator contract\<close>

interpretation bump: global_allocator bump_alloc bump_dealloc bump_accepts bump_touches bump_inv
proof
  show "valid_layout l" if "bump_accepts l" for l
    using that by (simp add: bump_accepts_def)
  show "live_ok lo hi live" if "bump_inv lo hi s live" for lo hi s live
    using that by (rule bump_inv_live_ok)
  show "\<exists>s' p. bump_alloc s l = Inr (s', p)" if "bump_inv lo hi s live" "bump_accepts l" for lo hi s live l
    using bump_alloc_cases [OF that] by (auto split: if_splits)
  show "bump_inv lo hi s' live"
    if "bump_inv lo hi s live" "bump_accepts l" "bump_alloc s l = Inr (s', 0)" for lo hi s live l s'
    using bump_alloc_inv [OF that] that(1) by simp
  show "bump_inv lo hi s' ((p, l) # live)"
    if "bump_inv lo hi s live" "bump_accepts l" "bump_alloc s l = Inr (s', p)" "p \<noteq> 0" for lo hi s live l s' p
    using bump_alloc_inv [OF that(1-3)] that(4) by simp
  show "\<exists>s'. bump_dealloc s p l = Inr s' \<and> bump_inv lo hi s' (remove1 (p, l) live)"
    if "bump_inv lo hi s live" "(p, l) \<in> set live" for lo hi s live p l
    using that by (rule bump_dealloc_ok)
  show "bump_inv lo hi s' live"
    if "bump_inv lo hi s live" "A \<subseteq> live_bytes live" "bump_touches A s s'" for lo hi s live A s'
    using that by (simp add: bump_touches_def)
qed

section \<open>Properties\<close>

lemmas bump_eval = bump_alloc_def bump_dealloc_def bump_init_def bump_new_def locked_new_def
  locked_lock_def mutex_lock_def align_up_def add_chk_def sub_chk_def checked_add_def
  saturating_add_def Let_def

text \<open>C10 (bump_safe): for a heap that starts above address 0 and ends below the middle of
  the address space, after any sequence of allocations, frees and writes of a client that
  follows the rules of GlobalAlloc, the live blocks lie inside the heap, are aligned and do
  not overlap, and no allocation or free of a live block panics or deadlocks.\<close>

theorem bump_safe:
  assumes "0 < unat start" and "unat start + unat sz < 2 ^ 63"
    and "heap_trace bump_alloc bump_dealloc bump_accepts bump_touches
           (locked_new (bump_init bump_new start sz)) [] m live"
  shows "live_ok (unat start) (unat start + unat sz) live \<and>
         (\<forall>l. bump_accepts l \<longrightarrow> (\<exists>m' p. bump_alloc m l = Inr (m', p))) \<and>
         (\<forall>p l. (p, l) \<in> set live \<longrightarrow> (\<exists>m'. bump_dealloc m p l = Inr m'))"
  using bump.trace_safe [OF bump_inv_init [OF assms(1,2)] assms(3)] by blast

definition bump_demo :: "bump_allocator mutex" where
  "bump_demo = \<lparr>held = False, inner = \<lparr>heap_start = 4096, heap_end = 8192, bump_next = 4128, allocations = 1\<rparr>\<rparr>"

lemma bump_accepts_demo: "bump_accepts \<lparr>l_size = 32, l_align = 16\<rparr>"
proof -
  have "is_power_of_two 16" unfolding is_power_of_two_iff by (rule exI [of _ 4]) simp
  then show ?thesis by (simp add: bump_accepts_def valid_layout_iff)
qed

lemma bump_demo_trace:
  "heap_trace bump_alloc bump_dealloc bump_accepts bump_touches
     (locked_new (bump_init bump_new 4096 4096)) [] bump_demo [(4096, \<lparr>l_size = 32, l_align = 16\<rparr>)]"
proof -
  have "bump_alloc (locked_new (bump_init bump_new 4096 4096)) \<lparr>l_size = 32, l_align = 16\<rparr> = Inr (bump_demo, 4096)"
    by (simp add: bump_eval bump_demo_def)
  with bump_accepts_demo show ?thesis by (rule trace_first_alloc) simp
qed

theorem bump_safe_witness:
  "live_ok 4096 8192 [(4096, \<lparr>l_size = 32, l_align = 16\<rparr>)]"
  using bump_safe [OF _ _ bump_demo_trace] by simp

text \<open>In a state that satisfies the invariant, an allocation returns the
  first address not below the bump pointer that is a multiple of the alignment, moves the
  pointer to the end of the block and counts it, if the block ends within the heap;
  otherwise it returns null and changes nothing.\<close>

theorem bump_alloc_exact:
  assumes "bump_inv lo hi m live" and "bump_accepts l"
  shows "let b = inner m; start = round_up (unat (bump_next b)) (unat (l_align l)) in
         if start + unat (l_size l) \<le> hi
         then \<exists>p n e. bump_alloc m l = Inr (m\<lparr>inner := b\<lparr>bump_next := e, allocations := n\<rparr>\<rparr>, p) \<and>
                unat p = start \<and> unat e = start + unat (l_size l) \<and> unat n = Suc (unat (allocations b))
         else bump_alloc m l = Inr (m, 0)"
  using bump_alloc_cases [OF assms] by (simp add: Let_def)

theorem bump_alloc_exact_witness:
  "\<exists>p n e. bump_alloc bump_demo \<lparr>l_size = 32, l_align = 16\<rparr> =
     Inr (bump_demo\<lparr>inner := (inner bump_demo)\<lparr>bump_next := e, allocations := n\<rparr>\<rparr>, p) \<and>
     unat p = 4128 \<and> unat e = 4160 \<and> unat n = Suc (Suc 0)"
proof -
  have "bump_inv 4096 8192 bump_demo [(4096, \<lparr>l_size = 32, l_align = 16\<rparr>)]"
    using bump.trace_inv [OF _ bump_demo_trace] bump_inv_init [of 4096 4096] by simp
  from bump_alloc_exact [OF this bump_accepts_demo] show ?thesis
    by (simp add: bump_demo_def round_up_def)
qed

text \<open>Freeing the only live block makes the whole heap available again, and
  freeing any other block leaves the bump pointer where it was.\<close>

theorem bump_reset:
  assumes "bump_inv lo hi m live" and "(p, l) \<in> set live" and "bump_dealloc m p l = Inr m'"
  shows "bump_next (inner m') = (if length live = 1 then heap_start (inner m) else bump_next (inner m))"
proof -
  from assms(1) have free: "\<not> held m" and cnt: "unat (allocations (inner m)) = length live"
    by (simp_all add: bump_inv_def Let_def)
  from free assms(3) obtain n where n: "sub_chk (allocations (inner m)) 1 = Inr n"
    and m': "inner m' = (if n = 0 then (inner m)\<lparr>allocations := n, bump_next := heap_start (inner m)\<rparr>
                          else (inner m)\<lparr>allocations := n\<rparr>)"
    by (auto simp: bump_dealloc_def Let_def and_then_eq_Inr)
  from n have "unat n = unat (allocations (inner m)) - 1"
    by (auto simp: sub_chk_Inr unat_sub)
  then have "n = 0 \<longleftrightarrow> length live \<le> 1" using cnt by (simp add: word_unat_eq_iff)
  moreover have "length live \<noteq> 0" using assms(2) by auto
  ultimately have "n = 0 \<longleftrightarrow> length live = 1" by linarith
  then show ?thesis using m' by simp
qed

theorem bump_reset_witness:
  "bump_dealloc bump_demo 4096 \<lparr>l_size = 32, l_align = 16\<rparr> =
     Inr (bump_demo\<lparr>inner := \<lparr>heap_start = 4096, heap_end = 8192, bump_next = 4096, allocations = 0\<rparr>\<rparr>) \<and>
   bump_next \<lparr>heap_start = 4096, heap_end = 8192, bump_next = 4096, allocations = 0\<rparr> = heap_start (inner bump_demo)"
proof -
  have inv: "bump_inv 4096 8192 bump_demo [(4096, \<lparr>l_size = 32, l_align = 16\<rparr>)]"
    using bump.trace_inv [OF _ bump_demo_trace] bump_inv_init [of 4096 4096] by simp
  have d: "bump_dealloc bump_demo 4096 \<lparr>l_size = 32, l_align = 16\<rparr> =
     Inr (bump_demo\<lparr>inner := \<lparr>heap_start = 4096, heap_end = 8192, bump_next = 4096, allocations = 0\<rparr>\<rparr>)"
    by (simp add: bump_eval bump_demo_def)
  from bump_reset [OF inv _ d] d show ?thesis by simp
qed

end
