(* ===== verification/Linked_List_Allocator.thy ===== *)
theory Linked_List_Allocator
  imports Allocator
begin

text \<open>
  \<^verbatim>\<open>allocator/linked_list.rs\<close>: a first-fit allocator whose free list lives in the free memory
  itself. A node is a \<^verbatim>\<open>ListNode\<close> written at the start of a free region; the model keeps the
  nodes in an explicit store from addresses to nodes, and \<^verbatim>\<open>Option<&'static mut ListNode>\<close> is
  an optional address. Following an address with no node in the store is \<open>InvalidAccess\<close>,
  a walk that never ends is \<open>Diverges\<close>; the theory shows that neither happens, that the
  pointer code refines first fit on a list of regions, and that it is a \<open>global_allocator\<close>.
\<close>

section \<open>State and operations\<close>

record list_node =
  node_size :: usize
  node_next :: "usize option"

record linked_list_allocator =
  ll_head :: list_node
  ll_mem :: "usize \<Rightarrow> list_node option"

text \<open>\<^verbatim>\<open>mem::size_of::<ListNode>()\<close> and \<^verbatim>\<open>mem::align_of::<ListNode>()\<close> on the 64-bit target.\<close>

definition NODE_SIZE :: usize where
  "NODE_SIZE = 16"

definition NODE_ALIGN :: usize where
  "NODE_ALIGN = 8"

definition list_node_new :: "usize \<Rightarrow> list_node" where
  "list_node_new sz = \<lparr>node_size = sz, node_next = None\<rparr>"

definition start_addr :: "usize \<Rightarrow> usize" where
  "start_addr addr = addr"

definition end_addr :: "usize \<Rightarrow> list_node \<Rightarrow> usize result" where
  "end_addr addr node = add_chk (start_addr addr) (node_size node)"

definition ll_new :: "(usize \<Rightarrow> list_node option) \<Rightarrow> linked_list_allocator" where
  "ll_new mem = \<lparr>ll_head = list_node_new 0, ll_mem = mem\<rparr>"

definition add_free_region :: "linked_list_allocator \<Rightarrow> usize \<Rightarrow> usize \<Rightarrow> linked_list_allocator result" where
  "add_free_region self addr sz =
     and_then (align_up addr NODE_ALIGN) (\<lambda>a.
     and_then (require (a = addr) (Panic AssertionFailed)) (\<lambda>_.
     and_then (require (NODE_SIZE \<le> sz) (Panic AssertionFailed)) (\<lambda>_.
       let node = (list_node_new sz)\<lparr>node_next := node_next (ll_head self)\<rparr> in
       Inr (self\<lparr>ll_head := (ll_head self)\<lparr>node_next := Some addr\<rparr>,
                 ll_mem := (ll_mem self)(addr \<mapsto> node)\<rparr>))))"

definition ll_init :: "linked_list_allocator \<Rightarrow> usize \<Rightarrow> usize \<Rightarrow> linked_list_allocator result" where
  "ll_init self start sz = add_free_region self start sz"

definition alloc_from_region :: "usize \<Rightarrow> list_node \<Rightarrow> usize \<Rightarrow> usize \<Rightarrow> usize option result" where
  "alloc_from_region addr region sz align =
     and_then (align_up (start_addr addr) align) (\<lambda>alloc_start.
     case checked_add alloc_start sz of
       None \<Rightarrow> Inr None
     | Some alloc_end \<Rightarrow>
         and_then (end_addr addr region) (\<lambda>region_end.
         if alloc_end > region_end then Inr None
         else and_then (sub_chk region_end alloc_end) (\<lambda>excess_size.
           if 0 < excess_size \<and> excess_size < NODE_SIZE then Inr None
           else Inr (Some alloc_start))))"

text \<open>\<^verbatim>\<open>current\<close> of the search loop: the head node or the node at an address.\<close>

datatype cursor = AtHead | AtNode usize

fun cursor_next :: "linked_list_allocator \<Rightarrow> cursor \<Rightarrow> usize option result" where
  "cursor_next self AtHead = Inr (node_next (ll_head self))"
| "cursor_next self (AtNode a) =
     (case ll_mem self a of None \<Rightarrow> Inl InvalidAccess | Some n \<Rightarrow> Inr (node_next n))"

fun cursor_set_next :: "linked_list_allocator \<Rightarrow> cursor \<Rightarrow> usize option \<Rightarrow> linked_list_allocator result" where
  "cursor_set_next self AtHead nx = Inr (self\<lparr>ll_head := (ll_head self)\<lparr>node_next := nx\<rparr>\<rparr>)"
| "cursor_set_next self (AtNode a) nx =
     (case ll_mem self a of None \<Rightarrow> Inl InvalidAccess
      | Some n \<Rightarrow> Inr (self\<lparr>ll_mem := (ll_mem self)(a \<mapsto> n\<lparr>node_next := nx\<rparr>)\<rparr>))"

text \<open>Taking a suitable region out of the list: \<^verbatim>\<open>region.next.take()\<close>, \<^verbatim>\<open>current.next = next\<close>.\<close>

definition unlink_region ::
  "linked_list_allocator \<Rightarrow> cursor \<Rightarrow> usize \<Rightarrow> list_node \<Rightarrow> linked_list_allocator result" where
  "unlink_region self current addr region =
     cursor_set_next (self\<lparr>ll_mem := (ll_mem self)(addr \<mapsto> region\<lparr>node_next := None\<rparr>)\<rparr>)
       current (node_next region)"

partial_function (option) find_region_loop ::
  "linked_list_allocator \<Rightarrow> cursor \<Rightarrow> usize \<Rightarrow> usize \<Rightarrow>
   (linked_list_allocator \<times> (usize \<times> list_node \<times> usize) option) result option" where
  "find_region_loop self current sz align =
     (case cursor_next self current of
        Inl e \<Rightarrow> Some (Inl e)
      | Inr None \<Rightarrow> Some (Inr (self, None))
      | Inr (Some addr) \<Rightarrow>
          (case ll_mem self addr of
             None \<Rightarrow> Some (Inl InvalidAccess)
           | Some region \<Rightarrow>
               (case alloc_from_region addr region sz align of
                  Inl e \<Rightarrow> Some (Inl e)
                | Inr (Some alloc_start) \<Rightarrow>
                    Some (and_then (unlink_region self current addr region) (\<lambda>self'.
                      Inr (self', Some (addr, region\<lparr>node_next := None\<rparr>, alloc_start))))
                | Inr None \<Rightarrow> find_region_loop self (AtNode addr) sz align)))"

definition find_region ::
  "linked_list_allocator \<Rightarrow> usize \<Rightarrow> usize \<Rightarrow>
   (linked_list_allocator \<times> (usize \<times> list_node \<times> usize) option) result" where
  "find_region self sz align =
     (case find_region_loop self AtHead sz align of None \<Rightarrow> Inl Diverges | Some r \<Rightarrow> r)"

definition size_align :: "layout \<Rightarrow> (usize \<times> usize) result" where
  "size_align l =
     (case align_to l NODE_ALIGN of
        None \<Rightarrow> Inl (Panic (ExpectFailed ''adjusting alignment failed''))
      | Some l' \<Rightarrow> let l'' = pad_to_align l' in Inr (max (l_size l'') NODE_SIZE, l_align l''))"

definition ll_alloc ::
  "linked_list_allocator mutex \<Rightarrow> layout \<Rightarrow> (linked_list_allocator mutex \<times> usize) result" where
  "ll_alloc self l =
     and_then (size_align l) (\<lambda>(sz, align).
     and_then (locked_lock self) (\<lambda>allocator.
     and_then (find_region allocator sz align) (\<lambda>(allocator, found).
     case found of
       None \<Rightarrow> Inr (self\<lparr>inner := allocator\<rparr>, 0)
     | Some (addr, region, alloc_start) \<Rightarrow>
         (case checked_add alloc_start sz of
            None \<Rightarrow> Inl (Panic (ExpectFailed ''overflow''))
          | Some alloc_end \<Rightarrow>
              and_then (end_addr addr region) (\<lambda>region_end.
              and_then (sub_chk region_end alloc_end) (\<lambda>excess_size.
              and_then (if 0 < excess_size then add_free_region allocator alloc_end excess_size
                        else Inr allocator) (\<lambda>allocator.
              Inr (self\<lparr>inner := allocator\<rparr>, alloc_start))))))))"

definition ll_dealloc ::
  "linked_list_allocator mutex \<Rightarrow> usize \<Rightarrow> layout \<Rightarrow> linked_list_allocator mutex result" where
  "ll_dealloc self ptr l =
     and_then (size_align l) (\<lambda>(sz, _).
     and_then (locked_lock self) (\<lambda>allocator.
     and_then (add_free_region allocator ptr sz) (\<lambda>allocator.
     Inr (self\<lparr>inner := allocator\<rparr>))))"

section \<open>Specification: first fit on a list of regions\<close>

type_synonym region = "usize \<times> usize"

definition region_extent :: "region \<Rightarrow> extent" where
  "region_extent r = (unat (fst r), unat (snd r))"

definition fit_start :: "nat \<Rightarrow> region \<Rightarrow> nat" where
  "fit_start align r = round_up (unat (fst r)) align"

definition fit_excess :: "nat \<Rightarrow> nat \<Rightarrow> region \<Rightarrow> nat" where
  "fit_excess sz align r = unat (fst r) + unat (snd r) - (fit_start align r + sz)"

text \<open>
  A region is suitable if the aligned block ends inside it and what is left behind the block
  is nothing or can hold a node.
\<close>

definition suitable :: "nat \<Rightarrow> nat \<Rightarrow> region \<Rightarrow> bool" where
  "suitable sz align r =
     (fit_start align r + sz \<le> unat (fst r) + unat (snd r) \<and>
      (fit_excess sz align r = 0 \<or> 16 \<le> fit_excess sz align r))"

fun first_fit :: "nat \<Rightarrow> nat \<Rightarrow> region list \<Rightarrow> (region \<times> region list) option" where
  "first_fit sz align [] = None"
| "first_fit sz align (r # rs) =
     (if suitable sz align r then Some (r, rs)
      else map_option (\<lambda>(r', rs'). (r', r # rs')) (first_fit sz align rs))"

definition spec_alloc :: "nat \<Rightarrow> nat \<Rightarrow> region list \<Rightarrow> (region list \<times> nat) option" where
  "spec_alloc sz align rs =
     (case first_fit sz align rs of
        None \<Rightarrow> None
      | Some (r, rs') \<Rightarrow>
          let s = fit_start align r; x = fit_excess sz align r in
          Some (if 0 < x then (of_nat (s + sz), of_nat x) # rs' else rs', s))"

text \<open>The size a block of a layout really takes: \<^verbatim>\<open>size_align\<close> in arithmetic.\<close>

definition adj_align :: "layout \<Rightarrow> nat" where
  "adj_align l = max (unat (l_align l)) 8"

definition adj_size :: "layout \<Rightarrow> nat" where
  "adj_size l = max (round_up (unat (l_size l)) (adj_align l)) 16"

definition ll_accepts :: "layout \<Rightarrow> bool" where
  "ll_accepts l = (valid_layout l \<and> 0 < unat (l_size l) \<and> align_to l NODE_ALIGN \<noteq> None)"

text \<open>\<open>chain mem h rs\<close>: following the nodes of \<open>mem\<close> from \<open>h\<close> visits exactly the regions \<open>rs\<close>.\<close>

fun chain :: "(usize \<Rightarrow> list_node option) \<Rightarrow> usize option \<Rightarrow> region list \<Rightarrow> bool" where
  "chain mem h [] = (h = None)"
| "chain mem h (r # rs) =
     (h = Some (fst r) \<and>
      (case mem (fst r) of None \<Rightarrow> False
       | Some n \<Rightarrow> node_size n = snd r \<and> chain mem (node_next n) rs))"

definition free_list :: "linked_list_allocator \<Rightarrow> region list \<Rightarrow> bool" where
  "free_list self rs = chain (ll_mem self) (node_next (ll_head self)) rs"

definition region_ok :: "nat \<Rightarrow> nat \<Rightarrow> region \<Rightarrow> bool" where
  "region_ok lo hi r = (within lo hi (region_extent r) \<and> 16 \<le> unat (snd r) \<and> 8 dvd unat (fst r))"

definition adj_extent :: "block \<Rightarrow> extent" where
  "adj_extent b = (unat (fst b), adj_size (snd b))"

definition ll_live :: "nat \<Rightarrow> nat \<Rightarrow> block \<Rightarrow> bool" where
  "ll_live lo hi b = (ll_accepts (snd b) \<and> within lo hi (adj_extent b) \<and> adj_align (snd b) dvd unat (fst b))"

definition ll_wf :: "nat \<Rightarrow> nat \<Rightarrow> region list \<Rightarrow> block list \<Rightarrow> bool" where
  "ll_wf lo hi rs live =
     (0 < lo \<and> hi < 2 ^ 63 \<and> list_all (region_ok lo hi) rs \<and> list_all (ll_live lo hi) live \<and>
      all_apart (map region_extent rs @ map adj_extent live))"

definition ll_inv :: "nat \<Rightarrow> nat \<Rightarrow> linked_list_allocator mutex \<Rightarrow> block list \<Rightarrow> bool" where
  "ll_inv lo hi m live = (\<not> held m \<and> (\<exists>rs. free_list (inner m) rs \<and> ll_wf lo hi rs live))"

text \<open>A write to the bytes of \<open>A\<close> can change the nodes that overlap \<open>A\<close>, and nothing else.\<close>

definition ll_touches :: "nat set \<Rightarrow> linked_list_allocator mutex \<Rightarrow> linked_list_allocator mutex \<Rightarrow> bool" where
  "ll_touches A m m' =
     (\<exists>mem'. m' = m\<lparr>inner := (inner m)\<lparr>ll_mem := mem'\<rparr>\<rparr> \<and>
        (\<forall>a. bytes (unat a, 16) \<inter> A = {} \<longrightarrow> mem' a = ll_mem (inner m) a))"

section \<open>The node store\<close>

lemma chain_Cons:
  "chain mem h (r # rs) \<longleftrightarrow> h = Some (fst r) \<and>
     (\<exists>n. mem (fst r) = Some n \<and> node_size n = snd r \<and> chain mem (node_next n) rs)"
  by (auto split: option.splits)

declare chain.simps(2) [simp del]
declare chain_Cons [simp]

lemma chain_frame:
  "a \<notin> fst ` set rs \<Longrightarrow> chain (mem(a := x)) h rs \<longleftrightarrow> chain mem h rs"
  by (induction rs arbitrary: h) (auto split: option.splits)

lemma chain_cong:
  "(\<And>a. a \<in> fst ` set rs \<Longrightarrow> mem' a = mem a) \<Longrightarrow> chain mem' h rs \<longleftrightarrow> chain mem h rs"
  by (induction rs arbitrary: h) (auto split: option.splits)

lemma chain_last:
  "chain mem h (pre @ suf) \<Longrightarrow> pre \<noteq> [] \<Longrightarrow>
   \<exists>n. mem (fst (last pre)) = Some n \<and> node_size n = snd (last pre) \<and> chain mem (node_next n) suf"
  by (induction pre arbitrary: h) (auto split: option.splits if_splits)

text \<open>Redirecting the last node of a prefix replaces what follows it.\<close>

lemma chain_redirect:
  assumes "chain mem h (pre @ suf)" and "pre \<noteq> []" and "distinct (map fst pre)"
    and "mem (fst (last pre)) = Some n" and "chain mem nx suf'" and "fst (last pre) \<notin> fst ` set suf'"
  shows "chain (mem(fst (last pre) \<mapsto> n\<lparr>node_next := nx\<rparr>)) h (pre @ suf')"
  using assms
proof (induction pre arbitrary: h)
  case Nil
  then show ?case by simp
next
  case (Cons r pre)
  show ?case
  proof (cases "pre = []")
    case True
    then have "chain (mem(fst r \<mapsto> n\<lparr>node_next := nx\<rparr>)) nx suf'"
      using Cons.prems by (subst chain_frame) simp_all
    then show ?thesis using True Cons.prems by (simp del: fun_upd_apply add: fun_upd_same)
  next
    case False
    with Cons.prems obtain m where m: "h = Some (fst r)" "mem (fst r) = Some m" "node_size m = snd r"
      and c: "chain mem (node_next m) (pre @ suf)"
      by (auto split: option.splits)
    have "fst r \<notin> fst ` set pre" using Cons.prems(3) by simp
    then have ne: "fst (last pre) \<noteq> fst r"
      using imageI [OF last_in_set [OF False], of fst] by metis
    have "chain (mem(fst (last pre) \<mapsto> n\<lparr>node_next := nx\<rparr>)) (node_next m) (pre @ suf')"
      by (rule Cons.IH [OF c False]) (use Cons.prems False in simp_all)
    with m ne False show ?thesis by (simp del: fun_upd_apply add: fun_upd_other)
  qed
qed

definition cursor_of :: "region list \<Rightarrow> cursor" where
  "cursor_of pre = (if pre = [] then AtHead else AtNode (fst (last pre)))"

lemma cursor_next_of:
  assumes "free_list self (pre @ suf)"
  shows "\<exists>h. cursor_next self (cursor_of pre) = Inr h \<and> chain (ll_mem self) h suf"
proof (cases "pre = []")
  case True
  with assms show ?thesis by (simp add: cursor_of_def free_list_def)
next
  case False
  with assms show ?thesis by (auto simp: cursor_of_def free_list_def dest: chain_last)
qed

lemma unlink_ok:
  assumes fl: "free_list self (pre @ r # suf)" and dist: "distinct (map fst (pre @ r # suf))"
    and reg: "ll_mem self (fst r) = Some region"
  shows "\<exists>self'. unlink_region self (cursor_of pre) (fst r) region = Inr self' \<and> free_list self' (pre @ suf)"
proof (cases "pre = []")
  case True
  have nin: "fst r \<notin> fst ` set suf" using dist by auto
  have "chain (ll_mem self) (node_next region) suf"
    using fl reg True by (simp add: free_list_def)
  then have "chain ((ll_mem self)(fst r \<mapsto> region\<lparr>node_next := None\<rparr>)) (node_next region) suf"
    using nin by (subst chain_frame)
  with True show ?thesis by (simp add: unlink_region_def cursor_of_def free_list_def)
next
  case False
  define c where "c = fst (last pre)"
  have whole: "chain (ll_mem self) (node_next (ll_head self)) (pre @ r # suf)"
    using fl by (simp add: free_list_def)
  from chain_last [OF whole False] obtain n where n: "ll_mem self c = Some n" by (auto simp: c_def)
  have rest: "chain (ll_mem self) (node_next region) suf"
    using chain_last [OF whole False] reg by (auto split: option.splits)
  have "c \<in> fst ` set pre" using False by (simp add: c_def)
  then have nin: "c \<noteq> fst r" "c \<notin> fst ` set suf" "fst r \<notin> fst ` set (pre @ suf)"
    using dist unfolding map_append list.map distinct_append distinct.simps set_map set_append list.set
    by blast+
  have "chain ((ll_mem self)(c \<mapsto> n\<lparr>node_next := node_next region\<rparr>)) (node_next (ll_head self)) (pre @ suf)"
    unfolding c_def
    by (rule chain_redirect [OF whole False]) (use n rest dist nin in \<open>simp_all add: c_def\<close>)
  then have "chain ((ll_mem self)(c \<mapsto> n\<lparr>node_next := node_next region\<rparr>,
                fst r \<mapsto> region\<lparr>node_next := None\<rparr>)) (node_next (ll_head self)) (pre @ suf)"
    using nin(3) by (subst chain_frame)
  then have "free_list (self\<lparr>ll_mem := (ll_mem self)(fst r \<mapsto> region\<lparr>node_next := None\<rparr>,
               c \<mapsto> n\<lparr>node_next := node_next region\<rparr>)\<rparr>) (pre @ suf)"
    using nin(1) by (simp add: free_list_def fun_upd_twist)
  moreover have "unlink_region self (cursor_of pre) (fst r) region =
      Inr (self\<lparr>ll_mem := (ll_mem self)(fst r \<mapsto> region\<lparr>node_next := None\<rparr>,
               c \<mapsto> n\<lparr>node_next := node_next region\<rparr>)\<rparr>)"
    using False nin(1) n by (simp add: unlink_region_def cursor_of_def c_def)
  ultimately show ?thesis by blast
qed

lemma add_free_region_eq:
  assumes "8 dvd unat addr" and "unat addr < 2 ^ 63" and "16 \<le> unat sz"
  shows "add_free_region self addr sz =
    Inr (self\<lparr>ll_head := (ll_head self)\<lparr>node_next := Some addr\<rparr>,
              ll_mem := (ll_mem self)(addr \<mapsto> (list_node_new sz)\<lparr>node_next := node_next (ll_head self)\<rparr>)\<rparr>)"
proof -
  have "is_power_of_two NODE_ALIGN"
    unfolding is_power_of_two_iff NODE_ALIGN_def by (rule exI [of _ 3]) simp
  then have "align_up addr NODE_ALIGN = Inr addr"
    using assms(1,2) by (intro align_up_aligned) (simp_all add: NODE_ALIGN_def)
  moreover have "NODE_SIZE \<le> sz" using assms(3) by (simp add: NODE_SIZE_def word_le_nat_alt)
  ultimately show ?thesis by (simp add: add_free_region_def)
qed

lemma add_free_region_ok:
  assumes fl: "free_list self rs" and al: "8 dvd unat addr" and sz: "16 \<le> unat sz"
    and fits: "unat addr < 2 ^ 63" and fresh: "addr \<notin> fst ` set rs"
  shows "\<exists>self'. add_free_region self addr sz = Inr self' \<and> free_list self' ((addr, sz) # rs)"
proof -
  have "chain ((ll_mem self)(addr \<mapsto> n)) (node_next (ll_head self)) rs" for n
    using fl fresh by (subst chain_frame) (simp_all add: free_list_def)
  then show ?thesis by (simp add: add_free_region_eq [OF al fits sz] free_list_def list_node_new_def)
qed

lemma add_free_region_misaligned:
  assumes "\<not> 8 dvd unat addr" and "unat addr < 2 ^ 63"
  shows "add_free_region self addr sz = Inl (Panic AssertionFailed)"
proof -
  have "is_power_of_two NODE_ALIGN"
    unfolding is_power_of_two_iff NODE_ALIGN_def by (rule exI [of _ 3]) simp
  then obtain r where r: "align_up addr NODE_ALIGN = Inr r" "unat r = round_up (unat addr) 8"
    using align_up_ok [of NODE_ALIGN addr] assms(2) by (auto simp: NODE_ALIGN_def)
  then have "r \<noteq> addr" using assms(1) by (metis round_up_dvd)
  with r(1) show ?thesis by (simp add: add_free_region_def)
qed

section \<open>The search loop\<close>

lemma region_ok_bounds:
  assumes "region_ok lo hi r" and "hi < 2 ^ 63"
  shows "unat (fst r) + unat (snd r) < 2 ^ 63" and "unat (fst r) < 2 ^ 63"
  using assms by (auto simp: region_ok_def within_def region_extent_def)

lemma alloc_from_region_ok:
  assumes ok: "region_ok lo hi r" and hi: "hi < 2 ^ 63" and al: "is_power_of_two align"
    and node: "node_size region = snd r"
  shows "if suitable (unat sz) (unat align) r
         then \<exists>a. alloc_from_region (fst r) region sz align = Inr (Some a) \<and> unat a = fit_start (unat align) r
         else alloc_from_region (fst r) region sz align = Inr None"
proof -
  note bounds = region_ok_bounds [OF ok hi]
  have "unat align \<le> 2 ^ 63" using al by (rule is_power_of_two_le)
  then have "unat (fst r) + unat align < 2 ^ 64" using bounds by simp
  from align_up_ok [OF al this] obtain a where a: "align_up (fst r) align = Inr a"
    and ua: "unat a = fit_start (unat align) r"
    by (auto simp: fit_start_def)
  define e where "e = fst r + snd r"
  have e: "end_addr (fst r) region = Inr e" and ue: "unat e = unat (fst r) + unat (snd r)"
    using bounds by (simp_all add: e_def end_addr_def start_addr_def node add_chk_def unat_add_ok)
  show ?thesis
  proof (cases "checked_add a sz")
    case None
    then have "\<not> suitable (unat sz) (unat align) r"
      using ua bounds by (simp add: checked_add_None suitable_def)
    then show ?thesis using a None by (simp add: alloc_from_region_def start_addr_def)
  next
    case (Some b)
    then have ub: "unat b = fit_start (unat align) r + unat sz"
      using ua by (auto simp: checked_add_Some unat_add_ok)
    show ?thesis
    proof (cases "b > e")
      case True
      then have "\<not> suitable (unat sz) (unat align) r"
        using ub ue by (simp add: suitable_def word_less_nat_alt)
      then show ?thesis using a Some e True by (simp add: alloc_from_region_def start_addr_def)
    next
      case False
      then have le: "b \<le> e" by simp
      then have x: "unat (e - b) = fit_excess (unat sz) (unat align) r"
        using ub ue by (simp add: unat_sub fit_excess_def)
      have "suitable (unat sz) (unat align) r \<longleftrightarrow> \<not> (0 < e - b \<and> e - b < NODE_SIZE)"
        using le ub ue x by (auto simp: suitable_def word_less_nat_alt word_le_nat_alt NODE_SIZE_def)
      then show ?thesis
        using a Some e False le ua by (auto simp: alloc_from_region_def start_addr_def sub_chk_def)
    qed
  qed
qed

lemma find_region_loop_ok:
  assumes "free_list self (pre @ suf)" and "distinct (map fst (pre @ suf))"
    and "list_all (region_ok lo hi) suf" and "hi < 2 ^ 63" and "is_power_of_two align"
  shows "case first_fit (unat sz) (unat align) suf of
           None \<Rightarrow> find_region_loop self (cursor_of pre) sz align = Some (Inr (self, None))
         | Some (r, suf') \<Rightarrow>
             \<exists>self' a node. find_region_loop self (cursor_of pre) sz align =
                 Some (Inr (self', Some (fst r, node, a))) \<and>
               unat a = fit_start (unat align) r \<and> node_size node = snd r \<and>
               free_list self' (pre @ suf')"
  using assms
proof (induction suf arbitrary: pre)
  case Nil
  from cursor_next_of [OF Nil.prems(1)] have "cursor_next self (cursor_of pre) = Inr None" by simp
  then show ?case by (simp add: find_region_loop.simps)
next
  case (Cons r suf)
  from cursor_next_of [OF Cons.prems(1)] obtain region where
    cur: "cursor_next self (cursor_of pre) = Inr (Some (fst r))"
    and reg: "ll_mem self (fst r) = Some region" and size: "node_size region = snd r"
    by (auto split: option.splits)
  have rok: "region_ok lo hi r" using Cons.prems(3) by simp
  note afr = alloc_from_region_ok [OF rok Cons.prems(4,5) size, of sz]
  show ?case
  proof (cases "suitable (unat sz) (unat align) r")
    case True
    then obtain a where a: "alloc_from_region (fst r) region sz align = Inr (Some a)"
      and ua: "unat a = fit_start (unat align) r"
      using afr by auto
    from unlink_ok [OF Cons.prems(1,2) reg] obtain self' where
      u: "unlink_region self (cursor_of pre) (fst r) region = Inr self'" "free_list self' (pre @ suf)"
      by blast
    have "find_region_loop self (cursor_of pre) sz align =
        Some (Inr (self', Some (fst r, region\<lparr>node_next := None\<rparr>, a)))"
      using cur reg a u by (simp add: find_region_loop.simps)
    with True u ua size show ?thesis by auto
  next
    case False
    have "alloc_from_region (fst r) region sz align = Inr None" using afr False by simp
    then have step: "find_region_loop self (cursor_of pre) sz align =
        find_region_loop self (cursor_of (pre @ [r])) sz align"
      using cur reg by (subst find_region_loop.simps) (simp add: cursor_of_def)
    have "free_list self ((pre @ [r]) @ suf)" "distinct (map fst ((pre @ [r]) @ suf))"
      "list_all (region_ok lo hi) suf"
      using Cons.prems by simp_all
    from Cons.IH [OF this Cons.prems(4,5)] show ?thesis
      using False step by (auto split: option.splits)
  qed
qed

lemma find_region_ok:
  assumes "free_list self rs" and "distinct (map fst rs)"
    and "list_all (region_ok lo hi) rs" and "hi < 2 ^ 63" and "is_power_of_two align"
  shows "case first_fit (unat sz) (unat align) rs of
           None \<Rightarrow> find_region self sz align = Inr (self, None)
         | Some (r, rs') \<Rightarrow>
             \<exists>self' a node. find_region self sz align = Inr (self', Some (fst r, node, a)) \<and>
               unat a = fit_start (unat align) r \<and> node_size node = snd r \<and> free_list self' rs'"
  using find_region_loop_ok [of self "[]" rs lo hi align sz] assms
  by (fastforce simp: find_region_def cursor_of_def split: option.splits)

section \<open>Layout adjustment\<close>

lemma unat_max: "unat (max a b) = max (unat a) (unat b)"
  by (simp add: max_def word_le_nat_alt)

lemma eight_dvd_pow2: "unat al = 2 ^ k \<Longrightarrow> 8 \<le> unat al \<Longrightarrow> 8 dvd unat al"
proof -
  assume k: "unat al = 2 ^ k" and "8 \<le> unat al"
  then have "(2::nat) ^ 3 \<le> 2 ^ k" by simp
  then have "3 \<le> k" by (rule power_le_imp_le_exp [rotated]) simp
  then have "(2::nat) ^ 3 dvd 2 ^ k" by (rule le_imp_power_dvd)
  then show ?thesis using k by simp
qed

lemma accepts_align_to:
  assumes "ll_accepts l"
  shows "\<exists>l'. align_to l NODE_ALIGN = Some l' \<and> valid_layout l' \<and> l_size l' = l_size l \<and>
           unat (l_align l') = adj_align l"
  using assms
  by (auto simp: ll_accepts_def align_to_def from_size_align_def valid_layout_iff adj_align_def
      unat_max NODE_ALIGN_def split: if_splits)

lemma size_align_ok:
  assumes "ll_accepts l"
  shows "\<exists>sz al. size_align l = Inr (sz, al) \<and> unat sz = adj_size l \<and> unat al = adj_align l \<and>
           is_power_of_two al"
proof -
  obtain l' where l': "align_to l NODE_ALIGN = Some l'" "valid_layout l'" "l_size l' = l_size l"
    "unat (l_align l') = adj_align l"
    using accepts_align_to [OF assms] by blast
  then have "unat (l_size (pad_to_align l')) = round_up (unat (l_size l)) (adj_align l)"
    by (simp add: pad_to_align_size)
  with l' show ?thesis
    by (simp add: size_align_def Let_def adj_size_def unat_max NODE_SIZE_def valid_layout_iff)
qed

lemma adj_align_facts:
  assumes "ll_accepts l"
  shows "0 < adj_align l" and "8 dvd adj_align l" and "unat (l_align l) dvd adj_align l"
proof -
  obtain l' where l': "valid_layout l'" "unat (l_align l') = adj_align l"
    using accepts_align_to [OF assms] by blast
  then obtain k where k: "unat (l_align l') = 2 ^ k" by (auto simp: valid_layout_iff is_power_of_two_iff)
  show "0 < adj_align l" by (simp add: adj_align_def)
  show "8 dvd adj_align l" using eight_dvd_pow2 [OF k] l'(2) by (simp add: adj_align_def)
  have "valid_layout l" using assms by (simp add: ll_accepts_def)
  then obtain j where j: "unat (l_align l) = 2 ^ j" by (auto simp: valid_layout_iff is_power_of_two_iff)
  have "(2::nat) ^ j \<le> 2 ^ k" using j k l'(2) unfolding adj_align_def by linarith
  then have "j \<le> k" by (rule power_le_imp_le_exp [rotated]) simp
  then show "unat (l_align l) dvd adj_align l" using j k l'(2) by (metis le_imp_power_dvd)
qed

lemma adj_size_facts:
  assumes "ll_accepts l"
  shows "unat (l_size l) \<le> adj_size l" and "16 \<le> adj_size l" and "8 dvd adj_size l"
proof -
  note a = adj_align_facts [OF assms]
  have "unat (l_size l) \<le> round_up (unat (l_size l)) (adj_align l)" using a(1) by (rule round_up_ge)
  then show "unat (l_size l) \<le> adj_size l" by (simp add: adj_size_def)
  show "16 \<le> adj_size l" by (simp add: adj_size_def)
  have "8 dvd round_up (unat (l_size l)) (adj_align l)" using a(2) by (rule dvd_trans) simp
  then show "8 dvd adj_size l" by (simp add: adj_size_def max_def)
qed

section \<open>Allocation refines first fit\<close>

lemma first_fit_Some:
  "first_fit sz al rs = Some (r, rs') \<Longrightarrow>
   suitable sz al r \<and> (\<exists>us vs. rs = us @ r # vs \<and> rs' = us @ vs \<and> list_all (\<lambda>u. \<not> suitable sz al u) us)"
proof (induction rs arbitrary: rs')
  case Nil
  then show ?case by simp
next
  case (Cons q rs)
  show ?case
  proof (cases "suitable sz al q")
    case True
    then show ?thesis using Cons.prems by (force intro: exI [of _ "[]"])
  next
    case False
    with Cons.prems obtain rs'' where ff: "first_fit sz al rs = Some (r, rs'')" "rs' = q # rs''"
      by auto
    from Cons.IH [OF ff(1)] obtain us vs where "suitable sz al r" "rs = us @ r # vs" "rs'' = us @ vs"
      "list_all (\<lambda>u. \<not> suitable sz al u) us"
      by blast
    with ff(2) False show ?thesis by (auto intro: exI [of _ "q # us"])
  qed
qed

lemma first_fit_None: "first_fit sz al rs = None \<longleftrightarrow> list_all (\<lambda>r. \<not> suitable sz al r) rs"
  by (induction rs) auto

lemma apart_distinct_addr:
  "all_apart (map region_extent rs) \<Longrightarrow> list_all (region_ok lo hi) rs \<Longrightarrow> distinct (map fst rs)"
proof (induction rs)
  case Nil
  then show ?case by simp
next
  case (Cons r rs)
  have "fst r \<noteq> fst q" if "q \<in> set rs" for q
  proof -
    have "apart (region_extent r) (region_extent q)" using Cons.prems(1) that by simp
    moreover have "16 \<le> unat (snd r)" "16 \<le> unat (snd q)"
      using Cons.prems(2) that by (auto simp: region_ok_def list_all_iff)
    ultimately show ?thesis by (auto simp: apart_def region_extent_def)
  qed
  with Cons show ?case by auto
qed

text \<open>The rest of a split region starts where no other free region starts.\<close>

lemma split_fresh:
  assumes "all_apart (map region_extent (us @ r # vs))" and "list_all (region_ok lo hi) (us @ r # vs)"
    and "unat (fst r) \<le> unat b" and "unat b < unat (fst r) + unat (snd r)"
  shows "b \<notin> fst ` set (us @ vs)"
proof
  assume "b \<in> fst ` set (us @ vs)"
  then obtain q where q: "q \<in> set (us @ vs)" "fst q = b" by auto
  have "apart (region_extent r) (region_extent q)"
    using assms(1) q(1) by (auto simp: all_apart_append apart_sym)
  moreover have "16 \<le> unat (snd q)" using assms(2) q(1) by (auto simp: region_ok_def list_all_iff)
  ultimately show False using assms(3,4) q(2) by (auto simp: apart_def region_extent_def)
qed

lemma fit_start_bounds:
  assumes "suitable sz al r" and "0 < al"
  shows "unat (fst r) \<le> fit_start al r" and "fit_start al r + sz \<le> unat (fst r) + unat (snd r)"
    and "al dvd fit_start al r"
  using assms by (simp_all add: fit_start_def round_up_ge suitable_def)

text \<open>The arithmetic of \<^verbatim>\<open>alloc\<close> on the region it found: no step of it overflows.\<close>

lemma found_region:
  assumes rok: "region_ok lo hi r" and hi: "hi < 2 ^ 63" and suit: "suitable (unat sz) al r" and al: "0 < al"
    and ua: "unat a = fit_start al r" and ns: "node_size node = snd r"
  shows "checked_add a sz = Some (a + sz)" "unat (a + sz) = fit_start al r + unat sz"
    "end_addr (fst r) node = Inr (fst r + snd r)" "a + sz \<le> fst r + snd r"
    "unat (fst r + snd r - (a + sz)) = fit_excess (unat sz) al r"
proof -
  note rb = region_ok_bounds [OF rok hi] and fb = fit_start_bounds [OF suit al]
  show ub: "unat (a + sz) = fit_start al r + unat sz" using ua fb(2) rb(1) by (simp add: unat_add_ok)
  show "checked_add a sz = Some (a + sz)" using ua fb(2) rb(1) by (simp add: checked_add_def)
  have ue: "unat (fst r + snd r) = unat (fst r) + unat (snd r)" using rb by (simp add: unat_add_ok)
  show "end_addr (fst r) node = Inr (fst r + snd r)" using rb by (simp add: end_addr_def start_addr_def ns add_chk_def)
  show be: "a + sz \<le> fst r + snd r" using ub ue fb(2) by (simp add: word_le_nat_alt)
  show "unat (fst r + snd r - (a + sz)) = fit_excess (unat sz) al r" using be ub ue by (simp add: unat_sub fit_excess_def)
qed

text \<open>Allocation when the search has found a region.\<close>

lemma ll_alloc_found:
  assumes free: "\<not> held m" and ap: "all_apart (map region_extent rs)" and ok: "list_all (region_ok lo hi) rs"
    and hi: "hi < 2 ^ 63" and acc: "ll_accepts l" and sa: "size_align l = Inr (sz, al)" "unat sz = adj_size l"
    and ff: "first_fit (adj_size l) (adj_align l) rs = Some (r, rs')"
    and f: "find_region (inner m) sz al = Inr (self', Some (fst r, node, a))" and ua: "unat a = fit_start (adj_align l) r"
    and ns: "node_size node = snd r" and fl': "free_list self' rs'"
  shows "\<exists>m'. ll_alloc m l = Inr (m', a) \<and> \<not> held m' \<and>
    spec_alloc (adj_size l) (adj_align l) rs = Some (if 0 < fit_excess (adj_size l) (adj_align l) r
      then (a + sz, fst r + snd r - (a + sz)) # rs' else rs', unat a) \<and>
    free_list (inner m') (if 0 < fit_excess (adj_size l) (adj_align l) r then (a + sz, fst r + snd r - (a + sz)) # rs' else rs')"
proof -
  from first_fit_Some [OF ff] obtain us vs where suit: "suitable (adj_size l) (adj_align l) r"
    and rs: "rs = us @ r # vs" and rs': "rs' = us @ vs" by blast
  have rok: "region_ok lo hi r" using ok rs by simp
  note al = adj_align_facts [OF acc]
  note fb = fit_start_bounds [OF suit al(1)]
  note F = found_region [OF rok hi, of sz "adj_align l" a node, unfolded sa(2), OF suit al(1) ua ns]
  let ?x = "fst r + snd r - (a + sz)"
  have words: "of_nat (fit_start (adj_align l) r + adj_size l) = a + sz" "of_nat (fit_excess (adj_size l) (adj_align l) r) = ?x"
    using F(2,5) by (metis of_nat_unat ucast_id)+
  show ?thesis
  proof (cases "0 < fit_excess (adj_size l) (adj_align l) r")
    case False
    then have "\<not> 0 < ?x" using F(5) by (simp add: word_less_nat_alt)
    then have "ll_alloc m l = Inr (m\<lparr>inner := self'\<rparr>, a)"
      using sa(1) free f F by (simp add: ll_alloc_def sub_chk_def)
    then show ?thesis using ff False ua fl' free by (simp add: spec_alloc_def Let_def)
  next
    case True
    then have pos: "0 < ?x" using F(5) by (simp add: word_less_nat_alt)
    have "8 dvd unat (a + sz)" using fb(3) al(2) adj_size_facts(3) [OF acc] F(2) by (metis dvd_add dvd_trans)
    moreover have "16 \<le> unat ?x" using suit True F(5) by (simp add: suitable_def)
    moreover have "unat (a + sz) < 2 ^ 63" using F(2) fb(2) region_ok_bounds(1) [OF rok hi] by simp
    moreover have "a + sz \<notin> fst ` set rs'"
      unfolding rs' by (rule split_fresh [OF ap [unfolded rs] ok [unfolded rs]])
         (use F(2) fb True in \<open>simp_all add: fit_excess_def\<close>)
    ultimately obtain self'' where s'': "add_free_region self' (a + sz) ?x = Inr self''" "free_list self'' ((a + sz, ?x) # rs')"
      using add_free_region_ok [OF fl'] by blast
    have "ll_alloc m l = Inr (m\<lparr>inner := self''\<rparr>, a)"
      using sa(1) free f F pos s'' by (simp add: ll_alloc_def sub_chk_def)
    then show ?thesis using ff True ua s'' free words by (simp add: spec_alloc_def Let_def)
  qed
qed

lemma ll_alloc_refines_aux:
  assumes free: "\<not> held m" and fl: "free_list (inner m) rs" and ap: "all_apart (map region_extent rs)"
    and ok: "list_all (region_ok lo hi) rs" and hi: "hi < 2 ^ 63" and acc: "ll_accepts l"
  shows "case spec_alloc (adj_size l) (adj_align l) rs of
           None \<Rightarrow> ll_alloc m l = Inr (m, 0)
         | Some (rs', s) \<Rightarrow>
             \<exists>m' p. ll_alloc m l = Inr (m', p) \<and> unat p = s \<and> \<not> held m' \<and> free_list (inner m') rs'"
proof -
  obtain sz al where sa: "size_align l = Inr (sz, al)" "unat sz = adj_size l"
    and ual: "unat al = adj_align l" and pal: "is_power_of_two al"
    using size_align_ok [OF acc] by blast
  have dist: "distinct (map fst rs)" using ap ok by (rule apart_distinct_addr)
  note find = find_region_ok [OF fl dist ok hi pal, of sz, unfolded sa(2) ual]
  show ?thesis
  proof (cases "first_fit (adj_size l) (adj_align l) rs")
    case None
    then show ?thesis using find sa free by (simp add: ll_alloc_def spec_alloc_def)
  next
    case (Some fr)
    then obtain r rs' where ff: "first_fit (adj_size l) (adj_align l) rs = Some (r, rs')" by (cases fr) simp
    from find ff obtain self' a node where "find_region (inner m) sz al = Inr (self', Some (fst r, node, a))"
      "unat a = fit_start (adj_align l) r" "node_size node = snd r" "free_list self' rs'" by auto
    from ll_alloc_found [OF free ap ok hi acc sa ff this] show ?thesis by auto
  qed
qed

section \<open>Invariant\<close>

lemma mset_map_remove1:
  "x \<in> set xs \<Longrightarrow> mset (map f xs) = add_mset (f x) (mset (map f (remove1 x xs)))"
  by (induction xs) auto

lemma spec_alloc_SomeD:
  assumes "spec_alloc sz al rs = Some (rs', s)"
  obtains us r vs where "rs = us @ r # vs" and "suitable sz al r" and "s = fit_start al r"
    and "rs' = (if 0 < fit_excess sz al r then [(of_nat (s + sz), of_nat (fit_excess sz al r))] else []) @ us @ vs"
  using assms
  by (auto simp: spec_alloc_def Let_def split: option.splits if_splits dest!: first_fit_Some)

lemma split_region_ok:
  assumes r: "region_ok lo hi r" and hi: "hi < 2 ^ 63" and suit: "suitable sz al r" and al: "8 dvd al" "0 < al"
    and sz: "8 dvd sz" and x: "0 < fit_excess sz al r"
  defines "rest \<equiv> (of_nat (fit_start al r + sz), of_nat (fit_excess sz al r)) :: region"
  shows "region_ok lo hi rest" and "region_extent rest = (fit_start al r + sz, fit_excess sz al r)"
proof -
  note b = region_ok_bounds [OF r hi] and f = fit_start_bounds [OF suit al(2)]
  have u: "unat (of_nat (fit_start al r + sz) :: usize) = fit_start al r + sz"
    "unat (of_nat (fit_excess sz al r) :: usize) = fit_excess sz al r"
    by (subst unat_of_nat, rule mod_less, use b f in \<open>simp add: fit_excess_def\<close>)+
  then show e: "region_extent rest = (fit_start al r + sz, fit_excess sz al r)"
    by (simp add: rest_def region_extent_def)
  have "8 dvd fit_start al r + sz" using f(3) al(1) sz by (meson dvd_add dvd_trans)
  moreover have "16 \<le> fit_excess sz al r" using suit x by (simp add: suitable_def)
  moreover have "within lo hi (region_extent rest)"
    using r f e x by (auto simp: region_ok_def within_def region_extent_def fit_excess_def)
  ultimately show "region_ok lo hi rest" using u e by (simp add: region_ok_def rest_def)
qed

text \<open>Whatever lies inside the chosen region keeps clear of the other regions and the live blocks.\<close>

lemma inside_region_apart:
  assumes wf: "ll_wf lo hi (us @ r # vs) live"
  shows "all_apart (map region_extent (us @ vs) @ map adj_extent live)"
    and "e \<in> set (map region_extent (us @ vs) @ map adj_extent live) \<Longrightarrow>
      unat (fst r) \<le> fst d \<Longrightarrow> fst d + snd d \<le> unat (fst r) + unat (snd r) \<Longrightarrow> apart d e"
proof -
  have "mset (map region_extent (us @ r # vs) @ map adj_extent live) =
        mset (region_extent r # map region_extent (us @ vs) @ map adj_extent live)" by simp
  then have A: "all_apart (region_extent r # map region_extent (us @ vs) @ map adj_extent live)"
    using wf unfolding ll_wf_def by (metis all_apart_perm)
  then show "all_apart (map region_extent (us @ vs) @ map adj_extent live)" by simp
  assume e: "e \<in> set (map region_extent (us @ vs) @ map adj_extent live)"
    and d: "unat (fst r) \<le> fst d" "fst d + snd d \<le> unat (fst r) + unat (snd r)"
  have "apart (region_extent r) e" using A e unfolding all_apart_Cons by blast
  then show "apart d e" by (rule apart_shrink) (use d in \<open>simp_all add: region_extent_def\<close>)
qed

lemma ll_wf_replace:
  assumes "all_apart (map region_extent new @ adj_extent b # map region_extent (us @ vs) @ map adj_extent live)"
    and "ll_wf lo hi (us @ r # vs) live" and "list_all (region_ok lo hi) new" and "ll_live lo hi b"
  shows "ll_wf lo hi (new @ us @ vs) (b # live)"
proof -
  have "mset (map region_extent (new @ us @ vs) @ map adj_extent (b # live)) =
        mset (map region_extent new @ adj_extent b # map region_extent (us @ vs) @ map adj_extent live)" by simp
  then have "all_apart (map region_extent (new @ us @ vs) @ map adj_extent (b # live))"
    using assms(1) by (metis all_apart_perm)
  then show ?thesis using assms(2-4) by (simp add: ll_wf_def)
qed

lemma ll_wf_alloc:
  assumes wf: "ll_wf lo hi rs live" and acc: "ll_accepts l"
    and sa: "spec_alloc (adj_size l) (adj_align l) rs = Some (rs', unat p)"
  shows "ll_wf lo hi rs' ((p, l) # live)" and "p \<noteq> 0"
proof -
  let ?al = "adj_align l" and ?sz = "adj_size l"
  obtain us r vs where rs: "rs = us @ r # vs" and suit: "suitable ?sz ?al r" and p: "unat p = fit_start ?al r"
    and rs': "rs' = (if 0 < fit_excess ?sz ?al r
                then [(of_nat (unat p + ?sz), of_nat (fit_excess ?sz ?al r))] else []) @ us @ vs"
    using sa by (rule spec_alloc_SomeD)
  have hi: "hi < 2 ^ 63" and rok: "region_ok lo hi r" using wf rs by (simp_all add: ll_wf_def)
  note al = adj_align_facts [OF acc] and sz = adj_size_facts [OF acc]
  note f = fit_start_bounds [OF suit al(1)] and inside = inside_region_apart [OF wf [unfolded rs]]
  show "p \<noteq> 0" using rok wf f(1) p by (auto simp: region_ok_def within_def region_extent_def ll_wf_def)
  have "apart (adj_extent (p, l)) e" if "e \<in> set (map region_extent (us @ vs) @ map adj_extent live)" for e
    using that p f by (intro inside(2)) (simp_all add: adj_extent_def)
  then have blk: "all_apart (adj_extent (p, l) # map region_extent (us @ vs) @ map adj_extent live)"
    unfolding all_apart_Cons using inside(1) by blast
  have live: "ll_live lo hi (p, l)"
    using acc rok p f by (auto simp: ll_live_def adj_extent_def region_ok_def within_def region_extent_def)
  show "ll_wf lo hi rs' ((p, l) # live)"
  proof (cases "0 < fit_excess ?sz ?al r")
    case False
    then show ?thesis using ll_wf_replace [of "[]", OF _ wf [unfolded rs] _ live] blk rs' by simp
  next
    case True
    define rest :: region where "rest = (of_nat (unat p + ?sz), of_nat (fit_excess ?sz ?al r))"
    note sr = split_region_ok [OF rok hi suit al(2,1) sz(3) True, folded p, folded rest_def]
    have "apart (region_extent rest) e" if "e \<in> set (map region_extent (us @ vs) @ map adj_extent live)" for e
      using that sr p f by (intro inside(2)) (simp_all add: fit_excess_def)
    moreover have "apart (region_extent rest) (adj_extent (p, l))"
      using sr(2) p by (simp add: apart_def adj_extent_def)
    ultimately have "all_apart (map region_extent [rest] @ adj_extent (p, l) # map region_extent (us @ vs) @ map adj_extent live)"
      using blk unfolding map_append list.map append.simps all_apart_Cons [of "region_extent rest"] by auto
    then show ?thesis using ll_wf_replace [of "[rest]", OF _ wf [unfolded rs] _ live] sr(1) True rs' by (simp add: rest_def)
  qed
qed

lemma ll_wf_apart: "ll_wf lo hi rs live \<Longrightarrow> all_apart (map region_extent rs)"
  by (simp add: ll_wf_def all_apart_append)

lemma ll_alloc_list:
  assumes free: "\<not> held m" and fl: "free_list (inner m) rs" and wf: "ll_wf lo hi rs live" and acc: "ll_accepts l"
  shows "\<exists>m' p. ll_alloc m l = Inr (m', p) \<and>
           (if p = 0 then m' = m \<and> spec_alloc (adj_size l) (adj_align l) rs = None
            else \<not> held m' \<and> (\<exists>rs'. spec_alloc (adj_size l) (adj_align l) rs = Some (rs', unat p) \<and>
                   free_list (inner m') rs' \<and> ll_wf lo hi rs' ((p, l) # live)))"
proof -
  have ok: "list_all (region_ok lo hi) rs" and hi: "hi < 2 ^ 63" using wf by (simp_all add: ll_wf_def)
  note ref = ll_alloc_refines_aux [OF free fl ll_wf_apart [OF wf] ok hi acc]
  show ?thesis
  proof (cases "spec_alloc (adj_size l) (adj_align l) rs")
    case None
    with ref show ?thesis by simp
  next
    case (Some q)
    obtain rs' s where q: "q = (rs', s)" by (cases q)
    with ref Some obtain m' p where a: "ll_alloc m l = Inr (m', p)" "unat p = s" "\<not> held m'"
      "free_list (inner m') rs'"
      by auto
    have sa: "spec_alloc (adj_size l) (adj_align l) rs = Some (rs', unat p)" using Some q a(2) by simp
    from ll_wf_alloc [OF wf acc sa] sa a show ?thesis by auto
  qed
qed

lemma ll_alloc_inv:
  assumes inv: "ll_inv lo hi m live" and acc: "ll_accepts l"
  shows "\<exists>m' p. ll_alloc m l = Inr (m', p) \<and>
           (if p = 0 then m' = m else ll_inv lo hi m' ((p, l) # live))"
proof -
  from inv obtain rs where "\<not> held m" "free_list (inner m) rs" "ll_wf lo hi rs live"
    by (auto simp: ll_inv_def)
  from ll_alloc_list [OF this acc] show ?thesis by (fastforce simp: ll_inv_def split: if_splits)
qed

lemma ll_dealloc_list:
  assumes free: "\<not> held m" and fl: "free_list (inner m) rs" and wf: "ll_wf lo hi rs live"
    and mem: "(p, l) \<in> set live"
  shows "\<exists>m' sz. ll_dealloc m p l = Inr m' \<and> unat sz = adj_size l \<and> \<not> held m' \<and>
           free_list (inner m') ((p, sz) # rs) \<and> ll_wf lo hi ((p, sz) # rs) (remove1 (p, l) live)"
proof -
  have live: "ll_live lo hi (p, l)" using wf mem by (simp add: ll_wf_def list_all_iff)
  then have acc: "ll_accepts l" by (simp add: ll_live_def)
  obtain sz al where sa: "size_align l = Inr (sz, al)" and usz: "unat sz = adj_size l"
    using size_align_ok [OF acc] by blast
  have ext: "region_extent (p, sz) = adj_extent (p, l)" using usz by (simp add: region_extent_def adj_extent_def)
  have al8: "8 dvd unat p" using live adj_align_facts(2) [OF acc] by (auto simp: ll_live_def intro: dvd_trans)
  have sz16: "16 \<le> unat sz" using usz adj_size_facts(2) [OF acc] by simp
  have m: "mset (map region_extent rs @ map adj_extent live) =
        mset (map region_extent ((p, sz) # rs) @ map adj_extent (remove1 (p, l) live))"
    using mset_map_remove1 [OF mem, of adj_extent] ext by simp
  then have ap: "all_apart (map region_extent ((p, sz) # rs) @ map adj_extent (remove1 (p, l) live))"
    using wf unfolding ll_wf_def by (metis all_apart_perm)
  have rok: "region_ok lo hi (p, sz)"
    using live ext al8 sz16 by (simp add: region_ok_def ll_live_def)
  have "list_all (ll_live lo hi) (remove1 (p, l) live)"
    using wf by (auto simp: ll_wf_def list_all_iff dest: notin_set_remove1)
  then have wf': "ll_wf lo hi ((p, sz) # rs) (remove1 (p, l) live)"
    using wf ap rok by (simp add: ll_wf_def)
  have "distinct (map fst ((p, sz) # rs))"
    by (rule apart_distinct_addr [OF ll_wf_apart [OF wf'], of lo hi]) (use wf' in \<open>simp add: ll_wf_def\<close>)
  moreover have "unat p < 2 ^ 63" using region_ok_bounds(2) [OF rok] wf by (simp add: ll_wf_def)
  ultimately obtain self' where "add_free_region (inner m) p sz = Inr self'" "free_list self' ((p, sz) # rs)"
    using add_free_region_ok [OF fl al8 sz16] by auto
  then show ?thesis using wf' sa free usz by (auto simp: ll_dealloc_def)
qed

lemma ll_dealloc_inv:
  assumes inv: "ll_inv lo hi m live" and mem: "(p, l) \<in> set live"
  shows "\<exists>m'. ll_dealloc m p l = Inr m' \<and> ll_inv lo hi m' (remove1 (p, l) live)"
proof -
  from inv obtain rs where "\<not> held m" "free_list (inner m) rs" "ll_wf lo hi rs live"
    by (auto simp: ll_inv_def)
  from ll_dealloc_list [OF this mem] show ?thesis by (auto simp: ll_inv_def)
qed

lemma ll_inv_live_ok: "ll_inv lo hi m live \<Longrightarrow> live_ok lo hi live"
proof -
  assume "ll_inv lo hi m live"
  then obtain rs where wf: "ll_wf lo hi rs live" by (auto simp: ll_inv_def)
  have "all_apart (map adj_extent live)" using wf by (simp add: ll_wf_def all_apart_append)
  then have "all_apart (map extent live)"
    by (rule all_apart_mono)
       (use wf in \<open>auto simp: adj_extent_def extent_def ll_wf_def list_all_iff ll_live_def
           intro!: adj_size_facts(1)\<close>)
  moreover have "within lo hi (extent b) \<and> block_aligned b" if "b \<in> set live" for b
  proof -
    have b: "ll_live lo hi b" using wf that by (simp add: ll_wf_def list_all_iff)
    then have acc: "ll_accepts (snd b)" by (simp add: ll_live_def)
    have "within lo hi (extent b)"
      using b adj_size_facts(1) [OF acc] by (auto simp: ll_live_def within_def adj_extent_def extent_def)
    moreover have "block_aligned b"
      using b adj_align_facts(3) [OF acc] by (auto simp: ll_live_def block_aligned_def intro: dvd_trans)
    ultimately show ?thesis by simp
  qed
  ultimately show ?thesis by (simp add: live_ok_def list_all_iff)
qed

lemma ll_touches_list:
  assumes fl: "free_list (inner m) rs" and wf: "ll_wf lo hi rs live"
    and A: "A \<subseteq> live_bytes live" and t: "ll_touches A m m'"
  shows "held m' = held m" and "free_list (inner m') rs"
proof -
  from t obtain mem' where m': "m' = m\<lparr>inner := (inner m)\<lparr>ll_mem := mem'\<rparr>\<rparr>"
    and same: "\<And>a. bytes (unat a, 16) \<inter> A = {} \<Longrightarrow> mem' a = ll_mem (inner m) a"
    by (auto simp: ll_touches_def)
  have "mem' (fst r) = ll_mem (inner m) (fst r)" if r: "r \<in> set rs" for r
  proof (rule same)
    have "16 \<le> unat (snd r)" using wf r by (auto simp: ll_wf_def list_all_iff region_ok_def)
    moreover have "bytes (region_extent r) \<inter> bytes (adj_extent b) = {}" if "b \<in> set live" for b
      using wf r that by (intro apart_disjoint) (auto simp: ll_wf_def all_apart_append)
    moreover have "bytes (extent b) \<subseteq> bytes (adj_extent b)" if "b \<in> set live" for b
    proof -
      have "ll_accepts (snd b)" using wf that by (simp add: ll_wf_def list_all_iff ll_live_def)
      then show ?thesis using adj_size_facts(1) by (auto simp: bytes_def extent_def adj_extent_def intro: less_le_trans)
    qed
    ultimately show "bytes (unat (fst r), 16) \<inter> A = {}"
      using A by (fastforce simp: live_bytes_def bytes_def region_extent_def)
  qed
  then have "chain mem' h rs \<longleftrightarrow> chain (ll_mem (inner m)) h rs" for h
    by (intro chain_cong) auto
  then show "held m' = held m" and "free_list (inner m') rs" using fl m' by (simp_all add: free_list_def)
qed

lemma ll_touches_inv:
  assumes "ll_inv lo hi m live" and "A \<subseteq> live_bytes live" and "ll_touches A m m'"
  shows "ll_inv lo hi m' live"
proof -
  from assms(1) obtain rs where "\<not> held m" and fl: "free_list (inner m) rs" "ll_wf lo hi rs live"
    by (auto simp: ll_inv_def)
  then show ?thesis using ll_touches_list [OF fl assms(2,3)] by (auto simp: ll_inv_def)
qed

lemma ll_inv_init:
  assumes "8 dvd unat start" and "16 \<le> unat sz" and "0 < unat start" and "unat start + unat sz < 2 ^ 63"
  shows "\<exists>s. ll_init (ll_new mem) start sz = Inr s \<and>
           ll_inv (unat start) (unat start + unat sz) (locked_new s) []"
proof -
  have "free_list (ll_new mem) []" by (simp add: free_list_def ll_new_def list_node_new_def)
  from add_free_region_ok [OF this assms(1,2)] assms(4) obtain s where
    s: "ll_init (ll_new mem) start sz = Inr s" "free_list s [(start, sz)]"
    by (auto simp: ll_init_def)
  moreover have "ll_wf (unat start) (unat start + unat sz) [(start, sz)] []"
    using assms by (simp add: ll_wf_def region_ok_def within_def region_extent_def)
  ultimately show ?thesis by (auto simp: ll_inv_def)
qed

section \<open>The allocator contract\<close>

interpretation ll: global_allocator ll_alloc ll_dealloc ll_accepts ll_touches ll_inv
proof
  show "valid_layout l" if "ll_accepts l" for l
    using that by (simp add: ll_accepts_def)
  show "live_ok lo hi live" if "ll_inv lo hi s live" for lo hi s live
    using that by (rule ll_inv_live_ok)
  show "\<exists>s' p. ll_alloc s l = Inr (s', p)" if "ll_inv lo hi s live" "ll_accepts l" for lo hi s live l
    using ll_alloc_inv [OF that] by blast
  show "ll_inv lo hi s' live"
    if "ll_inv lo hi s live" "ll_accepts l" "ll_alloc s l = Inr (s', 0)" for lo hi s live l s'
    using ll_alloc_inv [OF that(1,2)] that by auto
  show "ll_inv lo hi s' ((p, l) # live)"
    if "ll_inv lo hi s live" "ll_accepts l" "ll_alloc s l = Inr (s', p)" "p \<noteq> 0" for lo hi s live l s' p
    using ll_alloc_inv [OF that(1,2)] that by auto
  show "\<exists>s'. ll_dealloc s p l = Inr s' \<and> ll_inv lo hi s' (remove1 (p, l) live)"
    if "ll_inv lo hi s live" "(p, l) \<in> set live" for lo hi s live p l
    using that by (rule ll_dealloc_inv)
  show "ll_inv lo hi s' live"
    if "ll_inv lo hi s live" "A \<subseteq> live_bytes live" "ll_touches A s s'" for lo hi s live A s'
    using that by (rule ll_touches_inv)
qed

section \<open>Properties\<close>

text \<open>C1 (ll_safe): for a heap whose start is aligned and above 0, that can hold a node and ends
  below the middle of the address space, after any sequence of allocations, frees and
  client writes into live blocks the live blocks lie inside the heap, are aligned and do
  not overlap, and no allocation or free of a live block panics, diverges or follows a
  dangling node.\<close>

theorem ll_safe:
  assumes "8 dvd unat start" and "16 \<le> unat sz" and "0 < unat start" and "unat start + unat sz < 2 ^ 63"
    and "ll_init (ll_new mem) start sz = Inr s"
    and "heap_trace ll_alloc ll_dealloc ll_accepts ll_touches (locked_new s) [] m live"
  shows "live_ok (unat start) (unat start + unat sz) live \<and>
         (\<forall>l. ll_accepts l \<longrightarrow> (\<exists>m' p. ll_alloc m l = Inr (m', p))) \<and>
         (\<forall>p l. (p, l) \<in> set live \<longrightarrow> (\<exists>m'. ll_dealloc m p l = Inr m'))"
proof -
  have "ll_inv (unat start) (unat start + unat sz) (locked_new s) []"
    using ll_inv_init [OF assms(1-4), of mem] assms(5) by auto
  from ll.trace_safe [OF this assms(6)] show ?thesis by blast
qed

text \<open>A small heap that is not page aligned, for the witnesses.\<close>

definition ll_demo_heap :: linked_list_allocator where
  "ll_demo_heap = \<lparr>ll_head = \<lparr>node_size = 0, node_next = Some 4104\<rparr>,
     ll_mem = [4104 \<mapsto> \<lparr>node_size = 8192, node_next = None\<rparr>]\<rparr>"

lemma ll_demo_init: "ll_init (ll_new Map.empty) 4104 8192 = Inr ll_demo_heap"
  by (simp add: ll_init_def ll_new_def add_free_region_def align_up_def add_chk_def sub_chk_def
      NODE_ALIGN_def NODE_SIZE_def list_node_new_def ll_demo_heap_def)

lemma ll_demo_accepts:
  "ll_accepts \<lparr>l_size = 20, l_align = 64\<rparr>" "ll_accepts \<lparr>l_size = 200, l_align = 64\<rparr>"
proof -
  have p: "is_power_of_two 64" unfolding is_power_of_two_iff by (rule exI [of _ 6]) simp
  show "ll_accepts \<lparr>l_size = 20, l_align = 64\<rparr>" "ll_accepts \<lparr>l_size = 200, l_align = 64\<rparr>"
    using p by (simp_all add: ll_accepts_def valid_layout_iff align_to_def from_size_align_def NODE_ALIGN_def max_def)
qed

lemma ll_demo_inv: "ll_inv 4104 12296 (locked_new ll_demo_heap) []"
  using ll_inv_init [of 4104 8192 Map.empty] ll_demo_init by simp

lemma ll_demo_free: "free_list ll_demo_heap [(4104, 8192)]"
  by (simp add: free_list_def ll_demo_heap_def)

lemma ll_demo_sizes:
  "adj_align \<lparr>l_size = 20, l_align = 64\<rparr> = 64" "adj_size \<lparr>l_size = 20, l_align = 64\<rparr> = 64"
  by (simp_all add: adj_align_def adj_size_def round_up_def)

lemma ll_demo_spec: "spec_alloc 64 64 [(4104, 8192)] = Some ([(4224, 8072)], 4160)"
  by (simp add: spec_alloc_def suitable_def fit_start_def fit_excess_def round_up_def Let_def)

text \<open>C9 (ll_alloc_refines_first_fit): the pointer walk of an allocation computes first fit on the
  list of free regions: with no suitable region it returns null and leaves the list alone;
  otherwise it takes the first suitable region, returns its first aligned address and puts
  what is left behind the block at the front of the list.\<close>

theorem ll_alloc_refines_first_fit:
  assumes "\<not> held m" and "free_list (inner m) rs" and "ll_wf lo hi rs live" and "ll_accepts l"
  shows "case spec_alloc (adj_size l) (adj_align l) rs of
           None \<Rightarrow> ll_alloc m l = Inr (m, 0)
         | Some (rs', s) \<Rightarrow>
             \<exists>m' p. ll_alloc m l = Inr (m', p) \<and> unat p = s \<and> \<not> held m' \<and> free_list (inner m') rs'"
proof (rule ll_alloc_refines_aux [OF assms(1,2) ll_wf_apart [OF assms(3)] _ _ assms(4)])
  show "list_all (region_ok lo hi) rs" and "hi < 2 ^ 63" using assms(3) by (simp_all add: ll_wf_def)
qed

lemma ll_demo_wf: "ll_wf 4104 12296 [(4104, 8192)] []"
  by (simp add: ll_wf_def region_ok_def within_def region_extent_def)

theorem ll_alloc_refines_first_fit_witness:
  "\<exists>m' p. ll_alloc (locked_new ll_demo_heap) \<lparr>l_size = 20, l_align = 64\<rparr> = Inr (m', p) \<and>
     unat p = 4160 \<and> free_list (inner m') [(4224, 8072)]"
  using ll_alloc_refines_first_fit [of "locked_new ll_demo_heap" "[(4104, 8192)]", OF _ _ ll_demo_wf ll_demo_accepts(1)]
    ll_demo_free by (auto simp: ll_demo_sizes ll_demo_spec)

lemma ll_demo_alloc:
  "\<exists>m p. ll_alloc (locked_new ll_demo_heap) \<lparr>l_size = 20, l_align = 64\<rparr> = Inr (m, p) \<and> unat p = 4160 \<and> p \<noteq> 0"
  using ll_alloc_refines_aux [of "locked_new ll_demo_heap" "[(4104, 8192)]" 4104 12296, OF _ _ _ _ _ ll_demo_accepts(1)]
    ll_demo_free ll_demo_wf by (auto simp: ll_demo_sizes ll_demo_spec ll_wf_def)

theorem ll_safe_witness:
  "\<exists>m p. ll_alloc (locked_new ll_demo_heap) \<lparr>l_size = 20, l_align = 64\<rparr> = Inr (m, p) \<and>
     p \<noteq> 0 \<and> live_ok 4104 12296 [(p, \<lparr>l_size = 20, l_align = 64\<rparr>)]"
proof -
  obtain m p where a: "ll_alloc (locked_new ll_demo_heap) \<lparr>l_size = 20, l_align = 64\<rparr> = Inr (m, p)"
    and p0: "p \<noteq> 0" using ll_demo_alloc by blast
  have "heap_trace ll_alloc ll_dealloc ll_accepts ll_touches (locked_new ll_demo_heap) [] m
          [(p, \<lparr>l_size = 20, l_align = 64\<rparr>)]"
    using ll_demo_accepts(1) a p0 by (rule trace_first_alloc)
  from ll_safe [OF _ _ _ _ ll_demo_init this] a p0 show ?thesis by auto
qed

definition free_bytes :: "region list \<Rightarrow> nat" where
  "free_bytes rs = sum_list (map (\<lambda>r. unat (snd r)) rs)"

lemma free_bytes_simps [simp]:
  "free_bytes [] = 0" "free_bytes (r # rs) = unat (snd r) + free_bytes rs"
  "free_bytes (rs @ ss) = free_bytes rs + free_bytes ss"
  by (simp_all add: free_bytes_def)

lemma spec_alloc_bytes:
  assumes wf: "ll_wf lo hi rs live" and acc: "ll_accepts l"
    and ff: "first_fit (adj_size l) (adj_align l) rs = Some (r, rs0)"
    and sa: "spec_alloc (adj_size l) (adj_align l) rs = Some (rs', s)"
  shows "s = fit_start (adj_align l) r \<and>
         free_bytes rs' + adj_size l + (s - unat (fst r)) = free_bytes rs"
proof -
  let ?al = "adj_align l" and ?sz = "adj_size l"
  from first_fit_Some [OF ff] obtain us vs where suit: "suitable ?sz ?al r"
    and rs: "rs = us @ r # vs" and rs0: "rs0 = us @ vs"
    by blast
  have hi: "hi < 2 ^ 63" and rok: "region_ok lo hi r" using wf rs by (simp_all add: ll_wf_def)
  note al = adj_align_facts [OF acc] and sz = adj_size_facts [OF acc]
  note f = fit_start_bounds [OF suit al(1)]
  have s: "s = fit_start ?al r"
    and rs': "rs' = (if 0 < fit_excess ?sz ?al r
                then (of_nat (s + ?sz), of_nat (fit_excess ?sz ?al r)) # rs0 else rs0)"
    using sa ff by (auto simp: spec_alloc_def Let_def)
  have "free_bytes rs' = fit_excess ?sz ?al r + free_bytes rs0"
  proof (cases "0 < fit_excess ?sz ?al r")
    case True
    from split_region_ok(2) [OF rok hi suit al(2,1) sz(3) True] True rs' s show ?thesis
      by (simp add: region_extent_def)
  next
    case False
    then show ?thesis using rs' by simp
  qed
  then show ?thesis using s rs rs0 f by (simp add: fit_excess_def)
qed

text \<open>C33 (ll_alloc_dealloc_bytes): allocating a block and freeing it again gives back all free bytes
  except the gap between the start of the chosen region and the aligned start of the
  block; that gap is lost for good.\<close>

theorem ll_alloc_dealloc_bytes:
  assumes "\<not> held m" and "free_list (inner m) rs" and "ll_wf lo hi rs live" and "ll_accepts l"
    and ff: "first_fit (adj_size l) (adj_align l) rs = Some (r, rs0)"
  shows "\<exists>m1 p m2 rs2. ll_alloc m l = Inr (m1, p) \<and> ll_dealloc m1 p l = Inr m2 \<and>
           free_list (inner m2) rs2 \<and> free_bytes rs2 + (unat p - unat (fst r)) = free_bytes rs"
proof -
  obtain rs' s where sa: "spec_alloc (adj_size l) (adj_align l) rs = Some (rs', s)"
    using ff by (auto simp: spec_alloc_def Let_def)
  have ok: "list_all (region_ok lo hi) rs" and hi: "hi < 2 ^ 63" using assms(3) by (simp_all add: ll_wf_def)
  from ll_alloc_refines_aux [OF assms(1,2) ll_wf_apart [OF assms(3)] ok hi assms(4)] sa
  obtain m1 p where a: "ll_alloc m l = Inr (m1, p)" "unat p = s" "\<not> held m1" "free_list (inner m1) rs'"
    by auto
  have wf1: "ll_wf lo hi rs' ((p, l) # live)"
    by (rule ll_wf_alloc(1) [OF assms(3,4)]) (use sa a(2) in simp)
  from ll_dealloc_list [OF a(3,4) wf1, of p l] obtain m2 sz where d: "ll_dealloc m1 p l = Inr m2"
    "unat sz = adj_size l" "free_list (inner m2) ((p, sz) # rs')"
    by auto
  moreover have "free_bytes ((p, sz) # rs') + (unat p - unat (fst r)) = free_bytes rs"
    using spec_alloc_bytes [OF assms(3,4) ff sa] a(2) d(2) by (auto simp: algebra_simps)
  ultimately show ?thesis using a(1) by blast
qed

theorem ll_alloc_dealloc_bytes_witness:
  "\<exists>m1 p m2 rs2. ll_alloc (locked_new ll_demo_heap) \<lparr>l_size = 20, l_align = 64\<rparr> = Inr (m1, p) \<and>
     ll_dealloc m1 p \<lparr>l_size = 20, l_align = 64\<rparr> = Inr m2 \<and>
     free_list (inner m2) rs2 \<and> free_bytes rs2 + (unat p - 4104) = 8192"
proof -
  have "first_fit 64 64 [(4104, 8192)] = Some ((4104, 8192), [])"
    by (simp add: suitable_def fit_start_def fit_excess_def round_up_def)
  with ll_alloc_dealloc_bytes [of "locked_new ll_demo_heap" "[(4104, 8192)]", OF _ _ ll_demo_wf ll_demo_accepts(1)]
    ll_demo_free show ?thesis by (simp add: ll_demo_sizes)
qed

section \<open>Termination of the search\<close>

lemma find_region_loop_returns:
  "free_list self (pre @ suf) \<Longrightarrow> \<exists>r. find_region_loop self (cursor_of pre) sz align = Some r"
proof (induction suf arbitrary: pre)
  case Nil
  then show ?case using cursor_next_of [OF Nil] by (simp add: find_region_loop.simps)
next
  case (Cons r suf)
  from cursor_next_of [OF Cons.prems] obtain region where
    n: "cursor_next self (cursor_of pre) = Inr (Some (fst r))" "ll_mem self (fst r) = Some region" by auto
  have "free_list self ((pre @ [r]) @ suf)" using Cons.prems by simp
  from Cons.IH [OF this] obtain x where x: "find_region_loop self (AtNode (fst r)) sz align = Some x"
    by (auto simp: cursor_of_def)
  show ?case
    using n x by (subst find_region_loop.simps) (auto split: sum.splits option.splits)
qed

text \<open>
  C25 (find_region_terminates): the search loop ends on every finite free list, whatever the sizes and
  alignments in it and whatever is asked for, even where the arithmetic panics.
\<close>

theorem find_region_terminates:
  assumes "free_list self rs"
  shows "\<exists>r. find_region_loop self AtHead sz align = Some r"
  using find_region_loop_returns [of self "[]" rs] assms by (simp add: cursor_of_def)

lemma find_region_loop_cycle:
  assumes "find_region_loop self current sz align = Some r"
  shows "node_next (ll_head self) = Some a \<longrightarrow> ll_mem self a = Some region \<longrightarrow> node_next region = Some a \<longrightarrow>
    alloc_from_region a region sz align = Inr None \<longrightarrow> current \<notin> {AtHead, AtNode a}"
proof (rule find_region_loop.raw_induct [OF _ assms])
  fix f self current sz align r
  assume ih: "\<And>self current sz align r. f self current sz align = Some r \<Longrightarrow>
      node_next (ll_head self) = Some a \<longrightarrow> ll_mem self a = Some region \<longrightarrow> node_next region = Some a \<longrightarrow>
      alloc_from_region a region sz align = Inr None \<longrightarrow> current \<notin> {AtHead, AtNode a}"
    and eq: "(case cursor_next self current of
        Inl e \<Rightarrow> Some (Inl e)
      | Inr None \<Rightarrow> Some (Inr (self, None))
      | Inr (Some addr) \<Rightarrow>
          (case ll_mem self addr of
             None \<Rightarrow> Some (Inl InvalidAccess)
           | Some region \<Rightarrow>
               (case alloc_from_region addr region sz align of
                  Inl e \<Rightarrow> Some (Inl e)
                | Inr (Some alloc_start) \<Rightarrow>
                    Some (and_then (unlink_region self current addr region) (\<lambda>self'.
                      Inr (self', Some (addr, region\<lparr>node_next := None\<rparr>, alloc_start))))
                | Inr None \<Rightarrow> f self (AtNode addr) sz align))) = Some r"
  show "node_next (ll_head self) = Some a \<longrightarrow> ll_mem self a = Some region \<longrightarrow> node_next region = Some a \<longrightarrow>
      alloc_from_region a region sz align = Inr None \<longrightarrow> current \<notin> {AtHead, AtNode a}"
    using ih [of self "AtNode a" sz align r] eq by auto
qed

text \<open>
  C39 (double_free_hangs): freeing a live block twice links its node to itself. From then on a request that
  needs more room than the block has is neither served nor refused: the search walks round that node for
  ever, even if there are larger free regions behind it.
\<close>

theorem double_free_hangs:
  assumes "ll_inv lo hi m live" and "(p, l) \<in> set live" and "ll_accepts l'" and "adj_size l < adj_size l'"
  shows "\<exists>m1 m2 node. ll_dealloc m p l = Inr m1 \<and> ll_dealloc m1 p l = Inr m2 \<and>
    ll_mem (inner m2) p = Some node \<and> node_next node = Some p \<and> ll_alloc m2 l' = Inl Diverges"
proof -
  have hi: "hi < 2 ^ 63" and nh: "\<not> held m" and lv: "ll_live lo hi (p, l)"
    using assms(1,2) by (auto simp: ll_inv_def ll_wf_def list_all_iff)
  have acc: "ll_accepts l" using lv by (simp add: ll_live_def)
  obtain sz al where s: "size_align l = Inr (sz, al)" "unat sz = adj_size l" using size_align_ok [OF acc] by blast
  obtain sz' al' where s': "size_align l' = Inr (sz', al')" "unat sz' = adj_size l'" "is_power_of_two al'"
    using size_align_ok [OF assms(3)] by blast
  have p8: "8 dvd unat p" using lv adj_align_facts(2) [OF acc] by (auto simp: ll_live_def intro: dvd_trans)
  have rok: "region_ok lo hi (p, sz)"
    using lv p8 s(2) adj_size_facts(2) [OF acc] by (simp add: region_ok_def ll_live_def region_extent_def adj_extent_def)
  note add = add_free_region_eq [OF p8 region_ok_bounds(2) [OF rok hi, unfolded fst_conv], of sz]
  let ?h = "ll_head (inner m)" and ?n = "\<lambda>nx. (list_node_new sz)\<lparr>node_next := nx\<rparr>"
  let ?a1 = "(inner m)\<lparr>ll_head := ?h\<lparr>node_next := Some p\<rparr>, ll_mem := (ll_mem (inner m))(p \<mapsto> ?n (node_next ?h))\<rparr>"
  let ?a2 = "?a1\<lparr>ll_mem := (ll_mem ?a1)(p \<mapsto> ?n (Some p))\<rparr>"
  have d: "ll_dealloc m p l = Inr (m\<lparr>inner := ?a1\<rparr>)" "ll_dealloc (m\<lparr>inner := ?a1\<rparr>) p l = Inr (m\<lparr>inner := ?a2\<rparr>)"
    using s nh adj_size_facts(2) [OF acc] by (simp_all add: ll_dealloc_def locked_lock_def mutex_lock_def add)
  have "\<not> suitable (unat sz') (unat al') (p, sz)"
    using assms(4) s(2) s'(2) round_up_ge [OF is_power_of_two_pos [OF s'(3)], of "unat p"]
    by (auto simp: suitable_def fit_start_def)
  then have "alloc_from_region p (?n (Some p)) sz' al' = Inr None"
    using alloc_from_region_ok [OF rok hi s'(3), of "?n (Some p)" sz'] by (simp add: list_node_new_def)
  then have "find_region_loop ?a2 AtHead sz' al' = None"
    using find_region_loop_cycle [of ?a2 AtHead sz' al' _ p "?n (Some p)"]
    by (cases "find_region_loop ?a2 AtHead sz' al'") simp_all
  then have "ll_alloc (m\<lparr>inner := ?a2\<rparr>) l' = Inl Diverges"
    using s'(1) nh by (simp add: ll_alloc_def locked_lock_def mutex_lock_def find_region_def)
  moreover have "ll_mem (inner (m\<lparr>inner := ?a2\<rparr>)) p = Some (?n (Some p))" "node_next (?n (Some p)) = Some p" by simp_all
  ultimately show ?thesis using d by blast
qed

theorem find_region_terminates_witness: "\<exists>r. find_region_loop ll_demo_heap AtHead 64 3 = Some r"
  using find_region_terminates [OF ll_demo_free] by blast

theorem double_free_hangs_witness:
  "\<exists>m p m1 m2. ll_alloc (locked_new ll_demo_heap) \<lparr>l_size = 20, l_align = 64\<rparr> = Inr (m, p) \<and>
     ll_dealloc m p \<lparr>l_size = 20, l_align = 64\<rparr> = Inr m1 \<and> ll_dealloc m1 p \<lparr>l_size = 20, l_align = 64\<rparr> = Inr m2 \<and>
     ll_alloc m2 \<lparr>l_size = 200, l_align = 64\<rparr> = Inl Diverges"
proof -
  obtain m p where a: "ll_alloc (locked_new ll_demo_heap) \<lparr>l_size = 20, l_align = 64\<rparr> = Inr (m, p)" "p \<noteq> 0"
    using ll_demo_alloc by blast
  then have inv: "ll_inv 4104 12296 m [(p, \<lparr>l_size = 20, l_align = 64\<rparr>)]"
    using ll_alloc_inv [OF ll_demo_inv ll_demo_accepts(1)] by auto
  have "adj_size \<lparr>l_size = 20, l_align = 64\<rparr> < adj_size \<lparr>l_size = 200, l_align = 64\<rparr>"
    by (simp add: adj_align_def adj_size_def round_up_def)
  then show ?thesis using double_free_hangs [OF inv _ ll_demo_accepts(2)] a(1) by auto
qed

text \<open>C32 (ll_realloc_same): a block that was just freed is the first candidate of the next search:
  allocating with the layout it was freed with returns the same address and leaves the rest of
  the free list as it was before the free.\<close>

theorem ll_realloc_same:
  assumes "\<not> held m" and "free_list (inner m) rs" and "ll_wf lo hi rs live" and "(p, l) \<in> set live"
  shows "\<exists>m1 m2. ll_dealloc m p l = Inr m1 \<and> ll_alloc m1 l = Inr (m2, p) \<and> free_list (inner m2) rs"
proof -
  have live: "ll_live lo hi (p, l)" using assms(3,4) by (simp add: ll_wf_def list_all_iff)
  then have acc: "ll_accepts l" and al: "adj_align l dvd unat p" by (simp_all add: ll_live_def)
  from ll_dealloc_list [OF assms] obtain m1 sz where d: "ll_dealloc m p l = Inr m1" "unat sz = adj_size l"
    "\<not> held m1" "free_list (inner m1) ((p, sz) # rs)" "ll_wf lo hi ((p, sz) # rs) (remove1 (p, l) live)"
    by blast
  have "fit_start (adj_align l) (p, sz) = unat p"
    using al adj_align_facts(1) [OF acc] by (simp add: fit_start_def round_up_id)
  then have sa: "spec_alloc (adj_size l) (adj_align l) ((p, sz) # rs) = Some (rs, unat p)"
    using d(2) by (simp add: spec_alloc_def suitable_def fit_excess_def)
  have ok: "list_all (region_ok lo hi) ((p, sz) # rs)" and hi: "hi < 2 ^ 63"
    using d(5) by (simp_all add: ll_wf_def)
  from ll_alloc_refines_aux [OF d(3,4) ll_wf_apart [OF d(5)] ok hi acc] sa
  obtain m2 q where "ll_alloc m1 l = Inr (m2, q)" "unat q = unat p" "free_list (inner m2) rs"
    by auto
  with d(1) show ?thesis by (auto simp: word_unat_eq_iff [symmetric])
qed

theorem ll_realloc_same_witness:
  "\<exists>m p m1 m2. ll_alloc (locked_new ll_demo_heap) \<lparr>l_size = 20, l_align = 64\<rparr> = Inr (m, p) \<and>
     ll_dealloc m p \<lparr>l_size = 20, l_align = 64\<rparr> = Inr m1 \<and>
     ll_alloc m1 \<lparr>l_size = 20, l_align = 64\<rparr> = Inr (m2, p)"
proof -
  obtain m p where a: "ll_alloc (locked_new ll_demo_heap) \<lparr>l_size = 20, l_align = 64\<rparr> = Inr (m, p)"
    "unat p = 4160" "\<not> held m" "free_list (inner m) [(4224, 8072)]"
    using ll_alloc_refines_aux [of "locked_new ll_demo_heap" "[(4104, 8192)]" 4104 12296, OF _ _ _ _ _ ll_demo_accepts(1)]
      ll_demo_free ll_demo_wf by (auto simp: ll_demo_sizes ll_demo_spec ll_wf_def)
  have "ll_wf 4104 12296 [(4224, 8072)] [(p, \<lparr>l_size = 20, l_align = 64\<rparr>)]"
    by (rule ll_wf_alloc(1) [OF ll_demo_wf ll_demo_accepts(1)])
       (use a(2) in \<open>simp add: ll_demo_sizes ll_demo_spec\<close>)
  from ll_realloc_same [OF a(3,4) this, of p] a(1) show ?thesis by auto
qed

text \<open>C40 (ll_alloc_layout_panic): a valid layout whose size cannot be padded to the alignment of a
  node makes the allocation panic instead of returning null; all other valid layouts pass the
  layout adjustment.\<close>

theorem ll_alloc_layout_panic:
  assumes "valid_layout l"
  shows "if unat (l_size l) + (adj_align l - 1) \<le> 2 ^ 63 - 1
         then \<exists>sz al. size_align l = Inr (sz, al) \<and> unat sz = adj_size l \<and> unat al = adj_align l
         else ll_alloc m l = Inl (Panic (ExpectFailed ''adjusting alignment failed''))"
proof -
  have p: "is_power_of_two (max (l_align l) NODE_ALIGN)"
  proof -
    have "is_power_of_two NODE_ALIGN"
      unfolding is_power_of_two_iff NODE_ALIGN_def by (rule exI [of _ 3]) simp
    then show ?thesis using assms by (simp add: max_def valid_layout_iff)
  qed
  have m: "unat (max (l_align l) NODE_ALIGN) = adj_align l"
    by (simp add: unat_max adj_align_def NODE_ALIGN_def)
  show ?thesis
  proof (cases "unat (l_size l) + (adj_align l - 1) \<le> 2 ^ 63 - 1")
    case True
    define l' where "l' = \<lparr>l_size = l_size l, l_align = max (l_align l) NODE_ALIGN\<rparr>"
    have "align_to l NODE_ALIGN = Some l'" "valid_layout l'"
      using True p m by (simp_all add: align_to_def from_size_align_def l'_def valid_layout_iff)
    then have "\<exists>sz al. size_align l = Inr (sz, al) \<and> unat sz = adj_size l \<and> unat al = adj_align l"
      using m pad_to_align_size [of l']
      by (simp add: size_align_def Let_def adj_size_def unat_max NODE_SIZE_def l'_def)
    with True show ?thesis by simp
  next
    case False
    then have "align_to l NODE_ALIGN = None" using m by (simp add: align_to_def from_size_align_def)
    with False show ?thesis by (simp add: ll_alloc_def size_align_def)
  qed
qed

theorem ll_alloc_layout_panic_witness:
  "ll_alloc (locked_new ll_demo_heap) \<lparr>l_size = 0x7FFFFFFFFFFFFFFF, l_align = 1\<rparr> =
     Inl (Panic (ExpectFailed ''adjusting alignment failed''))"
proof -
  have "is_power_of_two 1" unfolding is_power_of_two_iff by (rule exI [of _ 0]) simp
  then have "valid_layout \<lparr>l_size = 0x7FFFFFFFFFFFFFFF, l_align = 1\<rparr>"
    by (simp add: valid_layout_iff)
  from ll_alloc_layout_panic [OF this, of "locked_new ll_demo_heap"] show ?thesis
    by (simp add: adj_align_def)
qed

end
