(* ===== verification/Fragmentation.thy ===== *)
theory Fragmentation
  imports Linked_List_Allocator
begin

text \<open>
  The free list of \<^verbatim>\<open>allocator/linked_list.rs\<close> is never coalesced: \<^verbatim>\<open>add_free_region\<close> pushes a node for
  every freed block and nothing joins two nodes. This theory shows what that costs. Cut into pieces, the heap
  stays cut: a bound on the sizes of all free regions and live blocks is an invariant of every client trace,
  by a second interpretation of the contract \<open>global_allocator\<close> on the same operations.
\<close>

section \<open>Piece sizes\<close>

text \<open>All pieces of the heap, free and live, are smaller than \<open>n\<close> bytes.\<close>

definition pieces_below :: "nat \<Rightarrow> region list \<Rightarrow> block list \<Rightarrow> bool" where
  "pieces_below n rs live = (list_all (\<lambda>r. unat (snd r) < n) rs \<and> list_all (\<lambda>b. adj_size (snd b) < n) live)"

definition ll_cut :: "nat \<Rightarrow> nat \<Rightarrow> nat \<Rightarrow> linked_list_allocator mutex \<Rightarrow> block list \<Rightarrow> bool" where
  "ll_cut n lo hi m live =
     (\<not> held m \<and> (\<exists>rs. free_list (inner m) rs \<and> ll_wf lo hi rs live \<and> pieces_below n rs live))"

lemma chain_unique: "chain mem h rs \<Longrightarrow> chain mem h rs' \<Longrightarrow> rs = rs'"
proof (induction rs arbitrary: h rs')
  case Nil
  then show ?case by (cases rs') auto
next
  case (Cons r rs)
  then obtain r' rs'' where "rs' = r' # rs''" by (cases rs') auto
  with Cons show ?case by (auto simp: prod_eq_iff)
qed

lemma free_list_unique: "free_list self rs \<Longrightarrow> free_list self rs' \<Longrightarrow> rs = rs'"
  unfolding free_list_def by (rule chain_unique)

lemma ll_cutI:
  assumes "ll_inv lo hi m live" and "free_list (inner m) rs" and "pieces_below n rs live"
  shows "ll_cut n lo hi m live"
  using assms free_list_unique by (fastforce simp: ll_inv_def ll_cut_def)

lemma ll_cut_inv: "ll_cut n lo hi m live \<Longrightarrow> ll_inv lo hi m live"
  by (auto simp: ll_cut_def ll_inv_def)

text \<open>A region that can hold a block is at least as large as the block, and so is what it is cut into.\<close>

lemma suitable_le: "suitable sz al r \<Longrightarrow> 0 < al \<Longrightarrow> sz \<le> unat (snd r)"
  using fit_start_bounds [of sz al r] by (auto simp: suitable_def)

lemma spec_alloc_refuses:
  assumes "pieces_below n rs live" and "n \<le> sz" and "0 < al"
  shows "spec_alloc sz al rs = None"
proof -
  have "\<not> suitable sz al r" if "r \<in> set rs" for r
    using suitable_le [of sz al r] assms that by (auto simp: pieces_below_def list_all_iff)
  then have "first_fit sz al rs = None" by (simp add: first_fit_None list_all_iff)
  then show ?thesis by (simp add: spec_alloc_def)
qed

lemma pieces_below_alloc:
  assumes pb: "pieces_below n rs live" and al: "0 < adj_align l"
    and sa: "spec_alloc (adj_size l) (adj_align l) rs = Some (rs', s)"
  shows "pieces_below n rs' ((p, l) # live)"
proof -
  let ?al = "adj_align l" and ?sz = "adj_size l"
  obtain us r vs where rs: "rs = us @ r # vs" and suit: "suitable ?sz ?al r"
    and rs': "rs' = (if 0 < fit_excess ?sz ?al r
                then [(of_nat (s + ?sz), of_nat (fit_excess ?sz ?al r))] else []) @ us @ vs"
    using sa by (rule spec_alloc_SomeD)
  have r: "unat (snd r) < n" using pb rs by (simp add: pieces_below_def)
  have "fit_excess ?sz ?al r \<le> unat (snd r)"
    using fit_start_bounds(1) [OF suit al] by (auto simp: fit_excess_def)
  then have "unat (of_nat (fit_excess ?sz ?al r) :: usize) < n"
    using r by (simp add: unat_of_nat)
  then show ?thesis using pb rs rs' suitable_le [OF suit al] r by (simp add: pieces_below_def)
qed

lemma ll_cut_alloc:
  assumes cut: "ll_cut n lo hi m live" and acc: "ll_accepts l" and a: "ll_alloc m l = Inr (m', p)"
  shows "if p = 0 then m' = m else ll_cut n lo hi m' ((p, l) # live)"
proof -
  from cut obtain rs where rs: "\<not> held m" "free_list (inner m) rs" "ll_wf lo hi rs live" and pb: "pieces_below n rs live"
    by (auto simp: ll_cut_def)
  from ll_alloc_list [OF rs acc] a show ?thesis
    using pieces_below_alloc [OF pb adj_align_facts(1) [OF acc], of _ "unat p" p] by (auto simp: ll_cut_def split: if_splits)
qed

lemma ll_cut_dealloc:
  assumes cut: "ll_cut n lo hi m live" and mem: "(p, l) \<in> set live"
  shows "\<exists>m'. ll_dealloc m p l = Inr m' \<and> ll_cut n lo hi m' (remove1 (p, l) live)"
proof -
  from cut obtain rs where rs: "\<not> held m" "free_list (inner m) rs" "ll_wf lo hi rs live" and pb: "pieces_below n rs live"
    by (auto simp: ll_cut_def)
  from ll_dealloc_list [OF rs mem] obtain m' sz where d: "ll_dealloc m p l = Inr m'" "unat sz = adj_size l"
    "\<not> held m'" "free_list (inner m') ((p, sz) # rs)" "ll_wf lo hi ((p, sz) # rs) (remove1 (p, l) live)"
    by blast
  have "pieces_below n ((p, sz) # rs) (remove1 (p, l) live)"
    using pb mem d(2) by (auto simp: pieces_below_def list_all_iff dest: notin_set_remove1)
  with d show ?thesis by (auto simp: ll_cut_def)
qed

lemma ll_cut_touches:
  assumes cut: "ll_cut n lo hi m live" and A: "A \<subseteq> live_bytes live" and t: "ll_touches A m m'"
  shows "ll_cut n lo hi m' live"
proof -
  from cut obtain rs where "\<not> held m" and rs: "free_list (inner m) rs" "ll_wf lo hi rs live" and "pieces_below n rs live"
    by (auto simp: ll_cut_def)
  then show ?thesis using ll_touches_list [OF rs A t] by (auto simp: ll_cut_def)
qed

text \<open>The same operations meet the allocator's contract with the stronger invariant.\<close>

interpretation cut: global_allocator ll_alloc ll_dealloc ll_accepts ll_touches "ll_cut n" for n
proof
  fix lo hi m live l m' p A
  show "ll_accepts l \<Longrightarrow> valid_layout l" by (rule ll.accepts_valid)
  assume cut: "ll_cut n lo hi m live"
  show "live_ok lo hi live" using cut by (blast intro: ll_cut_inv ll.inv_live_ok)
  show "ll_accepts l \<Longrightarrow> \<exists>m' p. ll_alloc m l = Inr (m', p)"
    using cut by (blast intro: ll_cut_inv ll.alloc_returns)
  show "ll_accepts l \<Longrightarrow> ll_alloc m l = Inr (m', 0) \<Longrightarrow> ll_cut n lo hi m' live"
    using ll_cut_alloc [OF cut, of l m' 0] cut by simp
  show "ll_accepts l \<Longrightarrow> ll_alloc m l = Inr (m', p) \<Longrightarrow> p \<noteq> 0 \<Longrightarrow> ll_cut n lo hi m' ((p, l) # live)"
    using ll_cut_alloc [OF cut, of l m' p] by simp
  show "(p, l) \<in> set live \<Longrightarrow> \<exists>m'. ll_dealloc m p l = Inr m' \<and> ll_cut n lo hi m' (remove1 (p, l) live)"
    by (rule ll_cut_dealloc [OF cut])
  show "A \<subseteq> live_bytes live \<Longrightarrow> ll_touches A m m' \<Longrightarrow> ll_cut n lo hi m' live"
    by (rule ll_cut_touches [OF cut])
qed

section \<open>Fragmentation is permanent\<close>

text \<open>C24 (fragmentation_permanent): once every free region and every live block of the linked list allocator
  is smaller than \<open>n\<close> bytes, no request of \<open>n\<close> bytes or more is ever served again: after any further
  allocations, frees and client writes such an allocation returns null and changes nothing, even if every
  block has been freed and the whole heap is free.\<close>

theorem fragmentation_permanent:
  assumes "ll_inv lo hi m live" and "free_list (inner m) rs" and "pieces_below n rs live"
    and "heap_trace ll_alloc ll_dealloc ll_accepts ll_touches m live m' live'"
    and "ll_accepts l" and "n \<le> adj_size l"
  shows "ll_alloc m' l = Inr (m', 0)"
proof -
  have "ll_cut n lo hi m' live'" using ll_cutI [OF assms(1-3)] assms(4) by (rule cut.trace_inv)
  then obtain rs' where rs': "\<not> held m'" "free_list (inner m') rs'" "ll_wf lo hi rs' live'"
    and pb: "pieces_below n rs' live'" by (auto simp: ll_cut_def)
  have "spec_alloc (adj_size l) (adj_align l) rs' = None"
    by (rule spec_alloc_refuses [OF pb assms(6) adj_align_facts(1) [OF assms(5)]])
  with ll_alloc_list [OF rs' assms(5)] show ?thesis by (auto split: if_splits)
qed

text \<open>The smallest example: a heap of 32 bytes, filled with two blocks of 16 bytes and emptied again.\<close>

lemma halves_accepted:
  "ll_accepts \<lparr>l_size = 16, l_align = 8\<rparr>" "ll_accepts \<lparr>l_size = 32, l_align = 8\<rparr>"
proof -
  have p: "is_power_of_two 8" unfolding is_power_of_two_iff by (rule exI [of _ 3]) simp
  show "ll_accepts \<lparr>l_size = 16, l_align = 8\<rparr>" "ll_accepts \<lparr>l_size = 32, l_align = 8\<rparr>"
    using p by (simp_all add: ll_accepts_def valid_layout_iff align_to_def from_size_align_def NODE_ALIGN_def max_def)
qed

lemma halves_sizes:
  "adj_size \<lparr>l_size = 16, l_align = 8\<rparr> = 16" "adj_size \<lparr>l_size = 32, l_align = 8\<rparr> = 32"
  "adj_align \<lparr>l_size = 16, l_align = 8\<rparr> = 8"
  by (simp_all add: adj_size_def adj_align_def round_up_def)

lemma halves_spec:
  "spec_alloc 16 8 [(4096, 32)] = Some ([(4112, 16)], 4096)" "spec_alloc 16 8 [(4112, 16)] = Some ([], 4112)"
  by (simp_all add: spec_alloc_def suitable_def fit_start_def fit_excess_def round_up_def)

theorem fragmentation_permanent_witness:
  "\<exists>s m1 p m2 q m3 m4. ll_init (ll_new Map.empty) 4096 32 = Inr s \<and>
     ll_alloc (locked_new s) \<lparr>l_size = 16, l_align = 8\<rparr> = Inr (m1, p) \<and> unat p = 4096 \<and>
     ll_alloc m1 \<lparr>l_size = 16, l_align = 8\<rparr> = Inr (m2, q) \<and> unat q = 4112 \<and>
     ll_dealloc m2 p \<lparr>l_size = 16, l_align = 8\<rparr> = Inr m3 \<and> ll_dealloc m3 q \<lparr>l_size = 16, l_align = 8\<rparr> = Inr m4 \<and>
     ll_alloc m4 \<lparr>l_size = 32, l_align = 8\<rparr> = Inr (m4, 0)"
proof -
  let ?l = "\<lparr>l_size = 16, l_align = 8\<rparr> :: layout"
  have "free_list (ll_new Map.empty) []" by (simp add: free_list_def ll_new_def list_node_new_def)
  from add_free_region_ok [OF this, of 4096 32] obtain s where
    s: "ll_init (ll_new Map.empty) 4096 32 = Inr s" "free_list s [(4096, 32)]"
    by (auto simp: ll_init_def)
  have wf: "ll_wf 4096 4128 [(4096, 32)] []" by (simp add: ll_wf_def region_ok_def within_def region_extent_def)
  from ll_alloc_list [OF _ _ wf halves_accepted(1), of "locked_new s"] s(2) obtain m1 p where
    a1: "ll_alloc (locked_new s) ?l = Inr (m1, p)" "p \<noteq> 0" "unat p = 4096" "\<not> held m1"
      "free_list (inner m1) [(4112, 16)]" "ll_wf 4096 4128 [(4112, 16)] [(p, ?l)]"
    by (auto simp: halves_sizes halves_spec split: if_splits)
  from ll_alloc_list [OF a1(4-6) halves_accepted(1)] obtain m2 q where
    a2: "ll_alloc m1 ?l = Inr (m2, q)" "unat q = 4112" "\<not> held m2"
      "free_list (inner m2) []" "ll_wf 4096 4128 [] [(q, ?l), (p, ?l)]"
    by (auto simp: halves_sizes halves_spec split: if_splits)
  have inv: "ll_inv 4096 4128 m2 [(q, ?l), (p, ?l)]" using a2 by (auto simp: ll_inv_def)
  have "q \<noteq> p" using a1(3) a2(2) by auto
  with ll_dealloc_inv [OF inv, of p ?l] obtain m3 where
    d1: "ll_dealloc m2 p ?l = Inr m3" "ll_inv 4096 4128 m3 [(q, ?l)]"
    by auto
  from ll_dealloc_inv [OF d1(2), of q ?l] obtain m4 where d2: "ll_dealloc m3 q ?l = Inr m4" by auto
  have "heap_trace ll_alloc ll_dealloc ll_accepts ll_touches m2 [(q, ?l), (p, ?l)] m3 [(q, ?l)]"
    using heap_trace.dealloc [where dealloc = ll_dealloc, OF heap_trace.start _ d1(1), of "[(q, ?l), (p, ?l)]"]
      \<open>q \<noteq> p\<close> by simp
  from heap_trace.dealloc [where dealloc = ll_dealloc, OF this _ d2]
  have "heap_trace ll_alloc ll_dealloc ll_accepts ll_touches m2 [(q, ?l), (p, ?l)] m4 []" by simp
  from fragmentation_permanent [OF inv a2(4) _ this halves_accepted(2), of 32]
  have "ll_alloc m4 \<lparr>l_size = 32, l_align = 8\<rparr> = Inr (m4, 0)"
    by (simp add: pieces_below_def halves_sizes)
  then show ?thesis using s(1) a1(1,3) a2(1,2) d1(1) d2 by blast
qed

end
