(* ===== verification/X86_Machine.thy ===== *)
theory X86_Machine
  imports Kernel_Prelude
begin

text \<open>
  The part of the x86\_64 machine that the kernel's assembly uses: the general purpose registers,
  instruction pointer, flags, the code and stack segment selectors, byte-addressed memory with
  little-endian quadwords, \<^verbatim>\<open>push\<close>, \<^verbatim>\<open>pop\<close>, \<^verbatim>\<open>ret\<close>, \<^verbatim>\<open>iretq\<close> and the delivery of an interrupt in long
  mode. Addresses wrap around at 64 bits, as the machine's do.
\<close>

datatype reg = RAX | RBX | RCX | RDX | RSI | RDI | RBP | RSP
  | R8 | R9 | R10 | R11 | R12 | R13 | R14 | R15

text \<open>The registers as an enumeration, so that statements about all of them can be evaluated.\<close>

instantiation reg :: enum
begin

definition "enum_reg = [RAX, RBX, RCX, RDX, RSI, RDI, RBP, RSP, R8, R9, R10, R11, R12, R13, R14, R15]"

definition "enum_all_reg P = list_all P [RAX, RBX, RCX, RDX, RSI, RDI, RBP, RSP, R8, R9, R10, R11, R12, R13, R14, R15]"

definition "enum_ex_reg P = list_ex P [RAX, RBX, RCX, RDX, RSI, RDI, RBP, RSP, R8, R9, R10, R11, R12, R13, R14, R15]"

instance
proof
  have all: "r \<in> set enum_class.enum" for r :: reg by (cases r) (simp_all add: enum_reg_def)
  then show "(UNIV :: reg set) = set enum_class.enum" by auto
  show "distinct (enum_class.enum :: reg list)" by (simp add: enum_reg_def)
  show "enum_class.enum_all P = Ball (UNIV :: reg set) P" for P
    using all unfolding enum_all_reg_def enum_reg_def [symmetric] list_all_iff by auto
  show "enum_class.enum_ex P = Bex (UNIV :: reg set) P" for P
    using all unfolding enum_ex_reg_def enum_reg_def [symmetric] list_ex_iff by auto
qed

end

text \<open>
  \<open>mem\<close> is the memory in which stacks live. The kernel's own objects (process table, screen, free
  lists) are kept in the records of their components.
\<close>

type_synonym memory = "u64 \<Rightarrow> u8"

record cpu =
  regs :: "reg \<Rightarrow> u64"
  rip :: u64
  rflags :: u64
  cs :: u64
  ss :: u64
  mem :: memory

section \<open>Quadwords in memory\<close>

fun load_le :: "nat \<Rightarrow> memory \<Rightarrow> u64 \<Rightarrow> u64" where
  "load_le 0 m a = 0"
| "load_le (Suc n) m a = ucast (m a) OR push_bit 8 (load_le n m (a + 1))"

definition load64 :: "memory \<Rightarrow> u64 \<Rightarrow> u64" where
  "load64 m a = load_le 8 m a"

definition store64 :: "memory \<Rightarrow> u64 \<Rightarrow> u64 \<Rightarrow> memory" where
  "store64 m a v = (\<lambda>x. if unat (x - a) < 8 then ucast (drop_bit (8 * unat (x - a)) v) else m x)"

lemma bit_load_le:
  "bit (load_le n m a) k \<longleftrightarrow> k < 64 \<and> k < 8 * n \<and> bit (m (a + of_nat (k div 8))) (k mod 8)"
proof (induction n arbitrary: a k)
  case 0
  then show ?case by simp
next
  case (Suc n)
  show ?case
  proof (cases "k < 8")
    case True
    then show ?thesis
      by (auto simp: bit_or_iff bit_push_bit_iff bit_ucast_iff)
  next
    case False
    then obtain j where k: "k = 8 + j" by (metis le_add_diff_inverse not_le)
    have d: "(8 + j) div 8 = Suc (j div 8)" "(8 + j) mod 8 = j mod 8" by simp_all
    have "\<not> bit (ucast (m a) :: u64) k"
      using False by (auto simp: bit_ucast_iff dest: bit_imp_le_length)
    then have "bit (load_le (Suc n) m a) k \<longleftrightarrow> k < 64 \<and> bit (load_le n m (a + 1)) j"
      using k by (auto simp: bit_or_iff bit_push_bit_iff)
    then show ?thesis using Suc.IH [of "a + 1" j] k by (auto simp: d add.assoc)
  qed
qed

lemma bit_load64: "bit (load64 m a) k \<longleftrightarrow> k < 64 \<and> bit (m (a + of_nat (k div 8))) (k mod 8)"
  by (auto simp: load64_def bit_load_le)

lemma load64_cong:
  assumes "\<And>x. unat (x - a) < 8 \<Longrightarrow> m' x = m x"
  shows "load64 m' a = load64 m a"
proof (rule bit_eqI)
  fix k
  have "m' (a + of_nat (k div 8)) = m (a + of_nat (k div 8))" if "k < 64"
  proof (rule assms)
    have "k div 8 < 8" using that by simp
    then show "unat (a + of_nat (k div 8) - a) < 8" by (simp add: unat_of_nat)
  qed
  then show "bit (load64 m' a) k \<longleftrightarrow> bit (load64 m a) k" by (auto simp: bit_load64)
qed

lemma load64_store64_same [simp]: "load64 (store64 m a v) a = v"
proof (rule bit_eqI)
  fix k
  assume "possible_bit TYPE(64 word) k"
  then have k: "k < 64" by simp
  then have u: "unat (a + of_nat (k div 8) - a) = k div 8" by (simp add: unat_of_nat)
  have d: "k div 8 < 8" using k by simp
  have "k mod 8 < 8" by simp
  then have "bit (ucast (drop_bit (8 * (k div 8)) v) :: u8) (k mod 8) \<longleftrightarrow> bit v (8 * (k div 8) + k mod 8)"
    by (simp add: bit_ucast_iff bit_drop_bit_eq)
  then have "bit (store64 m a v (a + of_nat (k div 8))) (k mod 8) \<longleftrightarrow> bit v k"
    using k u d by (simp add: store64_def)
  then show "bit (load64 (store64 m a v) a) k \<longleftrightarrow> bit v k" using k by (simp add: bit_load64)
qed

text \<open>\<open>stored m a vs\<close>: the quadwords from address \<open>a\<close> upwards are \<open>vs\<close>.\<close>

fun stored :: "memory \<Rightarrow> u64 \<Rightarrow> u64 list \<Rightarrow> bool" where
  "stored m a [] = True"
| "stored m a (v # vs) = (load64 m a = v \<and> stored m (a + 8) vs)"

text \<open>\<open>x\<close> lies in the \<open>n\<close> bytes from \<open>a\<close> on.\<close>

definition in_range :: "u64 \<Rightarrow> nat \<Rightarrow> u64 \<Rightarrow> bool" where
  "in_range a n x = (unat (x - a) < n)"

lemma in_range_shift:
  assumes "in_range (a + of_nat k) n x" and "k + n \<le> 2 ^ 64"
  shows "in_range a (k + n) x"
proof -
  let ?d = "x - (a + of_nat k)"
  have d: "unat ?d < n" using assms(1) by (simp add: in_range_def)
  have "k < 2 ^ 64" using assms(2) d by simp
  then have k: "unat (of_nat k :: u64) = k" by (simp add: unat_of_nat)
  have eq: "x - a = ?d + of_nat k" by simp
  have "unat ?d + unat (of_nat k :: u64) < 2 ^ LENGTH(64)" using d k assms(2) by simp
  then have "unat (x - a) = unat ?d + k" unfolding eq using k by (simp only: unat_add_ok)
  then show ?thesis using d by (simp add: in_range_def)
qed

lemma in_range_mono: "in_range a n x \<Longrightarrow> n \<le> n' \<Longrightarrow> in_range a n' x"
  by (simp add: in_range_def)

lemma stored_cong:
  assumes "\<And>x. in_range a (8 * length vs) x \<Longrightarrow> m' x = m x" and "8 * length vs \<le> 2 ^ 64"
  shows "stored m' a vs \<longleftrightarrow> stored m a vs"
  using assms
proof (induction vs arbitrary: a)
  case Nil
  then show ?case by simp
next
  case (Cons v vs)
  have "load64 m' a = load64 m a"
    by (rule load64_cong) (use Cons.prems(1) in \<open>simp add: in_range_def\<close>)
  moreover have "stored m' (a + 8) vs \<longleftrightarrow> stored m (a + 8) vs"
  proof (rule Cons.IH)
    fix x
    assume "in_range (a + 8) (8 * length vs) x"
    then have "in_range a (8 + 8 * length vs) x"
      using in_range_shift [of a 8 "8 * length vs" x] Cons.prems(2) by simp
    then show "m' x = m x" using Cons.prems(1) by simp
  qed (use Cons.prems(2) in simp)
  ultimately show ?case by simp
qed

lemma stored_append: "stored m a (vs @ ws) \<longleftrightarrow> stored m a vs \<and> stored m (a + of_nat (8 * length vs)) ws"
  by (induction vs arbitrary: a) (auto simp: algebra_simps)

lemma stored_nth:
  "stored m a vs \<Longrightarrow> i < length vs \<Longrightarrow> load64 m (a + of_nat (8 * i)) = vs ! i"
proof (induction vs arbitrary: a i)
  case Nil
  then show ?case by simp
next
  case (Cons v vs)
  show ?case
  proof (cases i)
    case 0
    then show ?thesis using Cons.prems by simp
  next
    case (Suc j)
    have "load64 m (a + 8 + of_nat (8 * j)) = vs ! j"
      using Cons.prems Suc by (intro Cons.IH) simp_all
    then show ?thesis using Suc by (simp add: algebra_simps)
  qed
qed

lemma store64_other: "\<not> in_range a 8 x \<Longrightarrow> store64 m a v x = m x"
  by (simp add: store64_def in_range_def)

text \<open>Pushing below a stored block leaves the block alone.\<close>

lemma stored_store_below:
  assumes "stored m a vs" and "8 * length vs + 8 \<le> 2 ^ 64"
  shows "stored (store64 m (a - 8) v) (a - 8) (v # vs)"
proof -
  have "stored (store64 m (a - 8) v) a vs \<longleftrightarrow> stored m a vs"
  proof (rule stored_cong)
    fix x
    assume r: "in_range a (8 * length vs) x"
    have "\<not> in_range (a - 8) 8 x"
    proof
      assume "in_range (a - 8) 8 x"
      then have l: "unat (x - (a - 8)) < 8" by (simp add: in_range_def)
      have r': "unat (x - a) < 8 * length vs" using r by (simp add: in_range_def)
      have eq: "x - (a - 8) = (x - a) + 8" by simp
      have "unat (x - a) + unat (8::u64) < 2 ^ LENGTH(64)" using r' assms(2) by simp
      then have "unat (x - (a - 8)) = unat (x - a) + 8" unfolding eq by (simp only: unat_add_ok) simp
      with l show False by simp
    qed
    then show "store64 m (a - 8) v x = m x" by (rule store64_other)
  qed (use assms(2) in simp)
  then show ?thesis using assms(1) by simp
qed

section \<open>Instructions\<close>

definition push :: "u64 \<Rightarrow> cpu \<Rightarrow> cpu" where
  "push v c = (let sp = regs c RSP - 8 in
     c\<lparr>regs := (regs c)(RSP := sp), mem := store64 (mem c) sp v\<rparr>)"

definition push_reg :: "reg \<Rightarrow> cpu \<Rightarrow> cpu" where
  "push_reg r c = push (regs c r) c"

definition pop_reg :: "reg \<Rightarrow> cpu \<Rightarrow> cpu" where
  "pop_reg r c = c\<lparr>regs := (regs c)(RSP := regs c RSP + 8, r := load64 (mem c) (regs c RSP))\<rparr>"

definition ret :: "cpu \<Rightarrow> cpu" where
  "ret c = c\<lparr>rip := load64 (mem c) (regs c RSP), regs := (regs c)(RSP := regs c RSP + 8)\<rparr>"

definition iretq :: "cpu \<Rightarrow> cpu" where
  "iretq c = (let sp = regs c RSP in
     c\<lparr>rip := load64 (mem c) sp, cs := load64 (mem c) (sp + 8), rflags := load64 (mem c) (sp + 16),
       regs := (regs c)(RSP := load64 (mem c) (sp + 24)), ss := load64 (mem c) (sp + 32)\<rparr>)"

text \<open>The interrupt enable flag, bit 9 of the flags register; \<^verbatim>\<open>cli\<close> and \<^verbatim>\<open>sti\<close>.\<close>

definition interrupts_enabled :: "cpu \<Rightarrow> bool" where
  "interrupts_enabled c = bit (rflags c) 9"

definition cli :: "cpu \<Rightarrow> cpu" where
  "cli c = c\<lparr>rflags := unset_bit 9 (rflags c)\<rparr>"

definition sti :: "cpu \<Rightarrow> cpu" where
  "sti c = c\<lparr>rflags := set_bit 9 (rflags c)\<rparr>"

text \<open>
  Delivery of an interrupt through an interrupt gate without a stack switch: the stack pointer
  is aligned down to 16 bytes, the five-quadword frame is pushed and interrupts are masked.
\<close>

definition deliver :: "u64 \<Rightarrow> cpu \<Rightarrow> cpu" where
  "deliver handler c =
     (let c1 = c\<lparr>regs := (regs c)(RSP := regs c RSP AND NOT 15)\<rparr>;
          c2 = push (rip c) (push (cs c) (push (rflags c) (push (regs c RSP) (push (ss c) c1))))
      in cli (c2\<lparr>rip := handler\<rparr>))"

lemma push_simps [simp]:
  "regs (push v c) r = (if r = RSP then regs c RSP - 8 else regs c r)"
  "mem (push v c) = store64 (mem c) (regs c RSP - 8) v"
  "rip (push v c) = rip c" "rflags (push v c) = rflags c" "cs (push v c) = cs c" "ss (push v c) = ss c"
  by (simp_all add: push_def Let_def)

lemma cli_simps [simp]:
  "regs (cli c) = regs c" "mem (cli c) = mem c" "rip (cli c) = rip c" "cs (cli c) = cs c" "ss (cli c) = ss c"
  by (simp_all add: cli_def)

lemma sti_simps [simp]:
  "regs (sti c) = regs c" "mem (sti c) = mem c" "rip (sti c) = rip c" "cs (sti c) = cs c" "ss (sti c) = ss c"
  by (simp_all add: sti_def)

lemma cli_disables: "\<not> interrupts_enabled (cli c)"
  by (simp add: interrupts_enabled_def cli_def bit_unset_bit_iff)

lemma sti_enables: "interrupts_enabled (sti c)"
  by (simp add: interrupts_enabled_def sti_def bit_set_bit_iff)

text \<open>A push extends what is stored at the stack pointer.\<close>

lemma push_stored:
  "stored (mem c) (regs c RSP) vs \<Longrightarrow> 8 * length vs + 8 \<le> 2 ^ 64 \<Longrightarrow>
   stored (mem (push v c)) (regs (push v c) RSP) (v # vs)"
  using stored_store_below by simp

section \<open>Port I/O\<close>

text \<open>
  What \<^verbatim>\<open>in\<close> and \<^verbatim>\<open>out\<close> do to the devices behind the I/O ports is the hardware's business: the
  components take it as an argument.
\<close>

record 'd ports =
  out8 :: "u16 \<Rightarrow> u8 \<Rightarrow> 'd \<Rightarrow> 'd"
  out16 :: "u16 \<Rightarrow> u16 \<Rightarrow> 'd \<Rightarrow> 'd"
  out32 :: "u16 \<Rightarrow> u32 \<Rightarrow> 'd \<Rightarrow> 'd"
  in8 :: "u16 \<Rightarrow> 'd \<Rightarrow> u8 \<times> 'd"
  in32 :: "u16 \<Rightarrow> 'd \<Rightarrow> u32 \<times> 'd"

end
