(* ===== verification/Scheduler.thy ===== *)
theory Scheduler
  imports X86_Machine
begin

text \<open>
  The process table and the round-robin scheduler (\<^verbatim>\<open>process.rs\<close>, and \<^verbatim>\<open>preempt_round_robin\<close> of
  \<^verbatim>\<open>interrupt/handlers.rs\<close>). \<open>scheduler\<close> is the structure behind the global \<^verbatim>\<open>SCHEDULER\<close>;
  \<open>kernel\<close> holds that global with its lock and the static \<^verbatim>\<open>NEXT_PID\<close>. A \<^verbatim>\<open>usize\<close> index into the
  process table is a \<^typ>\<open>nat\<close>: a \<^verbatim>\<open>VecDeque\<close> holds at most \<^verbatim>\<open>isize::MAX\<close> bytes, so the successor of
  a valid index does not overflow. Indexing out of range panics, as in Rust.

  The two ways to change the running process share one contract, the locale \<open>round_robin\<close>: the
  ready ring rotates by one. It is interpreted for the preemptive path (\<open>preempt_round_robin\<close>) and
  for the cooperative one (\<open>execute_switch\<close>). The rest of the theory is about the stack a new process
  starts from and the register exchange \<open>context_switch\<close>.
\<close>

section \<open>Data\<close>

datatype process_state = Ready | Running

record process_context =
  pc_r15 :: u64
  pc_r14 :: u64
  pc_r13 :: u64
  pc_r12 :: u64
  pc_rbx :: u64
  pc_rbp :: u64
  pc_rip :: u64
  pc_rsp :: u64
  pc_rflags :: u64

definition context_zero :: process_context where
  "context_zero = \<lparr>pc_r15 = 0, pc_r14 = 0, pc_r13 = 0, pc_r12 = 0, pc_rbx = 0, pc_rbp = 0,
     pc_rip = 0, pc_rsp = 0, pc_rflags = 0\<rparr>"

text \<open>The boxed stack is the address of its first byte and its length.\<close>

record process =
  proc_id :: u64
  proc_state :: process_state
  proc_context :: process_context
  proc_stack :: "usize \<times> nat"

record scheduler =
  processes :: "process list"
  current_index :: nat

record kernel =
  SCHEDULER :: "scheduler option mutex"
  NEXT_PID :: u64

definition kernel_statics :: kernel where
  "kernel_statics = \<lparr>SCHEDULER = \<lparr>held = False, inner = None\<rparr>, NEXT_PID = 1\<rparr>"

section \<open>Creation\<close>

text \<open>\<^verbatim>\<open>Scheduler::init\<close>; its argument, the physical memory offset, is not used.\<close>

definition scheduler_init :: "u64 \<Rightarrow> kernel \<Rightarrow> kernel result" where
  "scheduler_init physical_memory_offset k =
     and_then (mutex_lock (SCHEDULER k)) (\<lambda>_.
     Inr (k\<lparr>SCHEDULER := (SCHEDULER k)\<lparr>inner := Some \<lparr>processes = [], current_index = 0\<rparr>\<rparr>\<rparr>))"

text \<open>The boxed empty array of the root process occupies no memory.\<close>

definition spawn_root :: "scheduler \<Rightarrow> scheduler" where
  "spawn_root sched =
     (let root_process = \<lparr>proc_id = 0, proc_state = Running, proc_context = context_zero,
                          proc_stack = (1, 0)\<rparr>
      in sched\<lparr>processes := processes sched @ [root_process], current_index := 0\<rparr>)"

definition STACK_SIZE :: nat where
  "STACK_SIZE = 4096 * 4"

definition zero_fill :: "usize \<Rightarrow> nat \<Rightarrow> memory \<Rightarrow> memory" where
  "zero_fill base n m = (\<lambda>x. if in_range base n x then 0 else m x)"

text \<open>\<^verbatim>\<open>ptr = ptr.sub(1); *ptr = v\<close> for a pointer to \<^verbatim>\<open>u64\<close>.\<close>

definition poke :: "u64 \<Rightarrow> u64 \<times> memory \<Rightarrow> u64 \<times> memory" where
  "poke v = (\<lambda>(ptr, m). (ptr - 8, store64 m (ptr - 8) v))"

text \<open>
  The block that forges the initial frame, from the end of the stack downwards: \<^verbatim>\<open>SS\<close>, \<^verbatim>\<open>RSP\<close>,
  \<^verbatim>\<open>RFLAGS\<close>, \<^verbatim>\<open>CS\<close>, \<^verbatim>\<open>RIP\<close> and fifteen zeros. The stored \<^verbatim>\<open>RSP\<close> is an overflow-checked sum.
\<close>

definition forge_stack :: "u64 \<Rightarrow> u64 \<times> memory \<Rightarrow> (u64 \<times> memory) result" where
  "forge_stack entry_point pm =
     (let pm1 = poke 0x10 pm in
      and_then (add_chk (fst pm1 - 8) 16) (\<lambda>stk.
      let pm2 = poke entry_point (poke 0x08 (poke 0x200 (poke stk pm1)))
      in Inr (fold (\<lambda>_. poke 0) [0..<15] pm2)))"

text \<open>
  \<^verbatim>\<open>Scheduler::spawn\<close>. \<open>box_new\<close> is the result of allocating the boxed stack (absent when the heap
  is exhausted); storing quadwords through the cast pointer needs it to be aligned.
\<close>

definition spawn ::
  "usize option \<Rightarrow> u64 \<Rightarrow> u64 \<times> scheduler \<times> memory \<Rightarrow> (u64 \<times> u64 \<times> scheduler \<times> memory) result" where
  "spawn box_new entry_point = (\<lambda>(next_pid, sched, m).
     let pid = next_pid; next_pid' = next_pid + 1 in
     case box_new of
       None \<Rightarrow> Inl (Panic AllocFailed)
     | Some base \<Rightarrow>
         let m1 = zero_fill base STACK_SIZE m; ptr = base + of_nat STACK_SIZE in
         and_then (require (ptr AND 7 = 0) InvalidAccess) (\<lambda>_.
         and_then (forge_stack entry_point (ptr, m1)) (\<lambda>(stack_top, m2).
         let process = \<lparr>proc_id = pid, proc_state = Ready,
                        proc_context = context_zero\<lparr>pc_rsp := stack_top\<rparr>,
                        proc_stack = (base, STACK_SIZE)\<rparr>
         in Inr (pid, next_pid', sched\<lparr>processes := processes sched @ [process]\<rparr>, m2))))"

section \<open>Switching\<close>

text \<open>
  The index arithmetic and state changes that \<^verbatim>\<open>switch\<close>, \<^verbatim>\<open>execute_switch\<close> and \<^verbatim>\<open>preempt_round_robin\<close>
  spell out: assignments to fields of \<^verbatim>\<open>processes[i]\<close>, panicking out of range.
\<close>

definition update_process :: "nat \<Rightarrow> (process \<Rightarrow> process) \<Rightarrow> scheduler \<Rightarrow> scheduler result" where
  "update_process i f sched =
     and_then (index_get (processes sched) i) (\<lambda>p.
     and_then (index_set (processes sched) i (f p)) (\<lambda>ps. Inr (sched\<lparr>processes := ps\<rparr>)))"

definition set_state :: "process_state \<Rightarrow> process \<Rightarrow> process" where
  "set_state st p = p\<lparr>proc_state := st\<rparr>"

definition preempt_round_robin :: "u64 \<Rightarrow> kernel \<Rightarrow> (u64 \<times> kernel) result" where
  "preempt_round_robin old_rsp k =
     (case mutex_try_lock (SCHEDULER k) of
        Some (Some sched) \<Rightarrow>
          if length (processes sched) < 2 then Inr (old_rsp, k)
          else
            let old_index = current_index sched in
            and_then (update_process old_index (\<lambda>p. p\<lparr>proc_context := (proc_context p)\<lparr>pc_rsp := old_rsp\<rparr>\<rparr>) sched) (\<lambda>s1.
            and_then (update_process old_index (set_state Ready) s1) (\<lambda>s2.
            let next_index = (old_index + 1) mod length (processes s2);
                s3 = s2\<lparr>current_index := next_index\<rparr> in
            and_then (update_process next_index (set_state Running) s3) (\<lambda>s4.
            and_then (index_get (processes s4) next_index) (\<lambda>p.
            Inr (pc_rsp (proc_context p), k\<lparr>SCHEDULER := (SCHEDULER k)\<lparr>inner := Some s4\<rparr>\<rparr>)))))
      | _ \<Rightarrow> Inr (old_rsp, k))"

text \<open>
  \<^verbatim>\<open>context_switch\<close>, instruction by instruction: save the callee-saved registers, the stack pointer
  and the return address of the old context, load those of the new one, put its \<^verbatim>\<open>rip\<close> on its stack
  and return through it. The two contexts are distinct objects of the process table, outside the stacks.
\<close>

definition context_switch :: "process_context \<Rightarrow> process_context \<Rightarrow> cpu \<Rightarrow> process_context \<times> cpu" where
  "context_switch old new c =
     (let old1 = old\<lparr>pc_r15 := regs c R15, pc_r14 := regs c R14, pc_r13 := regs c R13, pc_r12 := regs c R12,
                     pc_rbx := regs c RBX, pc_rbp := regs c RBP, pc_rsp := regs c RSP\<rparr>;
          rax = load64 (mem c) (regs c RSP);
          old2 = old1\<lparr>pc_rip := rax\<rparr>;
          c1 = c\<lparr>regs := (regs c)(RAX := rax, R15 := pc_r15 new, R14 := pc_r14 new, R13 := pc_r13 new,
                   R12 := pc_r12 new, RBX := pc_rbx new, RBP := pc_rbp new, RSP := pc_rsp new)\<rparr>;
          c2 = c1\<lparr>regs := (regs c1)(RAX := pc_rip new)\<rparr>;
          c3 = c2\<lparr>mem := store64 (mem c2) (regs c2 RSP) (regs c2 RAX)\<rparr>
      in (old2, ret c3))"

text \<open>
  What a call of the switching code does to the processor: control comes back to the caller, or it
  continues in another process.
\<close>

datatype outcome = Stayed cpu | Switched cpu

definition execute_switch :: "kernel \<Rightarrow> cpu \<Rightarrow> (kernel \<times> outcome) result" where
  "execute_switch k c =
     and_then (mutex_lock (SCHEDULER k)) (\<lambda>guard.
     case guard of
       None \<Rightarrow> Inr (k, Stayed c)
     | Some sched \<Rightarrow>
         if length (processes sched) < 2 then Inr (k, Stayed c)
         else
           let old_index = current_index sched;
               next_index = (old_index + 1) mod length (processes sched);
               s1 = sched\<lparr>current_index := next_index\<rparr> in
           and_then (update_process old_index (set_state Ready) s1) (\<lambda>s2.
           and_then (update_process next_index (set_state Running) s2) (\<lambda>s3.
           and_then (index_get (processes s3) old_index) (\<lambda>old.
           and_then (index_get (processes s3) next_index) (\<lambda>new.
           let (old_context, c') = context_switch (proc_context old) (proc_context new) c in
           and_then (update_process old_index (\<lambda>p. p\<lparr>proc_context := old_context\<rparr>) s3) (\<lambda>s4.
           Inr (k\<lparr>SCHEDULER := (SCHEDULER k)\<lparr>inner := Some s4\<rparr>\<rparr>, Switched c')))))))"

text \<open>
  \<^verbatim>\<open>Scheduler::switch\<close> has the body of \<^verbatim>\<open>execute_switch\<close>: it takes the global lock again although it
  is a method on the structure behind that lock.
\<close>

definition switch :: "kernel \<Rightarrow> cpu \<Rightarrow> (kernel \<times> outcome) result" where
  "switch k c = execute_switch k c"

text \<open>
  \<^verbatim>\<open>yield_now\<close> and \<^verbatim>\<open>preempt_now\<close>: the processor state is the one in which \<^verbatim>\<open>context_switch\<close> is entered.
  When the call comes back at once, interrupts are enabled again; after a switch, the process that
  continues decides when that happens.
\<close>

definition yield_now :: "kernel \<Rightarrow> cpu \<Rightarrow> (kernel \<times> outcome) result" where
  "yield_now k c =
     and_then (execute_switch k (cli c)) (\<lambda>(k', out).
     case out of Stayed c' \<Rightarrow> Inr (k', Stayed (sti c')) | Switched c' \<Rightarrow> Inr (k', Switched c'))"

definition preempt_now :: "kernel \<Rightarrow> cpu \<Rightarrow> (kernel \<times> outcome) result" where
  "preempt_now k c =
     and_then (execute_switch k (cli c)) (\<lambda>(k', out).
     case out of Stayed c' \<Rightarrow> Inr (k', Stayed (sti c')) | Switched c' \<Rightarrow> Inr (k', Switched c'))"

section \<open>Invariant\<close>

text \<open>The current index is valid and exactly the current process is marked \<open>Running\<close>.\<close>

definition sched_ok :: "scheduler \<Rightarrow> bool" where
  "sched_ok s = (current_index s < length (processes s) \<and>
     (\<forall>i<length (processes s). (proc_state (processes s ! i) = Running) = (i = current_index s)))"

text \<open>Process \<open>i\<close> of the table has the identifier \<open>i\<close>, and \<^verbatim>\<open>NEXT_PID\<close> is the number of processes.\<close>

definition pids_ok :: "u64 \<Rightarrow> scheduler \<Rightarrow> bool" where
  "pids_ok next_pid s = (map proc_id (processes s) = map of_nat [0..<length (processes s)] \<and>
     next_pid = of_nat (length (processes s)))"

definition kernel_ok :: "kernel \<Rightarrow> bool" where
  "kernel_ok k = (\<not> held (SCHEDULER k) \<and>
     (case inner (SCHEDULER k) of None \<Rightarrow> False | Some s \<Rightarrow> sched_ok s))"

definition sched_of :: "kernel \<Rightarrow> scheduler" where
  "sched_of k = the (inner (SCHEDULER k))"

text \<open>The ready ring, the running process first.\<close>

definition ring :: "kernel \<Rightarrow> u64 list" where
  "ring k = rotate (current_index (sched_of k)) (map proc_id (processes (sched_of k)))"

text \<open>What both switching paths do to the process table, given the context they save.\<close>

definition next_index :: "scheduler \<Rightarrow> nat" where
  "next_index s = (current_index s + 1) mod length (processes s)"

definition rr_step :: "process_context \<Rightarrow> scheduler \<Rightarrow> scheduler" where
  "rr_step ctx s = s\<lparr>processes := (processes s)
       [current_index s := (processes s ! current_index s)\<lparr>proc_state := Ready, proc_context := ctx\<rparr>,
        next_index s := (processes s ! next_index s)\<lparr>proc_state := Running\<rparr>],
     current_index := next_index s\<rparr>"

definition set_sched :: "scheduler \<Rightarrow> kernel \<Rightarrow> kernel" where
  "set_sched s k = k\<lparr>SCHEDULER := (SCHEDULER k)\<lparr>inner := Some s\<rparr>\<rparr>"

lemma kernel_okD:
  assumes "kernel_ok k"
  shows "\<not> held (SCHEDULER k)" "inner (SCHEDULER k) = Some (sched_of k)" "sched_ok (sched_of k)"
  using assms by (auto simp: kernel_ok_def sched_of_def split: option.splits)

lemma set_sched_simps [simp]:
  "sched_of (set_sched s k) = s" "NEXT_PID (set_sched s k) = NEXT_PID k"
  "held (SCHEDULER (set_sched s k)) = held (SCHEDULER k)" "inner (SCHEDULER (set_sched s k)) = Some s"
  "kernel_ok (set_sched s k) \<longleftrightarrow> \<not> held (SCHEDULER k) \<and> sched_ok s"
  by (simp_all add: set_sched_def sched_of_def kernel_ok_def)

lemma sched_of_NEXT_PID [simp]: "sched_of (k\<lparr>NEXT_PID := n\<rparr>) = sched_of k"
  by (simp add: sched_of_def)

lemma update_process_ok:
  "i < length (processes s) \<Longrightarrow>
   update_process i f s = Inr (s\<lparr>processes := (processes s)[i := f (processes s ! i)]\<rparr>)"
  by (simp add: update_process_def)

lemma next_index_less: "2 \<le> length (processes s) \<Longrightarrow> next_index s < length (processes s)"
  unfolding next_index_def by (rule mod_less_divisor) linarith

lemma next_index_neq:
  assumes "sched_ok s" and "2 \<le> length (processes s)"
  shows "next_index s \<noteq> current_index s"
proof
  let ?n = "length (processes s)"
  assume eq: "next_index s = current_index s"
  have lt: "current_index s < ?n" using assms(1) by (simp add: sched_ok_def)
  show False
  proof (cases "current_index s + 1 < ?n")
    case True
    then show ?thesis using eq by (simp add: next_index_def)
  next
    case False
    then have "current_index s + 1 = ?n" using lt by linarith
    then show ?thesis using eq assms(2) by (simp add: next_index_def)
  qed
qed

lemma rr_step_length [simp]: "length (processes (rr_step ctx s)) = length (processes s)"
  by (simp add: rr_step_def)

lemma rr_step_ids [simp]: "map proc_id (processes (rr_step ctx s)) = map proc_id (processes s)"
  by (cases "current_index s < length (processes s)"; cases "next_index s < length (processes s)")
     (simp_all add: rr_step_def list_eq_iff_nth_eq nth_list_update)

lemma rr_step_current [simp]: "current_index (rr_step ctx s) = next_index s"
  by (simp add: rr_step_def)

lemma rr_step_context:
  assumes "sched_ok s" and "2 \<le> length (processes s)" and "i < length (processes s)"
  shows "proc_context (processes (rr_step ctx s) ! i) =
    (if i = current_index s then ctx else proc_context (processes s ! i))"
  using assms next_index_neq [OF assms(1,2)] next_index_less [OF assms(2)]
  by (cases "i = next_index s"; cases "i = current_index s") (simp_all add: rr_step_def)

lemma rr_step_ok:
  assumes "sched_ok s" and "2 \<le> length (processes s)"
  shows "sched_ok (rr_step ctx s)"
  using assms next_index_neq [OF assms] next_index_less [OF assms(2)]
  by (auto simp: sched_ok_def rr_step_def nth_list_update)

lemma record_update_swaps:
  "p\<lparr>proc_context := ctx, proc_state := st\<rparr> = p\<lparr>proc_state := st, proc_context := ctx\<rparr>"
  "s\<lparr>current_index := i, processes := ps\<rparr> = s\<lparr>processes := ps, current_index := i\<rparr>"
  by simp_all

lemma preempt_round_robin_eq:
  assumes "kernel_ok k" and "2 \<le> length (processes (sched_of k))"
  shows "preempt_round_robin r k =
    (let s = sched_of k; ctx = (proc_context (processes s ! current_index s))\<lparr>pc_rsp := r\<rparr>
     in Inr (pc_rsp (proc_context (processes s ! next_index s)), set_sched (rr_step ctx s) k))"
proof -
  let ?s = "sched_of k"
  note k = kernel_okD [OF assms(1)]
  note ne = next_index_neq [OF k(3) assms(2)] and lt = next_index_less [OF assms(2)]
  have cur: "current_index ?s < length (processes ?s)" using k(3) by (simp add: sched_ok_def)
  show ?thesis
    using k(1,2) ne lt cur assms(2) unfolding next_index_def
    by (simp add: preempt_round_robin_def mutex_try_lock_def Let_def update_process_ok set_sched_def
          rr_step_def next_index_def set_state_def record_update_swaps)
qed

lemma preempt_round_robin_stay:
  "held (SCHEDULER k) \<or> inner (SCHEDULER k) = None \<or> length (processes (sched_of k)) < 2 \<Longrightarrow>
   preempt_round_robin r k = Inr (r, k)"
  by (auto simp: preempt_round_robin_def mutex_try_lock_def sched_of_def split: option.splits)

lemma execute_switch_eq:
  assumes "kernel_ok k" and "2 \<le> length (processes (sched_of k))"
  shows "execute_switch k c =
    (let s = sched_of k;
         (ctx, c') = context_switch (proc_context (processes s ! current_index s))
                       (proc_context (processes s ! next_index s)) c
     in Inr (set_sched (rr_step ctx s) k, Switched c'))"
proof -
  let ?s = "sched_of k"
  note k = kernel_okD [OF assms(1)]
  note ne = next_index_neq [OF k(3) assms(2)] and lt = next_index_less [OF assms(2)]
  have cur: "current_index ?s < length (processes ?s)" using k(3) by (simp add: sched_ok_def)
  show ?thesis
    using k(1,2) ne lt cur assms(2) unfolding next_index_def
    by (simp add: execute_switch_def mutex_lock_def Let_def update_process_ok set_sched_def
          rr_step_def next_index_def set_state_def record_update_swaps list_update_swap split: prod.split)
qed

lemma execute_switch_stay:
  "kernel_ok k \<Longrightarrow> length (processes (sched_of k)) < 2 \<Longrightarrow> execute_switch k c = Inr (k, Stayed c)"
  using kernel_okD [of k] by (simp add: execute_switch_def mutex_lock_def)

section \<open>Round robin\<close>

text \<open>
  The contract of a scheduler step, whatever triggers it: from a good state it always succeeds, keeps
  the state good and rotates the ring of processes by one.
\<close>

locale round_robin =
  fixes step :: "'s \<Rightarrow> 's \<Rightarrow> bool" and queue :: "'s \<Rightarrow> 'p list" and ok :: "'s \<Rightarrow> bool"
  assumes step_total: "ok s \<Longrightarrow> \<exists>s'. step s s'"
    and step_ok: "ok s \<Longrightarrow> step s s' \<Longrightarrow> ok s'"
    and step_queue: "ok s \<Longrightarrow> step s s' \<Longrightarrow> queue s' = rotate1 (queue s)"
begin

lemma steps_ok: "ok s \<Longrightarrow> (step ^^ n) s s' \<Longrightarrow> ok s' \<and> queue s' = rotate n (queue s)"
proof (induction n arbitrary: s')
  case 0
  then show ?case by simp
next
  case (Suc n)
  then obtain t where "(step ^^ n) s t" "step t s'" by auto
  then show ?case using Suc step_ok step_queue by (metis rotate_Suc)
qed

lemma steps_total: "ok s \<Longrightarrow> \<exists>s'. (step ^^ n) s s'"
proof (induction n)
  case 0
  then show ?case by simp
next
  case (Suc n)
  then obtain t where t: "(step ^^ n) s t" by blast
  then obtain u where "step t u" using steps_ok [OF Suc.prems t] step_total by blast
  then show ?case using t by auto
qed

lemma steps_head:
  assumes "ok s" and "(step ^^ n) s s'" and "queue s \<noteq> []"
  shows "hd (queue s') = queue s ! (n mod length (queue s))"
  using assms steps_ok [OF assms(1,2)] by (simp add: hd_rotate_conv_nth)

lemma steps_period:
  "ok s \<Longrightarrow> (step ^^ (length (queue s))) s s' \<Longrightarrow> queue s' = queue s"
  using steps_ok by fastforce

text \<open>Nobody starves: every member reaches the head in fewer steps than the ring has members.\<close>

lemma fair:
  assumes "ok s" and "p \<in> set (queue s)"
  shows "\<exists>n<length (queue s). \<forall>s'. (step ^^ n) s s' \<longrightarrow> hd (queue s') = p"
proof -
  obtain n where n: "n < length (queue s)" "queue s ! n = p" using assms(2) by (auto simp: in_set_conv_nth)
  have "hd (queue s') = p" if "(step ^^ n) s s'" for s'
    using steps_head [OF assms(1) that] assms(2) n by fastforce
  with n show ?thesis by blast
qed

end

definition preempt_step :: "kernel \<Rightarrow> kernel \<Rightarrow> bool" where
  "preempt_step k k' = (\<exists>r r'. preempt_round_robin r k = Inr (r', k'))"

definition switch_step :: "kernel \<Rightarrow> kernel \<Rightarrow> bool" where
  "switch_step k k' = (\<exists>c out. execute_switch k c = Inr (k', out))"

lemma ring_rr_step:
  assumes "processes (sched_of k) \<noteq> []"
  shows "ring (set_sched (rr_step ctx (sched_of k)) k) = rotate1 (ring k)"
  using assms by (simp add: ring_def next_index_def rotate_conv_mod [symmetric] flip: rotate_Suc)
    (metis length_map rotate_conv_mod)

lemma ring_single: "length (processes (sched_of k)) < 2 \<Longrightarrow> rotate1 (ring k) = ring k"
proof -
  assume "length (processes (sched_of k)) < 2"
  then have "length (ring k) < 2" by (simp add: ring_def)
  then show ?thesis by (cases "ring k") simp_all
qed

interpretation preemptive: round_robin preempt_step ring kernel_ok
proof
  fix k
  assume ok: "kernel_ok k"
  show "\<exists>k'. preempt_step k k'"
    by (cases "length (processes (sched_of k)) < 2")
       (auto simp: preempt_step_def preempt_round_robin_stay preempt_round_robin_eq [OF ok] Let_def)
  fix k'
  assume "preempt_step k k'"
  then obtain r r' where p: "preempt_round_robin r k = Inr (r', k')" by (auto simp: preempt_step_def)
  note s = kernel_okD [OF ok]
  show "kernel_ok k'"
    using ok p s by (cases "length (processes (sched_of k)) < 2")
       (auto simp: preempt_round_robin_stay preempt_round_robin_eq [OF ok] Let_def rr_step_ok)
  show "ring k' = rotate1 (ring k)"
    using p by (cases "length (processes (sched_of k)) < 2")
       (auto simp: preempt_round_robin_stay preempt_round_robin_eq [OF ok] Let_def ring_single
         intro!: ring_rr_step)
qed

interpretation cooperative: round_robin switch_step ring kernel_ok
proof
  fix k
  assume ok: "kernel_ok k"
  show "\<exists>k'. switch_step k k'"
    by (cases "length (processes (sched_of k)) < 2")
       (auto simp: switch_step_def execute_switch_stay [OF ok] execute_switch_eq [OF ok] Let_def case_prod_beta)
  fix k'
  assume "switch_step k k'"
  then obtain c out where p: "execute_switch k c = Inr (k', out)" by (auto simp: switch_step_def)
  note s = kernel_okD [OF ok]
  show "kernel_ok k'"
    using ok p s by (cases "length (processes (sched_of k)) < 2")
       (auto simp: execute_switch_stay [OF ok] execute_switch_eq [OF ok] Let_def rr_step_ok split: prod.splits)
  show "ring k' = rotate1 (ring k)"
    using p by (cases "length (processes (sched_of k)) < 2")
       (auto simp: execute_switch_stay [OF ok] execute_switch_eq [OF ok] Let_def ring_single
         split: prod.splits intro!: ring_rr_step)
qed

text \<open>The cooperative path advances the same ring.\<close>

lemma execute_switch_rotates:
  assumes "kernel_ok k" and "execute_switch k c = Inr (k', out)"
  shows "kernel_ok k' \<and> ring k' = rotate1 (ring k)"
  using cooperative.step_ok [OF assms(1)] cooperative.step_queue [OF assms(1)] assms(2)
  by (auto simp: switch_step_def)

section \<open>Sequences of timer ticks\<close>

text \<open>The scheduler side of consecutive ticks, each with the stack pointer it interrupts.\<close>

definition tick_all :: "u64 list \<Rightarrow> kernel \<Rightarrow> kernel result" where
  "tick_all rsps k = for_loop rsps (\<lambda>r k. and_then (preempt_round_robin r k) (\<lambda>(_, k'). Inr k')) k"

definition running_pid :: "kernel \<Rightarrow> u64" where
  "running_pid k = proc_id (processes (sched_of k) ! current_index (sched_of k))"

lemma tick_all_steps: "tick_all rsps k = Inr k' \<Longrightarrow> (preempt_step ^^ length rsps) k k'"
proof (induction rsps arbitrary: k)
  case Nil
  then show ?case by (simp add: tick_all_def)
next
  case (Cons r rsps)
  then obtain r' k1 where "preempt_round_robin r k = Inr (r', k1)" "tick_all rsps k1 = Inr k'"
    by (auto simp: tick_all_def kernel_simps)
  then have "preempt_step k k1" "(preempt_step ^^ length rsps) k1 k'"
    using Cons.IH [of k1] unfolding preempt_step_def by blast+
  then show ?case using relpowp_Suc_I2 by fastforce
qed

lemma preempt_total: "kernel_ok k \<Longrightarrow> \<exists>r' k'. preempt_round_robin r k = Inr (r', k')"
  by (cases "length (processes (sched_of k)) < 2")
     (auto simp: preempt_round_robin_stay preempt_round_robin_eq Let_def)

lemma tick_all_total: "kernel_ok k \<Longrightarrow> \<exists>k'. tick_all rsps k = Inr k'"
proof (induction rsps arbitrary: k)
  case Nil
  then show ?case by (simp add: tick_all_def)
next
  case (Cons r rsps)
  then obtain r' k1 where p: "preempt_round_robin r k = Inr (r', k1)" using preempt_total by blast
  then have "kernel_ok k1" using Cons.prems preemptive.step_ok preempt_step_def by blast
  then show ?case using Cons.IH p by (simp add: tick_all_def)
qed

lemma ring_hd: "kernel_ok k \<Longrightarrow> hd (ring k) = running_pid k"
proof -
  assume "kernel_ok k"
  then have lt: "current_index (sched_of k) < length (processes (sched_of k))"
    using kernel_okD(3) [of k] by (simp add: sched_ok_def)
  then have "map proc_id (processes (sched_of k)) \<noteq> []" by auto
  then show ?thesis
    using lt hd_rotate_conv_nth [of "map proc_id (processes (sched_of k))" "current_index (sched_of k)"]
    by (simp add: ring_def running_pid_def)
qed

lemma ring_nth:
  assumes "kernel_ok k" and "n = length (processes (sched_of k))"
  shows "ring k \<noteq> []" "length (ring k) = n"
    "ring k ! (t mod n) = map proc_id (processes (sched_of k)) ! ((current_index (sched_of k) + t) mod n)"
proof -
  have n: "0 < n" using assms(2) kernel_okD(3) [OF assms(1)] by (auto simp: sched_ok_def)
  then show "ring k \<noteq> []" "length (ring k) = n" using assms(2) by (auto simp: ring_def)
  show "ring k ! (t mod n) = map proc_id (processes (sched_of k)) ! ((current_index (sched_of k) + t) mod n)"
    using n assms(2) nth_rotate [of "t mod n" "map proc_id (processes (sched_of k))"]
    by (simp add: ring_def mod_add_right_eq)
qed

text \<open>
  C14 (round_robin_ticks): any number of timer ticks in a row succeeds; exactly one process is
  running afterwards, and it is the one as many places further round the table as there were ticks.
\<close>

theorem round_robin_ticks:
  assumes "kernel_ok k"
  shows "\<exists>k'. tick_all rsps k = Inr k' \<and> kernel_ok k' \<and>
    running_pid k' = proc_id (processes (sched_of k) !
      ((current_index (sched_of k) + length rsps) mod length (processes (sched_of k))))"
proof -
  let ?n = "length (processes (sched_of k))"
  obtain k' where t: "tick_all rsps k = Inr k'" using tick_all_total [OF assms] by blast
  note steps = tick_all_steps [OF t]
  note ok = preemptive.steps_ok [OF assms steps]
  have "0 < ?n" using kernel_okD(3) [OF assms] by (auto simp: sched_ok_def)
  then have "running_pid k' = proc_id (processes (sched_of k) ! ((current_index (sched_of k) + length rsps) mod ?n))"
    using preemptive.steps_head [OF assms steps ring_nth(1) [OF assms refl]] ring_hd [of k'] ok
      ring_nth(2,3) [OF assms refl] by simp
  then show ?thesis using t ok by blast
qed

text \<open>
  C13 (round_robin_fair): no process starves. Every process of the table is the running one after
  some number of ticks smaller than the number of processes.
\<close>

theorem round_robin_fair:
  assumes "kernel_ok k" and "i < length (processes (sched_of k))"
  shows "\<exists>t < length (processes (sched_of k)). \<forall>rsps. length rsps = t \<longrightarrow>
    (\<exists>k'. tick_all rsps k = Inr k' \<and> running_pid k' = proc_id (processes (sched_of k) ! i))"
proof -
  have "proc_id (processes (sched_of k) ! i) \<in> set (ring k)" using assms(2) by (simp add: ring_def)
  then obtain t where t: "t < length (ring k)"
    "\<And>k'. (preempt_step ^^ t) k k' \<Longrightarrow> hd (ring k') = proc_id (processes (sched_of k) ! i)"
    using preemptive.fair [OF assms(1)] by blast
  have "\<exists>k'. tick_all rsps k = Inr k' \<and> running_pid k' = proc_id (processes (sched_of k) ! i)"
    if "length rsps = t" for rsps
  proof -
    obtain k' where k': "tick_all rsps k = Inr k'" using tick_all_total [OF assms(1)] by blast
    then have "(preempt_step ^^ t) k k'" using tick_all_steps that by blast
    then show ?thesis using k' t(2) ring_hd preemptive.steps_ok [OF assms(1)] by metis
  qed
  then show ?thesis using t(1) by (auto simp: ring_def)
qed

text \<open>
  Every branch of a tick. While anyone holds the scheduler's lock, before the
  scheduler exists and while there are fewer than two processes, a tick changes nothing and resumes
  what it interrupted; in particular it never waits for the lock. Otherwise it stores the interrupted
  stack pointer in the old process, marks it ready, marks the next one running and returns the stack
  pointer stored there.
\<close>

theorem preempt_cases:
  assumes "inner (SCHEDULER k) \<noteq> None \<longrightarrow> sched_ok (sched_of k)"
  shows "preempt_round_robin r k =
    (let s = sched_of k; old = processes s ! current_index s; new = processes s ! next_index s in
     if held (SCHEDULER k) \<or> inner (SCHEDULER k) = None \<or> length (processes s) < 2 then Inr (r, k)
     else Inr (pc_rsp (proc_context new),
       set_sched (s\<lparr>processes := (processes s)
           [current_index s := old\<lparr>proc_state := Ready, proc_context := (proc_context old)\<lparr>pc_rsp := r\<rparr>\<rparr>,
            next_index s := new\<lparr>proc_state := Running\<rparr>],
          current_index := next_index s\<rparr>) k))"
proof (cases "held (SCHEDULER k) \<or> inner (SCHEDULER k) = None \<or> length (processes (sched_of k)) < 2")
  case True
  then show ?thesis using preempt_round_robin_stay by (simp add: Let_def)
next
  case False
  then have "kernel_ok k" using assms by (auto simp: kernel_ok_def sched_of_def)
  then show ?thesis using False preempt_round_robin_eq [of k r] by (auto simp: Let_def rr_step_def)
qed

section \<open>New processes\<close>

lemma in_range_self: "in_range a n x \<Longrightarrow> n \<le> 2 ^ 64 \<Longrightarrow> \<exists>d<n. x = a + of_nat d"
  by (rule exI [of _ "unat (x - a)"]) (simp add: in_range_def)

lemma fold_poke:
  assumes "stored m p ws" and "8 * (length vs + length ws) \<le> 2 ^ 64"
  shows "\<exists>m'. fold poke vs (p, m) = (p - of_nat (8 * length vs), m') \<and>
    stored m' (p - of_nat (8 * length vs)) (rev vs @ ws) \<and>
    (\<forall>x. \<not> in_range (p - of_nat (8 * length vs)) (8 * length vs) x \<longrightarrow> m' x = m x)"
  using assms
proof (induction vs arbitrary: p m ws)
  case Nil
  then show ?case by simp
next
  case (Cons v vs)
  let ?m = "store64 m (p - 8) v"
  let ?q = "p - of_nat (8 * length (v # vs))"
  have "stored ?m (p - 8) (v # ws)" using Cons.prems by (intro stored_store_below) simp_all
  then obtain m' where m': "fold poke vs (p - 8, ?m) = (p - 8 - of_nat (8 * length vs), m')"
    "stored m' (p - 8 - of_nat (8 * length vs)) (rev vs @ (v # ws))"
    "\<forall>x. \<not> in_range (p - 8 - of_nat (8 * length vs)) (8 * length vs) x \<longrightarrow> m' x = ?m x"
    using Cons.IH [of ?m "p - 8" "v # ws"] Cons.prems(2) by auto
  have q: "p - 8 - of_nat (8 * length vs) = ?q" by (simp add: algebra_simps)
  have "m' x = m x" if x: "\<not> in_range ?q (8 * length (v # vs)) x" for x
  proof -
    have "\<not> in_range ?q (8 * length vs) x"
      using x in_range_mono [of ?q "8 * length vs" x "8 * length (v # vs)"] by auto
    moreover have "\<not> in_range (p - 8) 8 x"
    proof
      assume "in_range (p - 8) 8 x"
      moreover have "p - 8 = ?q + of_nat (8 * length vs)" using q by (simp add: algebra_simps)
      ultimately have "in_range (?q + of_nat (8 * length vs)) 8 x" by (simp only:)
      then have "in_range ?q (8 * length vs + 8) x" by (rule in_range_shift) (use Cons.prems(2) in simp)
      then show False using x by (simp add: add.commute)
    qed
    ultimately show ?thesis using m'(3) store64_other unfolding q by simp
  qed
  moreover have "fold poke (v # vs) (p, m) = (?q, m')" using m'(1) unfolding q by (simp add: poke_def)
  moreover have "stored m' ?q (rev (v # vs) @ ws)" using m'(2) unfolding q by simp
  ultimately show ?case by blast
qed

text \<open>
  The frame a new process starts from, from the saved stack pointer upwards: fifteen registers in
  the order the handlers pop them, then what \<^verbatim>\<open>iretq\<close> takes.
\<close>

definition initial_frame :: "u64 \<Rightarrow> u64 \<Rightarrow> u64 list" where
  "initial_frame entry_point stk = replicate 15 0 @ [entry_point, 0x08, 0x200, stk, 0x10]"

lemma fold_const_poke: "fold (\<lambda>_. poke v) xs pm = fold poke (replicate (length xs) v) pm"
  by (induction xs arbitrary: pm) simp_all

lemma forge_stack_ok:
  assumes "unat (stk - 16) + 16 < 2 ^ 64"
  shows "\<exists>m'. forge_stack entry_point (stk, m) = Inr (stk - 160, m') \<and>
    stored m' (stk - 160) (initial_frame entry_point stk) \<and>
    (\<forall>x. \<not> in_range (stk - 160) 160 x \<longrightarrow> m' x = m x)"
proof -
  let ?vs = "[0x10, stk, 0x200, 0x08, entry_point] @ replicate 15 0"
  have t: "add_chk (stk - 16) 16 = Inr stk" using assms by (simp add: add_chk_def)
  have "add_chk (fst (poke 0x10 (stk, m)) - 8) 16 = Inr stk" using t by (simp add: poke_def)
  then have "forge_stack entry_point (stk, m) =
      Inr (fold poke (replicate 15 0) (fold poke [0x10, stk, 0x200, 0x08, entry_point] (stk, m)))"
    by (simp add: forge_stack_def Let_def fold_const_poke del: upt.simps fold_replicate)
  then have "forge_stack entry_point (stk, m) = Inr (fold poke ?vs (stk, m))"
    by (simp only: fold_append comp_apply)
  moreover have "rev ?vs = initial_frame entry_point stk" by (simp add: initial_frame_def)
  ultimately show ?thesis using fold_poke [of m stk "[]" ?vs] by simp
qed

lemma spawn_None [simp]: "spawn None entry_point st = Inl (Panic AllocFailed)"
  by (cases st) (simp add: spawn_def Let_def)

text \<open>\<open>spawnable base\<close>: the boxed stack is aligned for quadwords and ends below the last address.\<close>

definition spawnable :: "usize \<Rightarrow> bool" where
  "spawnable base = ((base + of_nat STACK_SIZE) AND 7 = 0 \<and> unat base + STACK_SIZE < 2 ^ 64)"

lemma spawnable_top:
  assumes "spawnable base"
  shows "unat (base + of_nat STACK_SIZE) = unat base + STACK_SIZE"
    "unat (base + of_nat STACK_SIZE - 16) + 16 < 2 ^ 64"
    "unat (base + of_nat STACK_SIZE - 160) = unat base + (STACK_SIZE - 160)"
proof -
  have n: "unat base + STACK_SIZE < 2 ^ LENGTH(64)" using assms by (simp add: spawnable_def)
  have u: "unat (of_nat STACK_SIZE :: u64) = STACK_SIZE" by (simp add: STACK_SIZE_def)
  show a: "unat (base + of_nat STACK_SIZE) = unat base + STACK_SIZE"
    using n u by (subst unat_add_ok) simp_all
  have le: "16 \<le> base + of_nat STACK_SIZE" "160 \<le> base + of_nat STACK_SIZE"
    unfolding word_le_nat_alt a by (simp_all add: STACK_SIZE_def)
  show "unat (base + of_nat STACK_SIZE - 16) + 16 < 2 ^ 64"
    using n by (simp only: unat_sub [OF le(1)] a) (simp add: STACK_SIZE_def)
  show "unat (base + of_nat STACK_SIZE - 160) = unat base + (STACK_SIZE - 160)"
    using n by (simp only: unat_sub [OF le(2)] a) (simp add: STACK_SIZE_def)
qed

lemma in_stack:
  assumes "in_range (base + of_nat STACK_SIZE - 160) 160 x"
  shows "in_range base STACK_SIZE x"
proof -
  have "base + of_nat STACK_SIZE - 160 = base + of_nat (STACK_SIZE - 160)" by (simp add: STACK_SIZE_def)
  then have "in_range (base + of_nat (STACK_SIZE - 160)) 160 x" using assms by (simp only:)
  then have "in_range base ((STACK_SIZE - 160) + 160) x"
    by (rule in_range_shift) (simp add: STACK_SIZE_def)
  then show ?thesis by (simp add: STACK_SIZE_def)
qed

lemma spawn_ok:
  assumes "spawnable base"
  shows "\<exists>m' p. spawn (Some base) entry_point (next_pid, s, m) =
      Inr (next_pid, next_pid + 1, s\<lparr>processes := processes s @ [p]\<rparr>, m') \<and>
    proc_id p = next_pid \<and> proc_state p = Ready \<and> proc_stack p = (base, STACK_SIZE) \<and>
    unat (pc_rsp (proc_context p)) = unat base + STACK_SIZE - 160 \<and>
    stored m' (pc_rsp (proc_context p)) (initial_frame entry_point (base + of_nat STACK_SIZE)) \<and>
    (\<forall>x. \<not> in_range base STACK_SIZE x \<longrightarrow> m' x = m x)"
proof -
  let ?stk = "base + of_nat STACK_SIZE"
  obtain m' where m': "forge_stack entry_point (?stk, zero_fill base STACK_SIZE m) = Inr (?stk - 160, m')"
    "stored m' (?stk - 160) (initial_frame entry_point ?stk)"
    "\<And>x. \<not> in_range (?stk - 160) 160 x \<Longrightarrow> m' x = zero_fill base STACK_SIZE m x"
    using forge_stack_ok [OF spawnable_top(2) [OF assms]] by blast
  have out: "m' x = m x" if "\<not> in_range base STACK_SIZE x" for x
    using that m'(3) in_stack by (metis zero_fill_def)
  have al: "?stk AND 7 = 0" using assms by (simp add: spawnable_def)
  let ?p = "\<lparr>proc_id = next_pid, proc_state = Ready, proc_context = context_zero\<lparr>pc_rsp := ?stk - 160\<rparr>,
    proc_stack = (base, STACK_SIZE)\<rparr>"
  have "spawn (Some base) entry_point (next_pid, s, m) =
      Inr (next_pid, next_pid + 1, s\<lparr>processes := processes s @ [?p]\<rparr>, m')"
    by (simp add: spawn_def Let_def al m'(1))
  moreover have "unat (pc_rsp (proc_context ?p)) = unat base + STACK_SIZE - 160"
    using spawnable_top(3) [OF assms] by (simp add: STACK_SIZE_def)
  ultimately show ?thesis using m'(2) out by (intro exI [of _ m'] exI [of _ ?p]) simp
qed

text \<open>
  C19 (spawn_creates): spawning on a usable stack succeeds, returns the next process identifier,
  appends one ready process, leaves every other process and all memory outside the new stack alone,
  and leaves at the new process's saved stack pointer the frame from which it will start.
\<close>

theorem spawn_creates:
  assumes "spawnable base"
  shows "\<exists>m' p. spawn (Some base) entry_point (next_pid, s, m) =
      Inr (next_pid, next_pid + 1, s\<lparr>processes := processes s @ [p]\<rparr>, m') \<and>
    proc_id p = next_pid \<and> proc_state p = Ready \<and> proc_stack p = (base, STACK_SIZE) \<and>
    unat (pc_rsp (proc_context p)) = unat base + STACK_SIZE - 160 \<and>
    stored m' (pc_rsp (proc_context p)) (initial_frame entry_point (base + of_nat STACK_SIZE)) \<and>
    (\<forall>x. \<not> in_range base STACK_SIZE x \<longrightarrow> m' x = m x)"
  using assms by (rule spawn_ok)

text \<open>
  Starting from a table whose processes are numbered from zero, a spawned process
  gets the next number, the invariant of the scheduler is kept, and all identifiers stay distinct as
  long as the table has at most \<open>2 ^ 64\<close> entries.
\<close>

theorem spawn_pids:
  assumes "spawn box_new entry_point (next_pid, s, m) = Inr (pid, next_pid', s', m')"
    and "sched_ok s" and "pids_ok next_pid s"
  shows "sched_ok s' \<and> pids_ok next_pid' s' \<and> pid = of_nat (length (processes s)) \<and>
    current_index s' = current_index s \<and>
    (length (processes s') \<le> 2 ^ 64 \<longrightarrow> distinct (map proc_id (processes s')))"
proof -
  obtain p where p: "s' = s\<lparr>processes := processes s @ [p]\<rparr>" "proc_state p = Ready" "proc_id p = next_pid"
      "pid = next_pid" "next_pid' = next_pid + 1"
    using assms(1) by (auto simp: spawn_def Let_def kernel_simps split: option.splits prod.splits)
  have ok: "sched_ok s'" "pids_ok next_pid' s'"
    using assms(2,3) p by (auto simp: sched_ok_def pids_ok_def nth_append less_Suc_eq)
  have "distinct (map proc_id (processes s'))" if "length (processes s') \<le> 2 ^ 64"
  proof -
    have "inj_on (of_nat :: nat \<Rightarrow> u64) (set [0..<length (processes s')])"
      using that by (intro inj_onI) (auto simp: word_unat_eq_iff unat_of_nat take_bit_nat_eq_self)
    then show ?thesis using ok(2) by (simp add: pids_ok_def distinct_map)
  qed
  moreover have "pid = of_nat (length (processes s))" "current_index s' = current_index s"
    using p assms(3) by (simp_all add: pids_ok_def)
  ultimately show ?thesis using ok by blast
qed

section \<open>The register exchange\<close>

text \<open>
  Whatever runs in between, switching back to a context saved by
  \<^verbatim>\<open>context_switch\<close> continues at the return address of that call, with the stack pointer just above
  it and every callee-saved register as it was.
\<close>

theorem context_switch_returns:
  "let saved = fst (context_switch old new c); c' = snd (context_switch other saved c2) in
   rip c' = load64 (mem c) (regs c RSP) \<and> regs c' RSP = regs c RSP + 8 \<and>
   (\<forall>r \<in> {R15, R14, R13, R12, RBX, RBP}. regs c' r = regs c r)"
  by (simp add: context_switch_def ret_def Let_def)


text \<open>
  A cooperative switch to a process that was spawned and has not yet run
  does not enter it: \<^verbatim>\<open>spawn\<close> leaves the \<^verbatim>\<open>rip\<close> of its context zero and prepares the stack for \<^verbatim>\<open>iretq\<close>,
  while \<^verbatim>\<open>context_switch\<close> returns to the context's \<^verbatim>\<open>rip\<close>. The processor continues at address zero,
  whatever the entry point, and the lowest quadword of the prepared frame is overwritten.
\<close>

theorem yield_to_new_process:
  assumes "kernel_ok k" and "length (processes (sched_of k)) = 1"
    and "spawn box_new entry_point (NEXT_PID k, sched_of k, m) = Inr (pid, next_pid', s', m')"
  shows "\<exists>k' c'. yield_now (set_sched s' k) c = Inr (k', Switched c') \<and> rip c' = 0 \<and>
    \<not> interrupts_enabled c' \<and> regs c' RSP = pc_rsp (proc_context (processes s' ! 1)) + 8"
proof -
  note k = kernel_okD [OF assms(1)]
  obtain p where p: "s' = (sched_of k)\<lparr>processes := processes (sched_of k) @ [p]\<rparr>"
      "proc_state p = Ready" "pc_rip (proc_context p) = 0"
    using assms(3) by (auto simp: spawn_def Let_def kernel_simps context_zero_def split: option.splits prod.splits)
  have cur: "current_index (sched_of k) = 0" using k(3) assms(2) by (simp add: sched_ok_def)
  have ok: "sched_ok s'" using k(3) p by (auto simp: sched_ok_def nth_append less_Suc_eq)
  have kok: "kernel_ok (set_sched s' k)" using k(1) ok by simp
  have n: "length (processes s') = 2" "next_index s' = 1" "processes s' ! 1 = p"
    using assms(2) p cur by (simp_all add: next_index_def nth_append)
  show ?thesis
    using execute_switch_eq [OF kok, of "cli c"] n p(3)
    by (simp add: yield_now_def Let_def context_switch_def ret_def interrupts_enabled_def)
       (simp add: cli_def bit_unset_bit_iff)
qed

section \<open>Example states\<close>

definition example_process :: "nat \<Rightarrow> process_state \<Rightarrow> process" where
  "example_process i st = \<lparr>proc_id = of_nat i, proc_state = st,
     proc_context = context_zero\<lparr>pc_rsp := of_nat (4096 * i)\<rparr>, proc_stack = (of_nat (4096 * i), 4096)\<rparr>"

definition example_kernel :: kernel where
  "example_kernel = \<lparr>SCHEDULER = \<lparr>held = False, inner = Some \<lparr>processes =
     [example_process 0 Ready, example_process 1 Running, example_process 2 Ready], current_index = 1\<rparr>\<rparr>,
     NEXT_PID = 3\<rparr>"

definition root_kernel :: kernel where
  "root_kernel = \<lparr>SCHEDULER = \<lparr>held = False,
     inner = Some (spawn_root \<lparr>processes = [], current_index = 0\<rparr>)\<rparr>, NEXT_PID = 1\<rparr>"

lemma example_kernel_ok: "kernel_ok example_kernel"
  by (simp add: example_kernel_def kernel_ok_def sched_ok_def example_process_def less_Suc_eq numeral_3_eq_3)

lemma root_kernel_ok: "kernel_ok root_kernel" "pids_ok 1 (sched_of root_kernel)"
  by (simp_all add: root_kernel_def kernel_ok_def sched_ok_def pids_ok_def spawn_root_def sched_of_def)

theorem round_robin_ticks_witness:
  "kernel_ok example_kernel \<and>
   (\<exists>k'. tick_all [10, 20] example_kernel = Inr k' \<and> kernel_ok k' \<and> running_pid k' = 0)"
  using round_robin_ticks [OF example_kernel_ok, of "[10, 20]"] example_kernel_ok
  by (simp add: example_kernel_def sched_of_def example_process_def)

theorem round_robin_fair_witness:
  "kernel_ok example_kernel \<and>
   (\<exists>t<3. \<exists>k'. tick_all (replicate t 0) example_kernel = Inr k' \<and> running_pid k' = 2)"
proof -
  have n: "length (processes (sched_of example_kernel)) = 3"
    "proc_id (processes (sched_of example_kernel) ! 2) = 2"
    by (simp_all add: example_kernel_def sched_of_def example_process_def)
  show ?thesis using round_robin_fair [OF example_kernel_ok, of 2] n example_kernel_ok by fastforce
qed

theorem preempt_cases_witness:
  "sched_ok (sched_of example_kernel) \<and>
   (\<exists>k'. preempt_round_robin 77 example_kernel = Inr (8192, k') \<and> kernel_ok k' \<and>
      map (\<lambda>p. pc_rsp (proc_context p)) (processes (sched_of k')) = [0, 77, 8192])"
proof -
  have "sched_ok (sched_of example_kernel)" using example_kernel_ok by (rule kernel_okD)
  then show ?thesis
    using preempt_cases [of example_kernel 77]
    by (auto simp: example_kernel_def sched_of_def example_process_def next_index_def Let_def set_sched_def
        kernel_ok_def sched_ok_def less_Suc_eq)
qed

lemma spawnable_example: "spawnable 0x10000"
  by (simp add: spawnable_def STACK_SIZE_def)

theorem spawn_creates_witness:
  "spawnable 0x10000 \<and>
   (\<exists>m' p. spawn (Some 0x10000) 0x2000 (1, sched_of root_kernel, \<lambda>_. 0) =
      Inr (1, 2, (sched_of root_kernel)\<lparr>processes := processes (sched_of root_kernel) @ [p]\<rparr>, m') \<and>
    stored m' (pc_rsp (proc_context p)) (initial_frame 0x2000 0x14000))"
  using spawn_creates [OF spawnable_example, where entry_point = "0x2000" and next_pid = 1 and s = "sched_of root_kernel"
      and m = "\<lambda>_. 0"] spawnable_example
  by (auto simp: STACK_SIZE_def)

lemma spawn_example:
  "\<exists>s' m'. spawn (Some 0x10000) 0x2000 (NEXT_PID root_kernel, sched_of root_kernel, \<lambda>_. 0) = Inr (1, 2, s', m') \<and>
     length (processes s') = 2"
proof -
  let ?stk = "0x10000 + of_nat STACK_SIZE :: u64"
  obtain m' where m': "forge_stack 0x2000 (?stk, zero_fill 0x10000 STACK_SIZE (\<lambda>_. 0)) = Inr (?stk - 160, m')"
    using forge_stack_ok [OF spawnable_top(2) [OF spawnable_example]] by blast
  have al: "?stk AND 7 = 0" using spawnable_example by (simp add: spawnable_def)
  show ?thesis
    by (simp add: spawn_def Let_def al m') (simp add: root_kernel_def sched_of_def spawn_root_def)
qed

theorem spawn_pids_witness:
  "\<exists>s' m'. spawn (Some 0x10000) 0x2000 (NEXT_PID root_kernel, sched_of root_kernel, \<lambda>_. 0) = Inr (1, 2, s', m') \<and>
     sched_ok s' \<and> pids_ok 2 s' \<and> distinct (map proc_id (processes s'))"
proof -
  obtain s' m' where sp:
    "spawn (Some 0x10000) 0x2000 (NEXT_PID root_kernel, sched_of root_kernel, \<lambda>_. 0) = Inr (1, 2, s', m')"
    "length (processes s') = 2" using spawn_example by blast
  have "NEXT_PID root_kernel = 1" by (simp add: root_kernel_def)
  then show ?thesis
    using spawn_pids [OF sp(1) kernel_okD(3) [OF root_kernel_ok(1)]] root_kernel_ok(2) sp by auto
qed

theorem yield_to_new_process_witness:
  "\<exists>s' m' k' c'. spawn (Some 0x10000) 0x2000 (NEXT_PID root_kernel, sched_of root_kernel, \<lambda>_. 0) = Inr (1, 2, s', m') \<and>
     yield_now (set_sched s' root_kernel)
       \<lparr>regs = (\<lambda>_. 0), rip = 0x3000, rflags = 0x200, cs = 8, ss = 16, mem = m'\<rparr> = Inr (k', Switched c') \<and>
     rip c' = 0"
proof -
  obtain s' m' where sp:
    "spawn (Some 0x10000) 0x2000 (NEXT_PID root_kernel, sched_of root_kernel, \<lambda>_. 0) = Inr (1, 2, s', m')"
    using spawn_example by blast
  have "length (processes (sched_of root_kernel)) = 1" by (simp add: root_kernel_def sched_of_def spawn_root_def)
  then show ?thesis using yield_to_new_process [OF root_kernel_ok(1) _ sp] sp by blast
qed

theorem context_switch_returns_witness:
  "let c = \<lparr>regs = (\<lambda>r. if r = RBX then 5 else 64), rip = 0x3000, rflags = 0x200, cs = 8, ss = 16,
             mem = store64 (\<lambda>_. 0) 64 0x1234\<rparr>;
       saved = fst (context_switch context_zero context_zero c);
       c' = snd (context_switch context_zero saved c) in
   rip c' = 0x1234 \<and> regs c' RSP = 72 \<and> regs c' RBX = 5"
  using context_switch_returns [of context_zero context_zero
      "\<lparr>regs = (\<lambda>r. if r = RBX then 5 else 64), rip = 0x3000, rflags = 0x200, cs = 8, ss = 16,
         mem = store64 (\<lambda>_. 0) 64 0x1234\<rparr>" context_zero]
  by (simp add: Let_def)

end
