(* ===== verification/Vga_Buffer.thy ===== *)
theory Vga_Buffer
  imports Kernel_Prelude
begin

text \<open>
  \<^verbatim>\<open>vga_buffer/print.rs\<close>: the text console. The 25 by 80 character cells at \<^verbatim>\<open>0xb8000\<close> are a list
  of rows; reads and writes of a cell are bounds-checked as the array accesses of the source
  are. Row and column positions are natural numbers: every path that increments one of them
  has just tested that it is below the size of the screen, so the width of \<^verbatim>\<open>usize\<close> cannot show.
  Strings are lists of bytes, as \<^verbatim>\<open>s.bytes()\<close> gives them; a formatted argument is the list of the
  string pieces that \<^verbatim>\<open>core::fmt\<close> passes to \<^verbatim>\<open>write_str\<close>.
\<close>

section \<open>Colours and cells\<close>

datatype Color = Black | Blue | Green | Cyan | Red | Magenta | Brown | LightGray
  | DarkGray | LightBlue | LightGreen | LightCyan | LightRed | Pink | Yellow | White

fun color_as_u8 :: "Color \<Rightarrow> u8" where
  "color_as_u8 Black = 0"
| "color_as_u8 Blue = 1"
| "color_as_u8 Green = 2"
| "color_as_u8 Cyan = 3"
| "color_as_u8 Red = 4"
| "color_as_u8 Magenta = 5"
| "color_as_u8 Brown = 6"
| "color_as_u8 LightGray = 7"
| "color_as_u8 DarkGray = 8"
| "color_as_u8 LightBlue = 9"
| "color_as_u8 LightGreen = 10"
| "color_as_u8 LightCyan = 11"
| "color_as_u8 LightRed = 12"
| "color_as_u8 Pink = 13"
| "color_as_u8 Yellow = 14"
| "color_as_u8 White = 15"

definition color_code_new :: "Color \<Rightarrow> Color \<Rightarrow> u8" where
  "color_code_new foreground background = push_bit 4 (color_as_u8 background) OR color_as_u8 foreground"

record screen_char =
  ascii_character :: u8
  color_code :: u8

definition BUFFER_HEIGHT :: nat where
  "BUFFER_HEIGHT = 25"

definition BUFFER_WIDTH :: nat where
  "BUFFER_WIDTH = 80"

type_synonym buffer = "screen_char list list"

definition cell_read :: "buffer \<Rightarrow> nat \<Rightarrow> nat \<Rightarrow> screen_char result" where
  "cell_read b row col = and_then (index_get b row) (\<lambda>r. index_get r col)"

definition cell_write :: "nat \<Rightarrow> nat \<Rightarrow> screen_char \<Rightarrow> buffer \<Rightarrow> buffer result" where
  "cell_write row col c b =
     and_then (index_get b row) (\<lambda>r. and_then (index_set r col c) (\<lambda>r'. index_set b row r'))"

section \<open>The writer\<close>

record writer =
  row_position :: nat
  column_position :: nat
  writer_color :: u8
  writer_buffer :: buffer

definition clear_row :: "nat \<Rightarrow> writer \<Rightarrow> writer result" where
  "clear_row row w =
     (let blank = \<lparr>ascii_character = 0x20, color_code = writer_color w\<rparr> in
      and_then (for_loop [0 ..< BUFFER_WIDTH] (\<lambda>col. cell_write row col blank) (writer_buffer w))
        (\<lambda>b. Inr (w\<lparr>writer_buffer := b\<rparr>)))"

definition scroll_rows :: "buffer \<Rightarrow> buffer result" where
  "scroll_rows =
     for_loop [1 ..< BUFFER_HEIGHT] (\<lambda>row.
       for_loop [0 ..< BUFFER_WIDTH] (\<lambda>col b.
         and_then (cell_read b row col) (\<lambda>character. cell_write (row - 1) col character b)))"

definition new_line :: "writer \<Rightarrow> writer result" where
  "new_line w =
     and_then
       (if row_position w < BUFFER_HEIGHT - 1 then Inr (w\<lparr>row_position := row_position w + 1\<rparr>)
        else and_then (scroll_rows (writer_buffer w)) (\<lambda>b.
             and_then (clear_row (BUFFER_HEIGHT - 1) (w\<lparr>writer_buffer := b\<rparr>)) (\<lambda>w.
             Inr (w\<lparr>row_position := BUFFER_HEIGHT - 1\<rparr>))))
       (\<lambda>w. Inr (w\<lparr>column_position := 0\<rparr>))"

definition write_byte :: "u8 \<Rightarrow> writer \<Rightarrow> writer result" where
  "write_byte byte w =
     (if byte = 0x0A then new_line w
      else and_then (if column_position w \<ge> BUFFER_WIDTH then new_line w else Inr w) (\<lambda>w.
           let row = row_position w; col = column_position w in
           and_then (cell_write row col \<lparr>ascii_character = byte, color_code = writer_color w\<rparr> (writer_buffer w)) (\<lambda>b.
           Inr (w\<lparr>writer_buffer := b, column_position := col + 1\<rparr>))))"

definition sanitize :: "u8 \<Rightarrow> u8" where
  "sanitize byte = (if (0x20 \<le> byte \<and> byte \<le> 0x7E) \<or> byte = 0x0A then byte else 0xFE)"

definition write_string :: "u8 list \<Rightarrow> writer \<Rightarrow> writer result" where
  "write_string s = for_loop s (\<lambda>byte. write_byte (sanitize byte))"

definition write_str :: "u8 list \<Rightarrow> writer \<Rightarrow> writer result" where
  "write_str s w = write_string s w"

text \<open>\<^verbatim>\<open>WRITER.lock().write_fmt(args).unwrap()\<close>; \<^verbatim>\<open>write_str\<close> never returns an error.\<close>

definition print_args :: "u8 list list \<Rightarrow> writer mutex \<Rightarrow> writer mutex result" where
  "print_args args WRITER =
     and_then (mutex_lock WRITER) (\<lambda>w.
     and_then (for_loop args write_str w) (\<lambda>w. Inr (WRITER\<lparr>inner := w\<rparr>)))"

definition println_args :: "u8 list list \<Rightarrow> writer mutex \<Rightarrow> writer mutex result" where
  "println_args args = print_args (args @ [[0x0A]])"

definition WRITER_init :: "buffer \<Rightarrow> writer mutex" where
  "WRITER_init vga_memory =
     \<lparr>held = False,
      inner = \<lparr>row_position = 0, column_position = 0, writer_color = color_code_new Yellow Black,
               writer_buffer = vga_memory\<rparr>\<rparr>"

section \<open>Well-formed screens and the specification\<close>

definition buffer_wf :: "buffer \<Rightarrow> bool" where
  "buffer_wf b = (length b = BUFFER_HEIGHT \<and> list_all (\<lambda>r. length r = BUFFER_WIDTH) b)"

definition writer_wf :: "writer \<Rightarrow> bool" where
  "writer_wf w = (row_position w < BUFFER_HEIGHT \<and> column_position w \<le> BUFFER_WIDTH \<and> buffer_wf (writer_buffer w))"

definition blank_row :: "u8 \<Rightarrow> screen_char list" where
  "blank_row c = replicate BUFFER_WIDTH \<lparr>ascii_character = 0x20, color_code = c\<rparr>"

text \<open>A terminal: a line feed moves down or scrolls the rows up by one; other bytes are put at
  the cursor, on the next line if the current one is full.\<close>

definition spec_new_line :: "writer \<Rightarrow> writer" where
  "spec_new_line w =
     (if row_position w < 24 then w\<lparr>row_position := Suc (row_position w), column_position := 0\<rparr>
      else w\<lparr>writer_buffer := tl (writer_buffer w) @ [blank_row (writer_color w)], column_position := 0\<rparr>)"

definition spec_put :: "u8 \<Rightarrow> writer \<Rightarrow> writer" where
  "spec_put c w =
     w\<lparr>writer_buffer := (writer_buffer w)[row_position w := (writer_buffer w ! row_position w)
          [column_position w := \<lparr>ascii_character = c, color_code = writer_color w\<rparr>]],
       column_position := Suc (column_position w)\<rparr>"

definition spec_byte :: "u8 \<Rightarrow> writer \<Rightarrow> writer" where
  "spec_byte c w =
     (if c = 0x0A then spec_new_line w
      else spec_put c (if column_position w = 80 then spec_new_line w else w))"

lemmas screen_size = BUFFER_HEIGHT_def BUFFER_WIDTH_def

lemma buffer_wf_rows: "buffer_wf b \<Longrightarrow> row < 25 \<Longrightarrow> length (b ! row) = 80"
  by (simp add: buffer_wf_def screen_size list_all_length)

lemma buffer_wf_length: "buffer_wf b \<Longrightarrow> length b = 25"
  by (simp add: buffer_wf_def screen_size)

lemma buffer_wf_update:
  "buffer_wf b \<Longrightarrow> length r = 80 \<Longrightarrow> buffer_wf (b[row := r])"
  by (auto simp: buffer_wf_def screen_size list_all_iff dest: set_update_subset_insert [THEN subsetD])

lemma cell_write_ok:
  "buffer_wf b \<Longrightarrow> row < 25 \<Longrightarrow> col < 80 \<Longrightarrow>
   cell_write row col c b = Inr (b[row := (b ! row)[col := c]])"
  by (simp add: cell_write_def buffer_wf_rows buffer_wf_length)

lemma cell_read_ok:
  "buffer_wf b \<Longrightarrow> row < 25 \<Longrightarrow> col < 80 \<Longrightarrow> cell_read b row col = Inr (b ! row ! col)"
  by (simp add: cell_read_def buffer_wf_rows buffer_wf_length)

section \<open>The loops\<close>

lemma clear_loop:
  assumes "buffer_wf b" and "row < 25" and "n \<le> 80"
  shows "for_loop [0 ..< n] (\<lambda>col. cell_write row col c) b = Inr (b[row := replicate n c @ drop n (b ! row)])"
  using assms(3)
proof (induction n)
  case 0
  then show ?case by simp
next
  case (Suc n)
  let ?b = "b[row := replicate n c @ drop n (b ! row)]"
  have wf: "buffer_wf ?b" using assms Suc.prems by (intro buffer_wf_update) (simp_all add: buffer_wf_rows)
  have "(replicate n c @ drop n (b ! row))[n := c] = replicate (Suc n) c @ drop (Suc n) (b ! row)"
    using assms Suc.prems
    by (simp add: list_update_append buffer_wf_rows replicate_append_same Cons_nth_drop_Suc [symmetric])
  then show ?case
    using Suc assms wf by (simp add: for_loop_append cell_write_ok buffer_wf_length)
qed

lemma copy_loop:
  assumes "buffer_wf b" and "0 < row" and "row < 25" and "n \<le> 80"
  shows "for_loop [0 ..< n] (\<lambda>col b. and_then (cell_read b row col) (\<lambda>ch. cell_write (row - 1) col ch b)) b =
         Inr (b[row - 1 := take n (b ! row) @ drop n (b ! (row - 1))])"
  using assms(4)
proof (induction n)
  case 0
  then show ?case by simp
next
  case (Suc n)
  let ?b = "b[row - 1 := take n (b ! row) @ drop n (b ! (row - 1))]"
  have wf: "buffer_wf ?b" using assms Suc.prems by (intro buffer_wf_update) (simp_all add: buffer_wf_rows)
  have row: "?b ! row = b ! row" using assms by simp
  have row1: "?b ! (row - 1) = take n (b ! row) @ drop n (b ! (row - 1))"
    using assms by (simp add: buffer_wf_length)
  have "(take n (b ! row) @ drop n (b ! (row - 1)))[n := b ! row ! n] =
        take (Suc n) (b ! row) @ drop (Suc n) (b ! (row - 1))"
    using assms Suc.prems
    by (simp add: list_update_append buffer_wf_rows take_Suc_conv_app_nth Cons_nth_drop_Suc [symmetric])
  then show ?case
    using Suc assms wf row row1
    by (simp add: for_loop_append cell_write_ok cell_read_ok buffer_wf_length)
qed

lemma shifted_wf: "buffer_wf b \<Longrightarrow> k \<le> 24 \<Longrightarrow> buffer_wf (take k (tl b) @ drop k b)"
  unfolding buffer_wf_def screen_size list_all_iff
  by (cases b) (auto dest!: in_set_takeD in_set_dropD)

lemma scroll_prefix:
  assumes "buffer_wf b" and "k \<le> 24"
  shows "for_loop [1 ..< Suc k] (\<lambda>row.
           for_loop [0 ..< 80] (\<lambda>col b. and_then (cell_read b row col) (\<lambda>ch. cell_write (row - 1) col ch b))) b =
         Inr (take k (tl b) @ drop k b)"
  using assms(2)
proof (induction k)
  case 0
  then show ?case by simp
next
  case (Suc k)
  let ?b = "take k (tl b) @ drop k b"
  have wf: "buffer_wf ?b" using assms(1) Suc.prems by (intro shifted_wf) simp_all
  have len: "length b = 25" using assms(1) by (rule buffer_wf_length)
  have next_row: "?b ! Suc k = b ! Suc k" using len Suc.prems by (simp add: nth_append)
  have "for_loop [0 ..< 80] (\<lambda>col b. and_then (cell_read b (Suc k) col) (\<lambda>ch. cell_write (Suc k - 1) col ch b)) ?b =
      Inr (?b[Suc k - 1 := take 80 (?b ! Suc k) @ drop 80 (?b ! (Suc k - 1))])"
    using Suc.prems by (intro copy_loop [OF wf]) simp_all
  also have "take 80 (?b ! Suc k) @ drop 80 (?b ! (Suc k - 1)) = b ! Suc k"
    using buffer_wf_rows [OF wf, of "Suc k"] buffer_wf_rows [OF wf, of k] Suc.prems next_row by simp
  also have "?b[Suc k - 1 := b ! Suc k] = take (Suc k) (tl b) @ drop (Suc k) b"
    using len Suc.prems
    by (simp add: list_update_append take_Suc_conv_app_nth nth_tl Cons_nth_drop_Suc [symmetric])
  finally show ?case using Suc by (simp add: for_loop_append)
qed

lemma scroll_rows_ok:
  assumes "buffer_wf b"
  shows "scroll_rows b = Inr (tl b @ [b ! 24])"
proof -
  have len: "length b = 25" using assms by (rule buffer_wf_length)
  have "scroll_rows b = Inr (take 24 (tl b) @ drop 24 b)"
    using scroll_prefix [OF assms, of 24] by (simp add: scroll_rows_def screen_size)
  moreover have "take 24 (tl b) = tl b" using len by simp
  moreover have "drop 24 b = [b ! 24]" using len by (simp add: Cons_nth_drop_Suc [symmetric])
  ultimately show ?thesis by simp
qed

section \<open>The writer computes the specification\<close>

lemma new_line_ok:
  assumes "writer_wf w"
  shows "new_line w = Inr (spec_new_line w) \<and> writer_wf (spec_new_line w) \<and> column_position (spec_new_line w) = 0"
proof (cases "row_position w < 24")
  case True
  then show ?thesis using assms by (simp add: new_line_def spec_new_line_def writer_wf_def screen_size)
next
  case False
  have wf: "buffer_wf (writer_buffer w)" and row: "row_position w = 24"
    using assms False by (simp_all add: writer_wf_def screen_size)
  let ?b = "tl (writer_buffer w) @ [writer_buffer w ! 24]"
  have len: "length (writer_buffer w) = 25" using wf by (rule buffer_wf_length)
  have wf1: "buffer_wf ?b"
    using shifted_wf [OF wf, of 24] len by (simp add: Cons_nth_drop_Suc [symmetric])
  have "?b[24 := blank_row (writer_color w)] = tl (writer_buffer w) @ [blank_row (writer_color w)]"
    using len by (simp add: list_update_append)
  then have cl: "clear_row 24 (w\<lparr>writer_buffer := ?b\<rparr>) =
      Inr (w\<lparr>writer_buffer := tl (writer_buffer w) @ [blank_row (writer_color w)]\<rparr>)"
    using clear_loop [OF wf1, of 24 80] buffer_wf_rows [OF wf1, of 24]
    by (simp add: clear_row_def screen_size blank_row_def Let_def)
  have "writer_wf (spec_new_line w)"
    using assms wf1 row len by (auto simp: spec_new_line_def writer_wf_def buffer_wf_def screen_size blank_row_def)
  with False row cl show ?thesis
    by (simp add: new_line_def spec_new_line_def scroll_rows_ok [OF wf] screen_size)
qed

lemma spec_put_wf: "writer_wf w \<Longrightarrow> column_position w < 80 \<Longrightarrow> writer_wf (spec_put c w)"
  by (simp add: writer_wf_def spec_put_def screen_size buffer_wf_update buffer_wf_rows)

lemma write_byte_ok:
  assumes "writer_wf w"
  shows "write_byte c w = Inr (spec_byte c w) \<and> writer_wf (spec_byte c w)"
proof (cases "c = 0x0A")
  case True
  then show ?thesis using new_line_ok [OF assms] by (simp add: write_byte_def spec_byte_def)
next
  case False
  define w1 where "w1 = (if column_position w = 80 then spec_new_line w else w)"
  have w1: "writer_wf w1" "column_position w1 < 80"
    using assms new_line_ok [OF assms] by (auto simp: w1_def writer_wf_def screen_size)
  have nl: "(if column_position w \<ge> 80 then new_line w else Inr w) = Inr w1"
    using assms new_line_ok [OF assms] by (auto simp: w1_def writer_wf_def screen_size)
  have "row_position w1 < 25" "buffer_wf (writer_buffer w1)" using w1 by (simp_all add: writer_wf_def screen_size)
  then have "write_byte c w = Inr (spec_put c w1)"
    using False nl w1(2) by (simp add: write_byte_def BUFFER_WIDTH_def cell_write_ok Let_def spec_put_def)
  then show ?thesis using False spec_put_wf [OF w1] by (simp add: spec_byte_def w1_def)
qed

lemma write_string_ok:
  assumes "writer_wf w"
  shows "write_string s w = Inr (fold (\<lambda>c. spec_byte (sanitize c)) s w) \<and>
         writer_wf (fold (\<lambda>c. spec_byte (sanitize c)) s w)"
  unfolding write_string_def using write_byte_ok assms by (intro for_loop_fold) simp_all

section \<open>Properties\<close>

lemma print_args_ok:
  assumes "\<not> held W" and "writer_wf (inner W)"
  shows "\<exists>w. print_args args W = Inr (W\<lparr>inner := w\<rparr>) \<and>
           w = fold (\<lambda>c. spec_byte (sanitize c)) (concat args) (inner W) \<and> writer_wf w"
proof -
  have "for_loop args write_str (inner W) =
        Inr (fold (\<lambda>s. fold (\<lambda>c. spec_byte (sanitize c)) s) args (inner W)) \<and>
        writer_wf (fold (\<lambda>s. fold (\<lambda>c. spec_byte (sanitize c)) s) args (inner W))"
    using write_string_ok assms(2) by (intro for_loop_fold) (simp_all add: write_str_def)
  moreover have "fold (\<lambda>s. fold (\<lambda>c. spec_byte (sanitize c)) s) args w0 =
      fold (\<lambda>c. spec_byte (sanitize c)) (concat args) w0" for w0
    by (induction args arbitrary: w0) simp_all
  ultimately show ?thesis using assms(1) by (simp add: print_args_def mutex_lock_def)
qed

text \<open>C15 (vga_write_refines): on a well-formed screen printing never panics, keeps the screen
  well-formed, and does what a terminal with 25 rows does, byte by byte, with every byte
  outside printable ASCII and line feed shown as 0xfe.\<close>

theorem vga_write_refines:
  assumes "\<not> held W" and "writer_wf (inner W)"
  shows "\<exists>w. print_args args W = Inr (W\<lparr>inner := w\<rparr>) \<and>
           w = fold (\<lambda>c. spec_byte (sanitize c)) (concat args) (inner W) \<and> writer_wf w"
  using assms by (rule print_args_ok)

definition empty_screen :: "writer mutex" where
  "empty_screen = WRITER_init (replicate 25 (replicate 80 \<lparr>ascii_character = 0, color_code = 0\<rparr>))"

lemma empty_screen_wf: "\<not> held empty_screen" "writer_wf (inner empty_screen)"
  by (simp_all add: empty_screen_def WRITER_init_def writer_wf_def buffer_wf_def screen_size list_all_iff)

theorem vga_write_refines_witness:
  "\<exists>w. print_args [[0x41], [0x0A]] empty_screen = Inr (empty_screen\<lparr>inner := w\<rparr>) \<and>
     row_position w = 1 \<and> column_position w = 0"
  using vga_write_refines [OF empty_screen_wf, of "[[0x41], [0x0A]]"]
  by (auto simp: spec_byte_def spec_new_line_def spec_put_def sanitize_def empty_screen_def WRITER_init_def)

text \<open>A line feed on the last row moves every row up by one, drops the first row,
  clears the last one in the current colour and leaves the cursor at its start; the nested
  copy loops read each cell before it is overwritten.\<close>

theorem vga_scroll:
  assumes "writer_wf w" and "row_position w = BUFFER_HEIGHT - 1"
  shows "\<exists>w'. new_line w = Inr w' \<and> row_position w' = BUFFER_HEIGHT - 1 \<and> column_position w' = 0 \<and>
           (\<forall>i<BUFFER_HEIGHT - 1. writer_buffer w' ! i = writer_buffer w ! Suc i) \<and>
           writer_buffer w' ! (BUFFER_HEIGHT - 1) =
             replicate BUFFER_WIDTH \<lparr>ascii_character = 0x20, color_code = writer_color w\<rparr>"
proof -
  have len: "length (writer_buffer w) = 25"
    using assms(1) by (simp add: writer_wf_def buffer_wf_length)
  have s: "spec_new_line w =
      w\<lparr>writer_buffer := tl (writer_buffer w) @ [blank_row (writer_color w)], column_position := 0\<rparr>"
    using assms(2) by (simp add: spec_new_line_def screen_size)
  show ?thesis
    using new_line_ok [OF assms(1)] assms(2) len
    by (simp add: s screen_size nth_append nth_tl blank_row_def)
qed

theorem vga_scroll_witness:
  "\<exists>w'. new_line ((inner empty_screen)\<lparr>row_position := 24\<rparr>) = Inr w' \<and> row_position w' = 24 \<and>
     writer_buffer w' ! 24 = replicate 80 \<lparr>ascii_character = 0x20, color_code = 14\<rparr>"
proof -
  have c: "color_code_new Yellow Black = 14" by (simp add: color_code_new_def)
  have wf: "writer_wf ((inner empty_screen)\<lparr>row_position := 24\<rparr>)"
    using empty_screen_wf(2) by (simp add: writer_wf_def screen_size)
  from vga_scroll [OF wf] show ?thesis
    by (auto simp: screen_size empty_screen_def WRITER_init_def c)
qed

lemma spec_line:
  assumes "writer_wf w" and "list_all (\<lambda>c. 0x20 \<le> c \<and> c \<le> 0x7E) s" and "column_position w + length s \<le> 80"
  shows "fold (\<lambda>c. spec_byte (sanitize c)) s w =
    w\<lparr>writer_buffer := (writer_buffer w)[row_position w :=
         take (column_position w) (writer_buffer w ! row_position w) @
         map (\<lambda>c. \<lparr>ascii_character = c, color_code = writer_color w\<rparr>) s @
         drop (column_position w + length s) (writer_buffer w ! row_position w)],
      column_position := column_position w + length s\<rparr>"
  using assms
proof (induction s arbitrary: w)
  case Nil
  have "length (writer_buffer w ! row_position w) = 80" "row_position w < length (writer_buffer w)"
    using Nil.prems(1) by (simp_all add: writer_wf_def buffer_wf_rows buffer_wf_length screen_size)
  then show ?case by simp
next
  case (Cons c s)
  let ?r = "row_position w" and ?k = "column_position w" and ?b = "writer_buffer w"
  let ?c = "\<lparr>ascii_character = c, color_code = writer_color w\<rparr>"
  have row: "?r < 25" "length (?b ! ?r) = 80" "length ?b = 25"
    using Cons.prems(1) by (simp_all add: writer_wf_def buffer_wf_rows buffer_wf_length screen_size)
  have k: "?k < 80" using Cons.prems(3) by simp
  have "sanitize c = c" "c \<noteq> 0x0A" using Cons.prems(2) by (auto simp: sanitize_def)
  then have step: "spec_byte (sanitize c) w = spec_put c w" using k by (simp add: spec_byte_def)
  have wf: "writer_wf (spec_put c w)" using Cons.prems(1) k by (rule spec_put_wf)
  have row': "writer_buffer (spec_put c w) ! ?r = (?b ! ?r)[?k := ?c]" using row by (simp add: spec_put_def)
  have pieces: "take (Suc ?k) ((?b ! ?r)[?k := ?c]) = take ?k (?b ! ?r) @ [?c]"
    "drop (Suc (?k + length s)) ((?b ! ?r)[?k := ?c]) = drop (Suc (?k + length s)) (?b ! ?r)"
    using row k by (simp_all add: take_Suc_conv_app_nth)
  from Cons.IH [OF wf] Cons.prems(2,3) step show ?case
    by (simp add: row' pieces spec_put_def [of c w] row)
qed

text \<open>A printable string that fits on the rest of the current line appears there
  byte for byte in the current colour, and no other cell of the screen changes.\<close>

theorem vga_line_output:
  assumes "writer_wf w" and "list_all (\<lambda>c. 0x20 \<le> c \<and> c \<le> 0x7E) s"
    and "column_position w + length s \<le> BUFFER_WIDTH"
  shows "\<exists>w'. write_string s w = Inr w' \<and> row_position w' = row_position w \<and>
     column_position w' = column_position w + length s \<and>
     (\<forall>i<length s. writer_buffer w' ! row_position w ! (column_position w + i) =
        \<lparr>ascii_character = s ! i, color_code = writer_color w\<rparr>) \<and>
     (\<forall>r<BUFFER_HEIGHT. \<forall>c<BUFFER_WIDTH. r \<noteq> row_position w \<or> c < column_position w \<or> column_position w + length s \<le> c
        \<longrightarrow> writer_buffer w' ! r ! c = writer_buffer w ! r ! c)"
proof -
  let ?r = "row_position w" and ?k = "column_position w" and ?b = "writer_buffer w"
  define line where "line = take ?k (?b ! ?r) @ map (\<lambda>c. \<lparr>ascii_character = c, color_code = writer_color w\<rparr>) s @
     drop (?k + length s) (?b ! ?r)"
  define w' where "w' = w\<lparr>writer_buffer := ?b[?r := line], column_position := ?k + length s\<rparr>"
  have row: "?r < 25" "length (?b ! ?r) = 80" "length ?b = 25"
    using assms(1) by (simp_all add: writer_wf_def buffer_wf_rows buffer_wf_length screen_size)
  have k: "?k + length s \<le> 80" using assms(3) by (simp add: BUFFER_WIDTH_def)
  have w: "write_string s w = Inr w'"
    using write_string_ok [OF assms(1), of s] spec_line [OF assms(1,2) k] by (simp add: w'_def line_def)
  have hit: "line ! (?k + i) = \<lparr>ascii_character = s ! i, color_code = writer_color w\<rparr>" if "i < length s" for i
    using that row k by (simp add: line_def nth_append)
  have miss: "line ! c = ?b ! ?r ! c" if "c < ?k \<or> ?k + length s \<le> c" "c < 80" for c
    using that row k by (auto simp: line_def nth_append)
  show ?thesis
    using w row hit miss by (auto simp: w'_def screen_size nth_list_update)
qed

theorem vga_line_output_witness:
  "\<exists>w'. write_string [0x48, 0x69] (inner empty_screen) = Inr w' \<and>
     ascii_character (writer_buffer w' ! 0 ! 0) = 0x48 \<and> ascii_character (writer_buffer w' ! 0 ! 1) = 0x69"
proof -
  obtain w' where w: "write_string [0x48, 0x69] (inner empty_screen) = Inr w'"
    and cells: "\<forall>i<length [0x48, 0x69 :: u8]. writer_buffer w' ! row_position (inner empty_screen) !
          (column_position (inner empty_screen) + i) =
        \<lparr>ascii_character = [0x48, 0x69] ! i, color_code = writer_color (inner empty_screen)\<rparr>"
    using vga_line_output [OF empty_screen_wf(2), of "[0x48, 0x69]"]
    by (auto simp: screen_size empty_screen_def WRITER_init_def)
  have z: "row_position (inner empty_screen) = 0" "column_position (inner empty_screen) = 0"
    by (simp_all add: empty_screen_def WRITER_init_def)
  show ?thesis
    using w cells [rule_format, of 0] cells [rule_format, of 1] by (simp add: z)
qed

lemma color_as_u8_nibble: "color_as_u8 c AND 15 = color_as_u8 c" "drop_bit 4 (color_as_u8 c) = 0"
  by (cases c; simp)+

lemma color_as_u8_inj: "color_as_u8 c = color_as_u8 d \<Longrightarrow> c = d"
  by (cases c; cases d; simp)

text \<open>The attribute byte packs the two colours without loss: the low nibble is
  the foreground, the high nibble the background, and different pairs give different bytes.\<close>

theorem color_code_roundtrip:
  "color_code_new f b AND 15 = color_as_u8 f \<and> drop_bit 4 (color_code_new f b) = color_as_u8 b \<and>
   (color_code_new f b = color_code_new f' b' \<longleftrightarrow> f = f' \<and> b = b')"
proof -
  have lo: "color_code_new x y AND 15 = color_as_u8 x" for x y
    by (cases x; cases y; simp add: color_code_new_def)
  have hi: "drop_bit 4 (color_code_new x y) = color_as_u8 y" for x y
    by (cases x; cases y; simp add: color_code_new_def)
  show ?thesis using lo hi color_as_u8_inj by metis
qed

section \<open>What cells can hold\<close>

definition displayable :: "u8 \<Rightarrow> screen_char \<Rightarrow> bool" where
  "displayable colour cell = (color_code cell = colour \<and>
     (0x20 \<le> ascii_character cell \<and> ascii_character cell \<le> 0x7E \<or> ascii_character cell = 0xFE))"

definition cells :: "writer \<Rightarrow> screen_char set" where
  "cells w = (\<Union>r\<in>set (writer_buffer w). set r)"

lemma cells_new_line:
  assumes "writer_wf w"
  shows "writer_color (spec_new_line w) = writer_color w"
    "cells (spec_new_line w) \<subseteq> cells w \<union> {c. displayable (writer_color w) c}"
proof -
  have "set (tl (writer_buffer w)) \<subseteq> set (writer_buffer w)" by (cases "writer_buffer w") auto
  then show "cells (spec_new_line w) \<subseteq> cells w \<union> {c. displayable (writer_color w) c}"
    by (auto simp: spec_new_line_def cells_def blank_row_def displayable_def)
qed (simp add: spec_new_line_def)

lemma cells_put:
  assumes "writer_wf w" and "0x20 \<le> b \<and> b \<le> 0x7E \<or> b = 0xFE"
  shows "writer_color (spec_put b w) = writer_color w"
    "cells (spec_put b w) \<subseteq> cells w \<union> {c. displayable (writer_color w) c}"
proof -
  let ?r = "writer_buffer w ! row_position w"
  let ?c = "\<lparr>ascii_character = b, color_code = writer_color w\<rparr>"
  have "row_position w < length (writer_buffer w)" using assms(1) by (simp add: writer_wf_def buffer_wf_def)
  then have r: "set ?r \<subseteq> cells w" using nth_mem unfolding cells_def by blast
  have "set (?r[column_position w := ?c]) \<subseteq> insert ?c (set ?r)" by (rule set_update_subset_insert)
  moreover have "set (writer_buffer (spec_put b w)) \<subseteq> insert (?r[column_position w := ?c]) (set (writer_buffer w))"
    unfolding spec_put_def by (simp add: set_update_subset_insert)
  moreover have "displayable (writer_color w) ?c" using assms(2) by (simp add: displayable_def)
  ultimately show "cells (spec_put b w) \<subseteq> cells w \<union> {c. displayable (writer_color w) c}"
    using r by (fastforce simp: cells_def)
qed (simp add: spec_put_def)

lemma cells_byte:
  assumes "writer_wf w"
  shows "writer_color (spec_byte (sanitize b) w) = writer_color w"
    "cells (spec_byte (sanitize b) w) \<subseteq> cells w \<union> {c. displayable (writer_color w) c}"
proof -
  note nl = cells_new_line [OF assms]
  let ?w = "if column_position w = 80 then spec_new_line w else w"
  have w: "writer_wf ?w" "writer_color ?w = writer_color w" "cells ?w \<subseteq> cells w \<union> {c. displayable (writer_color w) c}"
    using assms new_line_ok [OF assms] nl by auto
  have s: "sanitize b = 0x0A \<or> (0x20 \<le> sanitize b \<and> sanitize b \<le> 0x7E \<or> sanitize b = 0xFE)"
    by (auto simp: sanitize_def)
  show "writer_color (spec_byte (sanitize b) w) = writer_color w"
    "cells (spec_byte (sanitize b) w) \<subseteq> cells w \<union> {c. displayable (writer_color w) c}"
  proof (atomize (full), cases "sanitize b = 0x0A")
    case False
    then have ok: "0x20 \<le> sanitize b \<and> sanitize b \<le> 0x7E \<or> sanitize b = 0xFE" using s by blast
    have put: "spec_byte (sanitize b) w = spec_put (sanitize b) ?w" using False by (simp add: spec_byte_def)
    show "writer_color (spec_byte (sanitize b) w) = writer_color w \<and>
        cells (spec_byte (sanitize b) w) \<subseteq> cells w \<union> {c. displayable (writer_color w) c}"
      unfolding put using cells_put [OF w(1) ok, unfolded w(2)] w(3) by blast
  qed (use nl in \<open>simp add: spec_byte_def\<close>)
qed

lemma cells_fold:
  "writer_wf w \<Longrightarrow>
   writer_color (fold (\<lambda>c. spec_byte (sanitize c)) bs w) = writer_color w \<and>
   cells (fold (\<lambda>c. spec_byte (sanitize c)) bs w) \<subseteq> cells w \<union> {c. displayable (writer_color w) c}"
proof (induction bs arbitrary: w)
  case (Cons b bs)
  have "writer_wf (spec_byte (sanitize b) w)" using write_byte_ok [OF Cons.prems] by simp
  then show ?case using Cons.IH cells_byte [OF Cons.prems, of b] by fastforce
qed simp

text \<open>
  C26 (screen_cells): whatever is printed, the screen keeps its 25 rows of 80 cells, the cursor stays on it, the
  writer keeps its colour, and every cell holds either something that was on the screen before or
  a printable ASCII character or the replacement block, in the writer's colour; control
  characters and bytes of multi-byte characters never reach the hardware.
\<close>

theorem screen_cells:
  assumes "\<not> held W" and "writer_wf (inner W)"
  shows "\<exists>w. print_args args W = Inr (W\<lparr>inner := w\<rparr>) \<and> row_position w < 25 \<and> column_position w \<le> 80 \<and>
    length (writer_buffer w) = 25 \<and> list_all (\<lambda>r. length r = 80) (writer_buffer w) \<and>
    writer_color w = writer_color (inner W) \<and>
    (\<forall>cell\<in>cells w. cell \<in> cells (inner W) \<or> displayable (writer_color (inner W)) cell)"
proof -
  obtain w where w: "print_args args W = Inr (W\<lparr>inner := w\<rparr>)"
      "w = fold (\<lambda>c. spec_byte (sanitize c)) (concat args) (inner W)" "writer_wf w"
    using print_args_ok [OF assms] by blast
  then show ?thesis
    using cells_fold [OF assms(2), of "concat args"] by (auto simp: writer_wf_def buffer_wf_def screen_size)
qed

theorem screen_cells_witness:
  "\<exists>w. print_args [[0x41, 0xC3, 0x1B]] empty_screen = Inr (empty_screen\<lparr>inner := w\<rparr>) \<and>
     (\<forall>cell\<in>cells w. ascii_character cell \<noteq> 0x1B)"
proof -
  obtain w where w: "print_args [[0x41, 0xC3, 0x1B]] empty_screen = Inr (empty_screen\<lparr>inner := w\<rparr>)"
    "\<forall>cell\<in>cells w. cell \<in> cells (inner empty_screen) \<or> displayable (writer_color (inner empty_screen)) cell"
    using screen_cells [OF empty_screen_wf, of "[[0x41, 0xC3, 0x1B]]"] by blast
  have "ascii_character cell = 0" if "cell \<in> cells (inner empty_screen)" for cell
    using that by (auto simp: cells_def empty_screen_def WRITER_init_def)
  then show ?thesis using w by (force simp: displayable_def)
qed

end
