(* ===== verification/Frame_Allocator.thy ===== *)
theory Frame_Allocator
  imports Allocator
begin

text \<open>
  \<^verbatim>\<open>memory.rs\<close>: the allocators of physical page frames and the page-table bootstrap. The memory
  map comes from the bootloader crate; the model sees of a region what the code reads of it:
  its start and end address and whether its type equals \<^verbatim>\<open>MemoryRegionType::Usable\<close>. The crate
  functions that turn an address into a frame (\<^verbatim>\<open>PhysAddr::new\<close>, \<^verbatim>\<open>PhysFrame::containing_address\<close>)
  are the parameter \<open>frame_of\<close>, which may panic. The trait \<^verbatim>\<open>FrameAllocator\<close> is the locale
  \<open>frame_source\<close>, interpreted on both allocators of the file.
\<close>

section \<open>Data and operations\<close>

record memory_region =
  region_start_addr :: u64
  region_end_addr :: u64
  region_usable :: bool

type_synonym memory_map = "memory_region list"

text \<open>\<^verbatim>\<open>(start..end).step_by(n)\<close>.\<close>

definition range_step_by :: "u64 \<Rightarrow> u64 \<Rightarrow> nat \<Rightarrow> u64 list" where
  "range_step_by a b n = map (\<lambda>k. a + of_nat (k * n)) [0 ..< (unat b - unat a + n - 1) div n]"

record boot_info_frame_allocator =
  fa_memory_map :: memory_map
  fa_next :: usize

definition boot_info_init :: "memory_map \<Rightarrow> boot_info_frame_allocator" where
  "boot_info_init m = \<lparr>fa_memory_map = m, fa_next = 0\<rparr>"

definition usable_frame_addresses :: "memory_map \<Rightarrow> u64 list" where
  "usable_frame_addresses regions =
     (let usable_regions = filter region_usable regions;
          addr_ranges = map (\<lambda>r. (region_start_addr r, region_end_addr r)) usable_regions
      in concat (map (\<lambda>(a, b). range_step_by a b 4096) addr_ranges))"

text \<open>\<^verbatim>\<open>iter.map(frame_of).nth(n)\<close>: the iterator is lazy, so only the first \<open>n + 1\<close> frames are built.\<close>

fun frames_nth :: "(u64 \<Rightarrow> 'frame result) \<Rightarrow> u64 list \<Rightarrow> nat \<Rightarrow> 'frame option result" where
  "frames_nth frame_of [] n = Inr None"
| "frames_nth frame_of (a # as) 0 = and_then (frame_of a) (\<lambda>f. Inr (Some f))"
| "frames_nth frame_of (a # as) (Suc n) = and_then (frame_of a) (\<lambda>_. frames_nth frame_of as n)"

definition allocate_frame ::
  "(u64 \<Rightarrow> 'frame result) \<Rightarrow> boot_info_frame_allocator \<Rightarrow> (boot_info_frame_allocator \<times> 'frame option) result" where
  "allocate_frame frame_of self =
     and_then (frames_nth frame_of (usable_frame_addresses (fa_memory_map self)) (unat (fa_next self))) (\<lambda>frame.
     and_then (add_chk (fa_next self) 1) (\<lambda>n.
     Inr (self\<lparr>fa_next := n\<rparr>, frame)))"

datatype empty_frame_allocator = EmptyFrameAllocator

fun empty_allocate_frame :: "empty_frame_allocator \<Rightarrow> (empty_frame_allocator \<times> 'frame option) result" where
  "empty_allocate_frame EmptyFrameAllocator = Inr (EmptyFrameAllocator, None)"

text \<open>
  The page-table bootstrap: the frame in CR3 and the address arithmetic and constructor of the
  x86\_64 crate are parameters.
\<close>

definition active_level_4_table :: "u64 \<Rightarrow> ('va \<Rightarrow> u64 \<Rightarrow> 'va result) \<Rightarrow> 'va \<Rightarrow> 'va result" where
  "active_level_4_table cr3_start_address virt_add physical_memory_offset =
     virt_add physical_memory_offset cr3_start_address"

definition memory_init ::
  "u64 \<Rightarrow> ('va \<Rightarrow> u64 \<Rightarrow> 'va result) \<Rightarrow> ('va \<Rightarrow> 'va \<Rightarrow> 'pt) \<Rightarrow> 'va \<Rightarrow> 'pt result" where
  "memory_init cr3_start_address virt_add offset_page_table_new physical_memory_offset =
     and_then (active_level_4_table cr3_start_address virt_add physical_memory_offset) (\<lambda>level_4_table.
     Inr (offset_page_table_new level_4_table physical_memory_offset))"

section \<open>The contract of FrameAllocator\<close>

text \<open>The frames that \<open>n\<close> calls in a row return.\<close>

fun allocate_many :: "('s \<Rightarrow> ('s \<times> 'frame option) result) \<Rightarrow> nat \<Rightarrow> 's \<Rightarrow> ('s \<times> 'frame option list) result" where
  "allocate_many alloc 0 s = Inr (s, [])"
| "allocate_many alloc (Suc n) s =
     and_then (alloc s) (\<lambda>(s, f). and_then (allocate_many alloc n s) (\<lambda>(s, fs). Inr (s, f # fs)))"

text \<open>
  \<open>avail s\<close> is the list of frames still to be handed out; \<open>ok n s\<close> says that \<open>n\<close> more calls are
  within the range of the allocator's counter.
\<close>

locale frame_source =
  fixes allocate :: "'s \<Rightarrow> ('s \<times> 'frame option) result"
    and avail :: "'s \<Rightarrow> 'frame list"
    and ok :: "nat \<Rightarrow> 's \<Rightarrow> bool"
  assumes allocate_ok: "ok (Suc n) s \<Longrightarrow>
      \<exists>s'. allocate s = Inr (s', case avail s of [] \<Rightarrow> None | f # _ \<Rightarrow> Some f) \<and>
        avail s' = tl (avail s) \<and> ok n s'"
begin

lemma allocate_many_ok:
  "ok n s \<Longrightarrow>
   \<exists>s'. allocate_many allocate n s =
          Inr (s', map Some (take n (avail s)) @ replicate (n - length (avail s)) None) \<and>
        avail s' = drop n (avail s)"
proof (induction n arbitrary: s)
  case 0
  then show ?case by simp
next
  case (Suc n)
  from allocate_ok [OF Suc.prems] obtain s1 where
    a: "allocate s = Inr (s1, case avail s of [] \<Rightarrow> None | f # _ \<Rightarrow> Some f)"
    and av: "avail s1 = tl (avail s)" and k: "ok n s1"
    by blast
  from Suc.IH [OF k] av obtain s2 where
    m: "allocate_many allocate n s1 =
          Inr (s2, map Some (take n (tl (avail s))) @ replicate (n - length (tl (avail s))) None)"
    and av2: "avail s2 = drop n (tl (avail s))"
    by auto
  show ?case
  proof (cases "avail s")
    case Nil
    then show ?thesis using a m av2 by simp
  next
    case (Cons f fs)
    then show ?thesis using a m av2 by simp
  qed
qed

end

interpretation empty_frames: frame_source empty_allocate_frame "\<lambda>_. []" "\<lambda>_ _. True"
proof
  show "\<exists>s'. empty_allocate_frame s = Inr (s', case [] of [] \<Rightarrow> None | f # _ \<Rightarrow> Some f) \<and> [] = tl [] \<and> True"
    for s :: empty_frame_allocator
    by (cases s) simp
qed

section \<open>The boot-info allocator\<close>

definition boot_avail :: "(u64 \<Rightarrow> 'frame result) \<Rightarrow> boot_info_frame_allocator \<Rightarrow> 'frame list" where
  "boot_avail frame_of s =
     map (\<lambda>a. projr (frame_of a)) (drop (unat (fa_next s)) (usable_frame_addresses (fa_memory_map s)))"

definition boot_ok :: "(u64 \<Rightarrow> 'frame result) \<Rightarrow> nat \<Rightarrow> boot_info_frame_allocator \<Rightarrow> bool" where
  "boot_ok frame_of n s =
     (unat (fa_next s) + n < 2 ^ 64 \<and>
      list_all (\<lambda>a. is_ok (frame_of a)) (usable_frame_addresses (fa_memory_map s)))"

lemma frames_nth_ok:
  "list_all (\<lambda>a. is_ok (frame_of a)) as \<Longrightarrow>
   frames_nth frame_of as n = Inr (if n < length as then Some (projr (frame_of (as ! n))) else None)"
proof (induction frame_of as n rule: frames_nth.induct)
  case (1 frame_of n)
  then show ?case by simp
next
  case (2 frame_of a as)
  then have "frame_of a = Inr (projr (frame_of a))" by (intro is_ok_projr) simp
  then obtain f where "frame_of a = Inr f" by blast
  then show ?case by simp
next
  case (3 frame_of a as n)
  then have "frame_of a = Inr (projr (frame_of a))" by (intro is_ok_projr) simp
  then obtain f where "frame_of a = Inr f" by blast
  with 3 show ?case by simp
qed

interpretation boot_frames: frame_source "allocate_frame frame_of" "boot_avail frame_of" "boot_ok frame_of"
  for frame_of :: "u64 \<Rightarrow> 'frame result"
proof
  fix n and s :: boot_info_frame_allocator
  assume ok: "boot_ok frame_of (Suc n) s"
  define addrs where "addrs = usable_frame_addresses (fa_memory_map s)"
  have nx: "unat (fa_next s) + unat (1::usize) < 2 ^ LENGTH(64)" using ok by (simp add: boot_ok_def)
  then have n1: "add_chk (fa_next s) 1 = Inr (fa_next s + 1)"
    and u1: "unat (fa_next s + 1) = Suc (unat (fa_next s))"
    using unat_add_ok [OF nx] by (simp_all add: add_chk_def)
  have "frames_nth frame_of addrs (unat (fa_next s)) =
      Inr (if unat (fa_next s) < length addrs then Some (projr (frame_of (addrs ! unat (fa_next s)))) else None)"
    by (rule frames_nth_ok) (use ok in \<open>simp add: boot_ok_def addrs_def\<close>)
  also have "\<dots> = Inr (case boot_avail frame_of s of [] \<Rightarrow> None | f # _ \<Rightarrow> Some f)"
    by (cases "unat (fa_next s) < length addrs")
       (simp_all add: boot_avail_def addrs_def [symmetric] Cons_nth_drop_Suc [symmetric])
  finally have "allocate_frame frame_of s =
      Inr (s\<lparr>fa_next := fa_next s + 1\<rparr>, case boot_avail frame_of s of [] \<Rightarrow> None | f # _ \<Rightarrow> Some f)"
    using n1 by (simp add: allocate_frame_def addrs_def)
  moreover have "boot_avail frame_of (s\<lparr>fa_next := fa_next s + 1\<rparr>) = tl (boot_avail frame_of s)"
    using u1 by (simp add: boot_avail_def map_tl [symmetric] drop_Suc tl_drop)
  moreover have "boot_ok frame_of n (s\<lparr>fa_next := fa_next s + 1\<rparr>)"
    using ok u1 by (simp add: boot_ok_def)
  ultimately show "\<exists>s'. allocate_frame frame_of s =
        Inr (s', case boot_avail frame_of s of [] \<Rightarrow> None | f # _ \<Rightarrow> Some f) \<and>
      boot_avail frame_of s' = tl (boot_avail frame_of s) \<and> boot_ok frame_of n s'"
    by blast
qed

section \<open>Frames of a memory map\<close>

definition region_extent_of :: "memory_region \<Rightarrow> extent" where
  "region_extent_of r = (unat (region_start_addr r), unat (region_end_addr r) - unat (region_start_addr r))"

definition frame_extent :: "u64 \<Rightarrow> extent" where
  "frame_extent a = (unat a, 4096)"

text \<open>What the bootloader documents of its map: regions are whole frames and do not overlap.\<close>

definition map_ok :: "memory_map \<Rightarrow> bool" where
  "map_ok m =
     (list_all (\<lambda>r. region_start_addr r \<le> region_end_addr r \<and> 4096 dvd unat (region_start_addr r) \<and>
                    4096 dvd unat (region_end_addr r)) m \<and>
      all_apart (map region_extent_of m))"

lemma range_step_by_bounds:
  fixes a b :: u64
  assumes "a \<le> b" and "4096 dvd unat a" and "4096 dvd unat b" and "k < (unat b - unat a + 4096 - 1) div 4096"
  shows "unat (a + of_nat (k * 4096)) = unat a + k * 4096" and "unat a + k * 4096 + 4096 \<le> unat b"
proof -
  have "unat a \<le> unat b" using assms(1) by (simp add: word_le_nat_alt)
  moreover obtain x y where x: "unat a = 4096 * x" and y: "unat b = 4096 * y"
    using assms(2,3) by (auto elim!: dvdE)
  ultimately have "k < y - x" using assms(4) by simp
  then show le: "unat a + k * 4096 + 4096 \<le> unat b" using x y by simp
  have "unat a + k * 4096 < 2 ^ 64" using le unat_lt_usize [of b] by simp
  moreover from this have "unat (of_nat (k * 4096) :: u64) = k * 4096"
    by (subst unat_of_nat, intro mod_less) simp
  ultimately show "unat (a + of_nat (k * 4096)) = unat a + k * 4096"
    by (subst unat_add_ok) simp_all
qed

lemma range_step_by_frames:
  assumes "a \<le> b" and "4096 dvd unat a" and "4096 dvd unat b"
  shows "all_apart (map frame_extent (range_step_by a b 4096))"
    and "x \<in> set (range_step_by a b 4096) \<Longrightarrow> unat a \<le> unat x \<and> unat x + 4096 \<le> unat b"
proof -
  define c where "c = (unat b - unat a + 4096 - 1) div 4096"
  have u: "unat (a + of_nat k * 4096) = unat a + k * 4096" if "k < c" for k
    using range_step_by_bounds(1) [OF assms, of k] that by (simp add: c_def)
  have "sorted_wrt apart (map frame_extent (range_step_by a b 4096))"
    unfolding range_step_by_def c_def [symmetric] sorted_wrt_iff_nth_less
    by (auto simp: frame_extent_def apart_def u)
  then show "all_apart (map frame_extent (range_step_by a b 4096))" by (simp add: all_apart_def)
  show "unat a \<le> unat x \<and> unat x + 4096 \<le> unat b" if "x \<in> set (range_step_by a b 4096)"
    using that range_step_by_bounds [OF assms] by (auto simp: range_step_by_def)
qed

lemma usable_frame_addresses_Cons:
  "usable_frame_addresses (r # m) =
     (if region_usable r then range_step_by (region_start_addr r) (region_end_addr r) 4096 else []) @
     usable_frame_addresses m"
  by (simp add: usable_frame_addresses_def Let_def)

lemma usable_frames_in_region:
  assumes "map_ok m" and "a \<in> set (usable_frame_addresses m)"
  shows "\<exists>r\<in>set m. region_usable r \<and> unat (region_start_addr r) \<le> unat a \<and> unat a + 4096 \<le> unat (region_end_addr r)"
  using assms range_step_by_frames(2)
  by (fastforce simp: usable_frame_addresses_def Let_def map_ok_def list_all_iff)

lemma usable_frames_apart: "map_ok m \<Longrightarrow> all_apart (map frame_extent (usable_frame_addresses m))"
proof (induction m)
  case Nil
  then show ?case by (simp add: usable_frame_addresses_def)
next
  case (Cons r m)
  from Cons.prems have m: "map_ok m" and r: "region_start_addr r \<le> region_end_addr r"
    "4096 dvd unat (region_start_addr r)" "4096 dvd unat (region_end_addr r)"
    and ap: "\<And>q. q \<in> set m \<Longrightarrow> apart (region_extent_of r) (region_extent_of q)"
    by (auto simp: map_ok_def)
  have "apart (frame_extent x) (frame_extent y)"
    if x: "x \<in> set (range_step_by (region_start_addr r) (region_end_addr r) 4096)"
      and y: "y \<in> set (usable_frame_addresses m)" for x y
  proof -
    from usable_frames_in_region [OF m y] obtain q where q: "q \<in> set m"
      "unat (region_start_addr q) \<le> unat y" "unat y + 4096 \<le> unat (region_end_addr q)"
      by blast
    with ap [OF q(1)] range_step_by_frames(2) [OF r x] show ?thesis
      by (auto simp: apart_def frame_extent_def region_extent_of_def)
  qed
  then show ?case
    using Cons.IH [OF m] range_step_by_frames(1) [OF r]
    by (auto simp: usable_frame_addresses_Cons all_apart_append)
qed

section \<open>Properties\<close>

text \<open>C27 (frame_sequence): although every call walks the memory map again from its start, \<open>n\<close>
  calls on a fresh allocator return the first \<open>n\<close> frames of the usable regions in the order of
  the map, each once, and \<open>None\<close> from then on.\<close>

theorem frame_sequence:
  fixes frame_of :: "u64 \<Rightarrow> 'frame result"
  assumes "\<And>a. a \<in> set (usable_frame_addresses m) \<Longrightarrow> frame_of a = Inr (F a)" and "n < 2 ^ 64"
  shows "\<exists>s. allocate_many (allocate_frame frame_of) n (boot_info_init m) =
           Inr (s, map (\<lambda>a. Some (F a)) (take n (usable_frame_addresses m)) @
                   replicate (n - length (usable_frame_addresses m)) None)"
proof -
  have "boot_ok frame_of n (boot_info_init m)"
    using assms by (auto simp: boot_ok_def boot_info_init_def list_all_iff is_ok_def)
  from boot_frames.allocate_many_ok [OF this]
  obtain s where "allocate_many (allocate_frame frame_of) n (boot_info_init m) =
      Inr (s, map Some (take n (boot_avail frame_of (boot_info_init m))) @
              replicate (n - length (boot_avail frame_of (boot_info_init m))) None)"
    by blast
  moreover have "boot_avail frame_of (boot_info_init m) = map F (usable_frame_addresses m)"
    using assms(1) by (simp add: boot_avail_def boot_info_init_def)
  ultimately show ?thesis by (simp add: take_map)
qed

definition demo_map :: memory_map where
  "demo_map = [\<lparr>region_start_addr = 0, region_end_addr = 4096, region_usable = False\<rparr>,
               \<lparr>region_start_addr = 4096, region_end_addr = 12288, region_usable = True\<rparr>,
               \<lparr>region_start_addr = 65536, region_end_addr = 69632, region_usable = True\<rparr>]"

lemma demo_map_frames: "usable_frame_addresses demo_map = [4096, 8192, 65536]"
  by (simp add: usable_frame_addresses_def demo_map_def range_step_by_def Let_def upt_rec)

theorem frame_sequence_witness:
  "\<exists>s. allocate_many (allocate_frame (\<lambda>a. Inr (unat a div 4096))) 4 (boot_info_init demo_map) =
     Inr (s, [Some 1, Some 2, Some 16, None])"
  using frame_sequence [of demo_map "\<lambda>a. Inr (unat a div 4096)" "\<lambda>a. unat a div 4096" 4]
  by (simp add: demo_map_frames)

text \<open>C28 (frames_disjoint): the frames taken from a well-formed memory map lie inside usable regions
  and no two of them overlap, so no physical byte is handed out twice.\<close>

theorem frames_disjoint:
  assumes "map_ok m"
  shows "all_apart (map frame_extent (usable_frame_addresses m)) \<and>
         (\<forall>a\<in>set (usable_frame_addresses m). \<exists>r\<in>set m. region_usable r \<and>
            unat (region_start_addr r) \<le> unat a \<and> unat a + 4096 \<le> unat (region_end_addr r))"
  using usable_frames_apart [OF assms] usable_frames_in_region [OF assms] by blast

theorem frames_disjoint_witness:
  "map_ok demo_map \<and> all_apart (map frame_extent [4096, 8192, 65536])"
proof -
  have "map_ok demo_map" by (simp add: map_ok_def demo_map_def region_extent_of_def apart_def)
  with frames_disjoint [OF this] show ?thesis by (simp add: demo_map_frames)
qed

lemma frames_nth_fail:
  "k < length as \<Longrightarrow> frame_of (as ! k) = Inl e \<Longrightarrow> list_all (\<lambda>a. is_ok (frame_of a)) (take k as) \<Longrightarrow>
   k \<le> n \<Longrightarrow> frames_nth frame_of as n = Inl e"
proof (induction k arbitrary: as n)
  case 0
  then show ?case by (cases as; cases n) auto
next
  case (Suc k)
  then obtain a as' n' where as: "as = a # as'" "n = Suc n'" by (cases as; cases n) auto
  then have "frame_of a = Inr (projr (frame_of a))" using Suc.prems(3) by (intro is_ok_projr) simp
  then obtain f where "frame_of a = Inr f" by blast
  with Suc as show ?case by simp
qed

lemma frames_nth_before:
  "k \<le> length as \<Longrightarrow> list_all (\<lambda>a. is_ok (frame_of a)) (take k as) \<Longrightarrow> n < k \<Longrightarrow>
   frames_nth frame_of as n = Inr (Some (projr (frame_of (as ! n))))"
proof (induction k arbitrary: as n)
  case 0
  then show ?case by simp
next
  case (Suc k)
  then obtain a as' where as: "as = a # as'" by (cases as) auto
  then have "frame_of a = Inr (projr (frame_of a))" using Suc.prems(2) by (intro is_ok_projr) simp
  then obtain f where "frame_of a = Inr f" by blast
  with Suc as show ?case by (cases n) auto
qed

text \<open>When the address of some frame is rejected, every allocation before it
  succeeds and every allocation from it on fails with the same panic, because each call builds
  all earlier frames again.\<close>

theorem frame_panic_sticks:
  assumes "k < length (usable_frame_addresses (fa_memory_map s))"
    and "frame_of (usable_frame_addresses (fa_memory_map s) ! k) = Inl e"
    and "\<And>a. a \<in> set (take k (usable_frame_addresses (fa_memory_map s))) \<Longrightarrow> frame_of a = Inr (F a)"
    and "unat (fa_next s) + 1 < 2 ^ 64"
  shows "if unat (fa_next s) < k
         then \<exists>s'. allocate_frame frame_of s =
                Inr (s', Some (F (usable_frame_addresses (fa_memory_map s) ! unat (fa_next s))))
         else allocate_frame frame_of s = Inl e"
proof -
  let ?as = "usable_frame_addresses (fa_memory_map s)"
  have pre: "list_all (\<lambda>a. is_ok (frame_of a)) (take k ?as)"
    using assms(3) by (auto simp: list_all_iff is_ok_def)
  show ?thesis
  proof (cases "unat (fa_next s) < k")
    case True
    then have "?as ! unat (fa_next s) \<in> set (take k ?as)"
      using assms(1) by (metis in_set_conv_nth length_take min.absorb4 nth_take)
    then have "frame_of (?as ! unat (fa_next s)) = Inr (F (?as ! unat (fa_next s)))" by (rule assms(3))
    moreover have "frames_nth frame_of ?as (unat (fa_next s)) = Inr (Some (projr (frame_of (?as ! unat (fa_next s)))))"
      using assms(1) pre True by (intro frames_nth_before) simp_all
    moreover have "add_chk (fa_next s) 1 = Inr (fa_next s + 1)" using assms(4) by (simp add: add_chk_def)
    ultimately show ?thesis using True by (simp add: allocate_frame_def)
  next
    case False
    then have "frames_nth frame_of ?as (unat (fa_next s)) = Inl e"
      using assms(1,2) pre by (intro frames_nth_fail) (simp_all add: not_less)
    with False show ?thesis by (simp add: allocate_frame_def)
  qed
qed

theorem frame_panic_sticks_witness:
  "allocate_frame (\<lambda>a. if a = 8192 then Inl (Panic UnwrapFailed) else Inr a)
     \<lparr>fa_memory_map = demo_map, fa_next = 2\<rparr> = Inl (Panic UnwrapFailed)"
  using frame_panic_sticks [of 1 "\<lparr>fa_memory_map = demo_map, fa_next = 2\<rparr>"
      "\<lambda>a. if a = 8192 then Inl (Panic UnwrapFailed) else Inr a" "Panic UnwrapFailed" "\<lambda>a. a"]
  by (simp add: demo_map_frames)

end
