(* ===== verification/Interrupts.thy ===== *)
theory Interrupts
  imports Scheduler Vga_Buffer Frame_Allocator
begin

text \<open>
  Interrupts (\<^verbatim>\<open>interrupt/mod.rs\<close>, \<^verbatim>\<open>interrupt/handlers.rs\<close>): vectors, descriptor table, timer
  programming, and every handler. The two naked handlers are modelled instruction by instruction on
  the processor of \<^verbatim>\<open>X86_Machine\<close>; what a call of a compiled Rust function does to registers and to the
  stack below the stack pointer is the parameter \<open>abi\<close>. The interrupt controllers, the page-table
  mapper and the \<^verbatim>\<open>Debug\<close> output of the crates' types are parameters as well.
\<close>

section \<open>Vectors and the descriptor table\<close>

definition PIC_1_OFFSET :: u8 where
  "PIC_1_OFFSET = 32"

definition PIC_2_OFFSET :: u8 where
  "PIC_2_OFFSET = PIC_1_OFFSET + 8"

datatype InterruptIndex = Yield | Timer | Keyboard

fun as_u8 :: "InterruptIndex \<Rightarrow> u8" where
  "as_u8 Yield = 0x30"
| "as_u8 Timer = PIC_1_OFFSET"
| "as_u8 Keyboard = PIC_1_OFFSET + 1"

definition as_usize :: "InterruptIndex \<Rightarrow> nat" where
  "as_usize i = unat (as_u8 i)"

definition YIELD_INTERRUPT_VECTOR :: u8 where
  "YIELD_INTERRUPT_VECTOR = 0x30"

datatype handler_fn = BreakpointHandler | PageFaultHandler | DoubleFaultHandler
  | TimerInterruptHandler | KeyboardInterruptHandler | SoftwareYieldHandler

record gate =
  gate_handler :: handler_fn
  gate_stack_index :: "u16 option"

definition DOUBLE_FAULT_IST_INDEX :: u16 where
  "DOUBLE_FAULT_IST_INDEX = 0"

definition set_handler_fn :: "handler_fn \<Rightarrow> gate" where
  "set_handler_fn h = \<lparr>gate_handler = h, gate_stack_index = None\<rparr>"

text \<open>The exceptions 3, 14 and 8 are the architecture's breakpoint, page fault and double fault.\<close>

definition IDT :: "nat \<rightharpoonup> gate" where
  "IDT = (\<lambda>_. None)
     (3 \<mapsto> set_handler_fn BreakpointHandler,
      14 \<mapsto> set_handler_fn PageFaultHandler,
      8 \<mapsto> (set_handler_fn DoubleFaultHandler)\<lparr>gate_stack_index := Some DOUBLE_FAULT_IST_INDEX\<rparr>,
      as_usize Timer \<mapsto> set_handler_fn TimerInterruptHandler,
      as_usize Keyboard \<mapsto> set_handler_fn KeyboardInterruptHandler,
      as_usize Yield \<mapsto> set_handler_fn SoftwareYieldHandler)"

section \<open>Devices\<close>

text \<open>
  \<open>PICS\<close> and \<open>WRITER\<close> are the globals of that name; \<open>devices\<close> is the hardware behind the ports,
  \<open>idt_loaded\<close> and \<open>irq_enabled\<close> the processor's table register and interrupt flag during start-up.
\<close>

record ('p, 'd) platform =
  PICS :: "'p mutex"
  WRITER :: "writer mutex"
  devices :: 'd
  idt_loaded :: "(nat \<rightharpoonup> gate) option"
  irq_enabled :: bool

definition init_pit :: "'d ports \<Rightarrow> 'd \<Rightarrow> 'd" where
  "init_pit io d =
     (let d = out8 io 0x43 0x36 d;
          divisor = 11931 :: u16;
          d = out8 io 0x40 (ucast (divisor AND 0xFF)) d
      in out8 io 0x40 (ucast (drop_bit 8 divisor)) d)"

text \<open>\<open>pics_initialize\<close> is \<^verbatim>\<open>ChainedPics::initialize\<close>.\<close>

definition init_idt :: "'d ports \<Rightarrow> ('p \<Rightarrow> 'p) \<Rightarrow> ('p, 'd) platform \<Rightarrow> ('p, 'd) platform result" where
  "init_idt io pics_initialize pl =
     (let pl = pl\<lparr>idt_loaded := Some IDT\<rparr> in
      and_then (mutex_lock (PICS pl)) (\<lambda>p.
      let pl = pl\<lparr>PICS := (PICS pl)\<lparr>inner := pics_initialize p\<rparr>\<rparr>;
          pl = pl\<lparr>devices := init_pit io (devices pl)\<rparr>
      in Inr (pl\<lparr>irq_enabled := True\<rparr>)))"

text \<open>Text as the bytes of its characters, and a byte in decimal.\<close>

definition bytes_of :: "string \<Rightarrow> u8 list" where
  "bytes_of s = map of_char s"

fun decimal :: "nat \<Rightarrow> u8 list" where
  "decimal n = (if n < 10 then [48 + of_nat n] else decimal (n div 10) @ [48 + of_nat (n mod 10)])"

text \<open>
  \<^verbatim>\<open>without_interrupts\<close> as the \<^verbatim>\<open>x86_64\<close> crate documents it: the closure runs with interrupts masked,
  and they are unmasked afterwards if they were unmasked before. \<open>print\<close> is \<^verbatim>\<open>_print\<close>.
\<close>

definition without_interrupts ::
  "(('p, 'd) platform \<Rightarrow> ('p, 'd) platform result) \<Rightarrow> ('p, 'd) platform \<Rightarrow> ('p, 'd) platform result" where
  "without_interrupts f pl =
     and_then (f (pl\<lparr>irq_enabled := False\<rparr>)) (\<lambda>pl'.
     Inr (if irq_enabled pl then pl'\<lparr>irq_enabled := True\<rparr> else pl'))"

definition print :: "u8 list list \<Rightarrow> ('p, 'd) platform \<Rightarrow> ('p, 'd) platform result" where
  "print args = without_interrupts (\<lambda>pl. and_then (print_args args (WRITER pl)) (\<lambda>w. Inr (pl\<lparr>WRITER := w\<rparr>)))"

definition println :: "u8 list list \<Rightarrow> ('p, 'd) platform \<Rightarrow> ('p, 'd) platform result" where
  "println args = print (args @ [[0x0A]])"

lemma print_eq: "print args pl = and_then (print_args args (WRITER pl)) (\<lambda>w. Inr (pl\<lparr>WRITER := w\<rparr>))"
  by (cases "print_args args (WRITER pl)") (simp_all add: print_def without_interrupts_def)

definition end_of_interrupt :: "(u8 \<Rightarrow> 'p \<Rightarrow> 'p) \<Rightarrow> InterruptIndex \<Rightarrow> ('p, 'd) platform \<Rightarrow> ('p, 'd) platform result" where
  "end_of_interrupt notify i pl =
     and_then (mutex_lock (PICS pl)) (\<lambda>p. Inr (pl\<lparr>PICS := (PICS pl)\<lparr>inner := notify (as_u8 i) p\<rparr>\<rparr>))"

definition signal_eoi :: "(u8 \<Rightarrow> 'p \<Rightarrow> 'p) \<Rightarrow> ('p, 'd) platform \<Rightarrow> ('p, 'd) platform result" where
  "signal_eoi notify pl = end_of_interrupt notify Timer pl"

definition handle_keyboard_io_and_eoi ::
  "'d ports \<Rightarrow> (u8 \<Rightarrow> 'p \<Rightarrow> 'p) \<Rightarrow> ('p, 'd) platform \<Rightarrow> ('p, 'd) platform result" where
  "handle_keyboard_io_and_eoi io notify pl =
     (let (scancode, d) = in8 io 0x60 (devices pl);
          pl = pl\<lparr>devices := d\<rparr> in
      and_then (println [bytes_of ''Keyboard pressed! Scancode: '', decimal (unat scancode),
                         bytes_of ''. Switching process...''] pl) (\<lambda>pl.
      end_of_interrupt notify Keyboard pl))"

section \<open>Exceptions\<close>

text \<open>\<open>frame_text\<close> is the \<^verbatim>\<open>Debug\<close> rendering of the interrupt stack frame.\<close>

definition breakpoint_handler :: "u8 list list \<Rightarrow> ('p, 'd) platform \<Rightarrow> ('p, 'd) platform result" where
  "breakpoint_handler frame_text pl = println ([bytes_of ''EXCEPTION: BREAKPOINT'' @ [0x0A]] @ frame_text) pl"

definition double_fault_handler :: "('p, 'd) platform \<Rightarrow> 'a result" where
  "double_fault_handler pl = Inl (Panic (ExplicitPanic ''EXCEPTION: DOUBLE FAULT''))"

datatype page_table_flag = PRESENT | WRITABLE

text \<open>The globals \<^verbatim>\<open>MAPPER\<close> and \<^verbatim>\<open>FRAME_ALLOCATOR\<close>, and the pages whose translation was flushed.\<close>

record ('m, 'page) paging =
  MAPPER :: "'m option mutex"
  FRAME_ALLOCATOR :: "boot_info_frame_allocator option mutex"
  flushed :: "'page list"

text \<open>
  \<^verbatim>\<open>Mapper::map_to\<close>: it may take frames for page tables from the allocator it is given, and says
  whether the page is mapped.
\<close>

type_synonym ('m, 'page, 'frame) map_to =
  "'page \<Rightarrow> 'frame \<Rightarrow> page_table_flag list \<Rightarrow> 'm \<Rightarrow> boot_info_frame_allocator \<Rightarrow>
   ('m \<times> boot_info_frame_allocator \<times> bool) result"

definition in_heap :: "u64 \<Rightarrow> bool" where
  "in_heap a = (HEAP_START \<le> a \<and> a < HEAP_START + HEAP_SIZE)"

text \<open>
  The attempt to resolve the fault; the flag says whether the handler returns to the faulting
  instruction. The two guards live until the end of the block.
\<close>

definition page_fault_resolve ::
  "(u64 \<Rightarrow> 'frame result) \<Rightarrow> (u64 \<Rightarrow> 'page) \<Rightarrow> ('m, 'page, 'frame) map_to \<Rightarrow> u64 \<Rightarrow>
   ('m, 'page) paging \<Rightarrow> (('m, 'page) paging \<times> bool) result" where
  "page_fault_resolve frame_of page_of map_to accessed_address pg =
     (if in_heap accessed_address then
        and_then (mutex_lock (MAPPER pg)) (\<lambda>mapper_lock.
        and_then (mutex_lock (FRAME_ALLOCATOR pg)) (\<lambda>frame_allocator_lock.
        case (mapper_lock, frame_allocator_lock) of
          (Some mapper, Some frame_allocator) \<Rightarrow>
            let page = page_of accessed_address in
            and_then (allocate_frame frame_of frame_allocator) (\<lambda>(fa1, allocated).
            case allocated of
              None \<Rightarrow> Inr (pg\<lparr>FRAME_ALLOCATOR := (FRAME_ALLOCATOR pg)\<lparr>inner := Some fa1\<rparr>\<rparr>, False)
            | Some frame \<Rightarrow>
                and_then (map_to page frame [PRESENT, WRITABLE] mapper fa1) (\<lambda>(mapper', fa2, ok).
                let pg' = pg\<lparr>MAPPER := (MAPPER pg)\<lparr>inner := Some mapper'\<rparr>,
                             FRAME_ALLOCATOR := (FRAME_ALLOCATOR pg)\<lparr>inner := Some fa2\<rparr>\<rparr>
                in if ok then Inr (pg'\<lparr>flushed := flushed pg' @ [page]\<rparr>, True) else Inr (pg', False)))
        | _ \<Rightarrow> Inr (pg, False)))
      else Inr (pg, False))"

text \<open>\<open>texts\<close> renders the address, the error code and the stack frame.\<close>

definition page_fault_handler ::
  "(u64 \<Rightarrow> 'frame result) \<Rightarrow> (u64 \<Rightarrow> 'page) \<Rightarrow> ('m, 'page, 'frame) map_to \<Rightarrow>
   u8 list list \<times> u8 list list \<times> u8 list list \<Rightarrow> u64 \<Rightarrow>
   ('m, 'page) paging \<times> ('p, 'd) platform \<Rightarrow> (('m, 'page) paging \<times> ('p, 'd) platform) result" where
  "page_fault_handler frame_of page_of map_to texts accessed_address = (\<lambda>(pg, pl).
     let (address_text, code_text, frame_text) = texts in
     and_then (page_fault_resolve frame_of page_of map_to accessed_address pg) (\<lambda>(pg, returned).
     if returned then Inr (pg, pl)
     else
       and_then (println [bytes_of ''EXCEPTION: PAGE FAULT''] pl) (\<lambda>pl.
       and_then (println ([bytes_of ''Accessed Address: ''] @ address_text) pl) (\<lambda>pl.
       and_then (println ([bytes_of ''Error Code: ''] @ code_text) pl) (\<lambda>pl.
       and_then (println frame_text pl) (\<lambda>pl.
       Inl (Panic (ExplicitPanic ''Unhandled Page Fault''))))))))"

section \<open>The naked handlers\<close>

text \<open>The compiled functions the handlers call.\<close>

datatype callee = SignalEoi | HandleKeyboardIoAndEoi | PreemptRoundRobin | PreemptBridge | ContextSwitchEntry

type_synonym abi = "callee \<Rightarrow> cpu \<Rightarrow> cpu"

definition save_order :: "reg list" where
  "save_order = [RBP, R15, R14, R13, R12, R11, R10, R9, R8, RDI, RSI, RDX, RCX, RBX, RAX]"

definition restore_order :: "reg list" where
  "restore_order = [RAX, RBX, RCX, RDX, RSI, RDI, R8, R9, R10, R11, R12, R13, R14, R15, RBP]"

definition set_reg :: "reg \<Rightarrow> u64 \<Rightarrow> cpu \<Rightarrow> cpu" where
  "set_reg r v c = c\<lparr>regs := (regs c)(r := v)\<rparr>"

definition timer_interrupt_handler ::
  "abi \<Rightarrow> (u8 \<Rightarrow> 'p \<Rightarrow> 'p) \<Rightarrow> kernel \<times> ('p, 'd) platform \<times> cpu \<Rightarrow> (kernel \<times> ('p, 'd) platform \<times> cpu) result" where
  "timer_interrupt_handler abi notify = (\<lambda>(k, pl, c).
     let c = fold push_reg save_order c in
     and_then (signal_eoi notify pl) (\<lambda>pl.
     let c = abi SignalEoi c;
         c = set_reg RDI (regs c RSP) c in
     and_then (preempt_round_robin (regs c RDI) k) (\<lambda>(rax, k).
     let c = set_reg RAX rax (abi PreemptRoundRobin c);
         c = set_reg RSP (regs c RAX) c;
         c = fold pop_reg restore_order c
     in Inr (k, pl, iretq c))))"

definition keyboard_interrupt_handler ::
  "abi \<Rightarrow> 'd ports \<Rightarrow> (u8 \<Rightarrow> 'p \<Rightarrow> 'p) \<Rightarrow> kernel \<times> ('p, 'd) platform \<times> cpu \<Rightarrow>
   (kernel \<times> ('p, 'd) platform \<times> cpu) result" where
  "keyboard_interrupt_handler abi io notify = (\<lambda>(k, pl, c).
     let c = fold push_reg save_order c in
     and_then (handle_keyboard_io_and_eoi io notify pl) (\<lambda>pl.
     let c = abi HandleKeyboardIoAndEoi c;
         c = set_reg RDI (regs c RSP) c in
     and_then (preempt_round_robin (regs c RDI) k) (\<lambda>(rax, k).
     let c = set_reg RAX rax (abi PreemptRoundRobin c);
         c = set_reg RSP (regs c RAX) c;
         c = fold pop_reg restore_order c
     in Inr (k, pl, iretq c))))"

definition preempt_bridge :: "kernel \<Rightarrow> cpu \<Rightarrow> (kernel \<times> outcome) result" where
  "preempt_bridge k c = yield_now k c"

text \<open>
  \<^verbatim>\<open>call preempt_bridge; iretq\<close>. \<open>abi ContextSwitchEntry c\<close> is the processor when the calls below the
  bridge have reached \<^verbatim>\<open>context_switch\<close>, \<open>abi PreemptBridge c\<close> when the bridge has returned at once. After
  a switch the handler continues only when someone switches back.
\<close>

definition software_yield_handler :: "abi \<Rightarrow> kernel \<times> cpu \<Rightarrow> (kernel \<times> outcome) result" where
  "software_yield_handler abi = (\<lambda>(k, c).
     and_then (preempt_bridge k (abi ContextSwitchEntry c)) (\<lambda>(k, out).
     case out of Stayed _ \<Rightarrow> Inr (k, Stayed (iretq (abi PreemptBridge c))) | Switched c' \<Rightarrow> Inr (k, Switched c')))"

declare decimal.simps [simp del]

section \<open>Saving and restoring the processor\<close>

text \<open>
  The twenty quadwords of a saved process, in the order of ascending addresses, and the same list
  for a running processor: they are everything an interrupted computation can observe but memory.
\<close>

definition arch :: "cpu \<Rightarrow> u64 list" where
  "arch c = map (regs c) restore_order @ [rip c, cs c, rflags c, regs c RSP, ss c]"

lemma length_arch [simp]: "length (arch c) = 20"
  by (simp add: arch_def restore_order_def)

lemma arch_eq_iff:
  "arch c = arch c' \<longleftrightarrow>
   regs c = regs c' \<and> rip c = rip c' \<and> cs c = cs c' \<and> rflags c = rflags c' \<and> ss c = ss c'"
proof
  assume eq: "arch c = arch c'"
  have "regs c r = regs c' r" for r
    using eq by (cases r) (simp_all add: arch_def restore_order_def)
  then show "regs c = regs c' \<and> rip c = rip c' \<and> cs c = cs c' \<and> rflags c = rflags c' \<and> ss c = ss c'"
    using eq by (auto simp: arch_def restore_order_def)
qed (simp add: arch_def)

lemma fold_push:
  "regs (fold push vs c) = (regs c)(RSP := fst (fold poke vs (regs c RSP, mem c)))"
  "mem (fold push vs c) = snd (fold poke vs (regs c RSP, mem c))"
  "rip (fold push vs c) = rip c" "rflags (fold push vs c) = rflags c"
  "cs (fold push vs c) = cs c" "ss (fold push vs c) = ss c"
  by (induction vs arbitrary: c) (auto simp: poke_def fun_eq_iff)

lemma fold_push_reg:
  "RSP \<notin> set rs \<Longrightarrow> fold push_reg rs c = fold push (map (regs c) rs) c"
proof (induction rs arbitrary: c)
  case Nil
  then show ?case by simp
next
  case (Cons r rs)
  have m: "map (regs (push (regs c r) c)) rs = map (regs c) rs" using Cons.prems by auto
  have "fold push_reg rs (push (regs c r) c) = fold push (map (regs c) rs) (push (regs c r) c)"
    using Cons.IH [of "push (regs c r) c"] Cons.prems unfolding m by simp
  then show ?case by (simp add: push_reg_def [of r c])
qed

text \<open>The stack pointer after the interrupt frame and the fifteen registers have been pushed.\<close>

definition frame_pointer :: "cpu \<Rightarrow> u64" where
  "frame_pointer c = (regs c RSP AND NOT 15) - 160"

lemma saved_frame:
  assumes "c' = fold push_reg save_order (deliver h c)"
  shows "regs c' RSP = frame_pointer c" "stored (mem c') (frame_pointer c) (arch c)"
    "\<And>x. \<not> in_range (frame_pointer c) 160 x \<Longrightarrow> mem c' x = mem c x"
proof -
  let ?a = "regs c RSP AND NOT 15"
  let ?vs1 = "[ss c, regs c RSP, rflags c, cs c, rip c]"
  let ?vs2 = "map (regs c) save_order"
  let ?c1 = "c\<lparr>regs := (regs c)(RSP := ?a)\<rparr>"
  have d: "regs (deliver h c) = regs (fold push ?vs1 ?c1)" "mem (deliver h c) = mem (fold push ?vs1 ?c1)"
    by (simp_all add: deliver_def Let_def)
  have m: "map (regs (deliver h c)) save_order = ?vs2"
    unfolding d fold_push by (simp add: save_order_def)
  have c': "c' = fold push ?vs2 (deliver h c)"
    unfolding assms m [symmetric] by (rule fold_push_reg) (simp add: save_order_def)
  have pm: "(regs c' RSP, mem c') = fold poke (?vs1 @ ?vs2) (?a, mem c)"
    unfolding c' fold_push d by (simp add: fold_push del: fold_simps)
  have len: "length (?vs1 @ ?vs2) = 20" by (simp add: save_order_def)
  have r: "rev (?vs1 @ ?vs2) = arch c" by (simp add: arch_def save_order_def restore_order_def)
  obtain m' where m': "fold poke (?vs1 @ ?vs2) (?a, mem c) = (?a - of_nat (8 * 20), m')"
    "stored m' (?a - of_nat (8 * 20)) (rev (?vs1 @ ?vs2) @ [])"
    "\<forall>x. \<not> in_range (?a - of_nat (8 * 20)) (8 * 20) x \<longrightarrow> m' x = mem c x"
    using fold_poke [of "mem c" ?a "[]" "?vs1 @ ?vs2"] unfolding len by auto
  show "regs c' RSP = frame_pointer c" "stored (mem c') (frame_pointer c) (arch c)"
    using pm m'(1,2) unfolding r by (simp_all add: frame_pointer_def)
  show "mem c' x = mem c x" if "\<not> in_range (frame_pointer c) 160 x" for x
    using pm m'(1,3) that by (simp add: frame_pointer_def)
qed

lemma fold_pop_reg:
  "RSP \<notin> set rs \<Longrightarrow> distinct rs \<Longrightarrow>
   mem (fold pop_reg rs c) = mem c \<and> rip (fold pop_reg rs c) = rip c \<and>
   regs (fold pop_reg rs c) RSP = regs c RSP + of_nat (8 * length rs) \<and>
   (\<forall>r. r \<noteq> RSP \<longrightarrow> r \<notin> set rs \<longrightarrow> regs (fold pop_reg rs c) r = regs c r) \<and>
   (\<forall>i<length rs. regs (fold pop_reg rs c) (rs ! i) = load64 (mem c) (regs c RSP + of_nat (8 * i)))"
proof (induction rs arbitrary: c)
  case Nil
  then show ?case by simp
next
  case (Cons r rs)
  let ?c = "pop_reg r c"
  have c: "mem ?c = mem c" "rip ?c = rip c" "regs ?c RSP = regs c RSP + 8"
    "regs ?c r = load64 (mem c) (regs c RSP)" "\<And>q. q \<noteq> r \<Longrightarrow> q \<noteq> RSP \<Longrightarrow> regs ?c q = regs c q"
    using Cons.prems by (auto simp: pop_reg_def)
  note ih = Cons.IH [of ?c]
  have "regs (fold pop_reg rs ?c) ((r # rs) ! i) = load64 (mem c) (regs c RSP + of_nat (8 * i))"
    if "i < length (r # rs)" for i
    using that ih Cons.prems c by (cases i) (auto simp: algebra_simps)
  then show ?case using ih Cons.prems c by (auto simp: algebra_simps)
qed

lemma restored_frame:
  assumes "stored (mem c) (regs c RSP) vs" and "length vs = 20" and "c' = iretq (fold pop_reg restore_order c)"
  shows "arch c' = vs" "mem c' = mem c"
proof -
  let ?c = "fold pop_reg restore_order c"
  have d: "RSP \<notin> set restore_order" "distinct restore_order" "length restore_order = 15"
    by (simp_all add: restore_order_def)
  note f = fold_pop_reg [OF d(1,2), of c]
  have l: "load64 (mem c) (regs c RSP + of_nat (8 * i)) = vs ! i" if "i < 20" for i
    using stored_nth [OF assms(1)] that assms(2) by simp
  show "mem c' = mem c" using f assms(3) by (simp add: iretq_def Let_def)
  show "arch c' = vs"
  proof (rule nth_equalityI)
    fix i
    assume i: "i < length (arch c')"
    show "arch c' ! i = vs ! i"
    proof (cases "i < 15")
      case True
      then have "arch c' ! i = regs c' (restore_order ! i)" by (simp add: arch_def nth_append d)
      moreover have "restore_order ! i \<noteq> RSP" using d True by (metis nth_mem)
      ultimately show ?thesis
        using f l [of i] True d(3) by (simp add: assms(3) iretq_def Let_def)
    next
      case False
      then have "i = 15 \<or> i = 16 \<or> i = 17 \<or> i = 18 \<or> i = 19" using i by (auto simp: less_Suc_eq)
      then show ?thesis
        using f d(3) l [of 15] l [of 16] l [of 17] l [of 18] l [of 19]
        by (auto simp: arch_def nth_append assms(3) iretq_def Let_def add.assoc)
    qed
  qed (simp add: assms(2))
qed

section \<open>Preemption\<close>

text \<open>
  The calling convention as far as the handlers rely on it: a compiled function gives the stack
  pointer back and writes, of the memory the model tracks, only the \<open>depth\<close> bytes below it.
\<close>

definition abi_ok :: "nat \<Rightarrow> abi \<Rightarrow> bool" where
  "abi_ok depth abi = (\<forall>f c. regs (abi f c) RSP = regs c RSP \<and>
     (\<forall>x. \<not> in_range (regs c RSP - of_nat depth) depth x \<longrightarrow> mem (abi f c) x = mem c x))"

text \<open>What both naked handlers do to the scheduler and the processor.\<close>

definition switch_frames :: "callee \<Rightarrow> abi \<Rightarrow> kernel \<Rightarrow> cpu \<Rightarrow> (kernel \<times> cpu) result" where
  "switch_frames f abi k c =
     (let c1 = fold push_reg save_order c;
          c2 = abi f c1;
          c3 = set_reg RDI (regs c2 RSP) c2 in
      and_then (preempt_round_robin (regs c2 RSP) k) (\<lambda>(rax, k').
      Inr (k', iretq (fold pop_reg restore_order (set_reg RSP rax (set_reg RAX rax (abi PreemptRoundRobin c3)))))))"

lemma set_reg_simps [simp]:
  "regs (set_reg r v c) q = (if q = r then v else regs c q)" "mem (set_reg r v c) = mem c"
  by (simp_all add: set_reg_def)

lemma timer_interrupt_handler_eq:
  "timer_interrupt_handler abi notify (k, pl, c) =
   and_then (signal_eoi notify pl) (\<lambda>pl. and_then (switch_frames SignalEoi abi k c) (\<lambda>(k, c). Inr (k, pl, c)))"
  by (cases "signal_eoi notify pl"; cases "preempt_round_robin (regs (abi SignalEoi (fold push_reg save_order c)) RSP) k")
     (auto simp: timer_interrupt_handler_def switch_frames_def Let_def)

lemma keyboard_interrupt_handler_eq:
  "keyboard_interrupt_handler abi io notify (k, pl, c) =
   and_then (handle_keyboard_io_and_eoi io notify pl) (\<lambda>pl.
     and_then (switch_frames HandleKeyboardIoAndEoi abi k c) (\<lambda>(k, c). Inr (k, pl, c)))"
  by (cases "handle_keyboard_io_and_eoi io notify pl";
      cases "preempt_round_robin (regs (abi HandleKeyboardIoAndEoi (fold push_reg save_order c)) RSP) k")
     (auto simp: keyboard_interrupt_handler_def switch_frames_def Let_def)

text \<open>
  The bytes an interrupt may write: the frame and the \<open>depth\<close> bytes below it.
\<close>

definition interrupt_area :: "nat \<Rightarrow> cpu \<Rightarrow> u64 \<Rightarrow> bool" where
  "interrupt_area depth c x = in_range (frame_pointer c - of_nat depth) (160 + depth) x"

lemma below_in_area:
  assumes "depth + 160 \<le> 2 ^ 64"
  shows "in_range (frame_pointer c) 160 x \<Longrightarrow> interrupt_area depth c x"
    and "in_range (frame_pointer c - of_nat depth) depth x \<Longrightarrow> interrupt_area depth c x"
proof -
  assume "in_range (frame_pointer c) 160 x"
  then have "in_range (frame_pointer c - of_nat depth + of_nat depth) 160 x" by simp
  then have "in_range (frame_pointer c - of_nat depth) (depth + 160) x" by (rule in_range_shift) (rule assms)
  then show "interrupt_area depth c x" by (simp add: interrupt_area_def add.commute)
next
  assume "in_range (frame_pointer c - of_nat depth) depth x"
  then show "interrupt_area depth c x" unfolding interrupt_area_def by (rule in_range_mono) simp
qed

lemma below_not_in_frame:
  assumes "in_range p 160 x" and "depth + 160 \<le> 2 ^ 64"
  shows "\<not> in_range (p - of_nat depth) depth x"
proof -
  have d: "depth < 2 ^ 64" using assms(2) by simp
  have u: "unat (of_nat depth :: u64) = depth" using d by (simp add: unat_of_nat take_bit_nat_eq_self)
  have x: "unat (x - p) < 160" using assms(1) by (simp add: in_range_def)
  have eq: "x - (p - of_nat depth) = (x - p) + of_nat depth" by simp
  have "unat (x - p) + unat (of_nat depth :: u64) < 2 ^ LENGTH(64)" using x u assms(2) by simp
  then have "unat (x - (p - of_nat depth)) = unat (x - p) + depth" unfolding eq by (simp only: unat_add_ok u)
  then show ?thesis by (simp add: in_range_def)
qed

text \<open>The processor when the router has returned: the frame of the interrupted process is in place.\<close>

lemma calls_keep_frame:
  assumes abi: "abi_ok depth abi" and d: "depth + 160 \<le> 2 ^ 64"
    and c1: "c1 = fold push_reg save_order (deliver h c)"
    and c3: "c3 = set_reg RDI (regs (abi f c1) RSP) (abi f c1)"
  shows "regs (abi f c1) RSP = frame_pointer c"
    "stored (mem (abi PreemptRoundRobin c3)) (frame_pointer c) (arch c)"
    "\<And>x. \<not> interrupt_area depth c x \<Longrightarrow> mem (abi PreemptRoundRobin c3) x = mem c x"
proof -
  note sf = saved_frame [OF c1]
  have A: "regs (abi g e) RSP = regs e RSP"
    "\<not> in_range (regs e RSP - of_nat depth) depth x \<Longrightarrow> mem (abi g e) x = mem e x" for g e x
    using abi by (auto simp: abi_ok_def)
  show r: "regs (abi f c1) RSP = frame_pointer c" using A(1) sf(1) by simp
  have r3: "regs c3 RSP = frame_pointer c" using r by (simp add: c3)
  have keep: "mem (abi PreemptRoundRobin c3) x = mem c1 x"
    if "\<not> in_range (frame_pointer c - of_nat depth) depth x" for x
    using A(2) [where e = c3 and g = PreemptRoundRobin and x = x] A(2) [where e = c1 and g = f and x = x] that r3 sf(1)
    by (simp add: c3)
  have "stored (mem (abi PreemptRoundRobin c3)) (frame_pointer c) (arch c) \<longleftrightarrow>
        stored (mem c1) (frame_pointer c) (arch c)"
    by (rule stored_cong) (use below_not_in_frame d keep in simp_all)
  then show "stored (mem (abi PreemptRoundRobin c3)) (frame_pointer c) (arch c)" using sf(2) by simp
  show "mem (abi PreemptRoundRobin c3) x = mem c x" if "\<not> interrupt_area depth c x" for x
    using that keep sf(3) below_in_area [OF d] by metis
qed

lemma switch_frames_stay:
  assumes abi: "abi_ok depth abi" and d: "depth + 160 \<le> 2 ^ 64"
    and stay: "held (SCHEDULER k) \<or> inner (SCHEDULER k) = None \<or> length (processes (sched_of k)) < 2"
  shows "\<exists>c'. switch_frames f abi k (deliver h c) = Inr (k, c') \<and> arch c' = arch c \<and>
    (\<forall>x. \<not> interrupt_area depth c x \<longrightarrow> mem c' x = mem c x)"
proof -
  define c1 where "c1 = fold push_reg save_order (deliver h c)"
  define c3 where "c3 = set_reg RDI (regs (abi f c1) RSP) (abi f c1)"
  note keep = calls_keep_frame [OF abi d c1_def c3_def]
  have c3': "c3 = set_reg RDI (frame_pointer c) (abi f c1)" by (simp add: c3_def keep(1))
  let ?e = "set_reg RSP (frame_pointer c) (set_reg RAX (frame_pointer c) (abi PreemptRoundRobin c3))"
  have "switch_frames f abi k (deliver h c) = Inr (k, iretq (fold pop_reg restore_order ?e))"
    by (simp add: switch_frames_def Let_def c1_def [symmetric] c3' keep(1) preempt_round_robin_stay [OF stay])
  moreover have "stored (mem ?e) (regs ?e RSP) (arch c)" using keep(2) by simp
  note r = restored_frame [OF this length_arch refl]
  ultimately show ?thesis using r keep(3) by simp
qed

text \<open>When another process is chosen, its own frame is what the processor is loaded from.\<close>

lemma switch_frames_switch:
  assumes abi: "abi_ok depth abi" and d: "depth + 160 \<le> 2 ^ 64"
    and ok: "kernel_ok k" and two: "2 \<le> length (processes (sched_of k))"
    and s: "s = sched_of k" and p: "p = pc_rsp (proc_context (processes s ! next_index s))"
    and st: "stored (mem c) p vs" "length vs = 20" and apart: "\<And>x. in_range p 160 x \<Longrightarrow> \<not> interrupt_area depth c x"
  shows "\<exists>c'. switch_frames f abi k (deliver h c) =
      Inr (set_sched (rr_step ((proc_context (processes s ! current_index s))\<lparr>pc_rsp := frame_pointer c\<rparr>) s) k, c') \<and>
    arch c' = vs \<and> stored (mem c') (frame_pointer c) (arch c) \<and>
    (\<forall>x. \<not> interrupt_area depth c x \<longrightarrow> mem c' x = mem c x)"
proof -
  define c1 where "c1 = fold push_reg save_order (deliver h c)"
  define c3 where "c3 = set_reg RDI (regs (abi f c1) RSP) (abi f c1)"
  note keep = calls_keep_frame [OF abi d c1_def c3_def]
  have c3': "c3 = set_reg RDI (frame_pointer c) (abi f c1)" by (simp add: c3_def keep(1))
  let ?e = "set_reg RSP p (set_reg RAX p (abi PreemptRoundRobin c3))"
  let ?k = "set_sched (rr_step ((proc_context (processes s ! current_index s))\<lparr>pc_rsp := frame_pointer c\<rparr>) s) k"
  have "switch_frames f abi k (deliver h c) = Inr (?k, iretq (fold pop_reg restore_order ?e))"
    by (simp add: switch_frames_def Let_def c1_def [symmetric] c3' keep(1)
        preempt_round_robin_eq [OF ok two] s [symmetric] p [symmetric])
  moreover have "stored (mem ?e) (regs ?e RSP) vs \<longleftrightarrow> stored (mem c) p vs"
    unfolding set_reg_simps by (simp, rule stored_cong) (use keep(3) apart st(2) in simp_all)
  then have "stored (mem ?e) (regs ?e RSP) vs" using st(1) by blast
  note r = restored_frame [OF this st(2) refl]
  ultimately show ?thesis using r keep(2,3) by simp
qed

section \<open>Devices and vectors\<close>

definition console_ok :: "writer mutex \<Rightarrow> bool" where
  "console_ok W = (\<not> held W \<and> writer_wf (inner W))"

text \<open>What a terminal shows after printing the pieces of a line.\<close>

definition shown :: "u8 list list \<Rightarrow> writer \<Rightarrow> writer" where
  "shown args w = fold (\<lambda>c. spec_byte (sanitize c)) (concat args @ [0x0A]) w"

lemma println_ok:
  assumes "console_ok (WRITER pl)"
  shows "println args pl = Inr (pl\<lparr>WRITER := (WRITER pl)\<lparr>inner := shown args (inner (WRITER pl))\<rparr>\<rparr>)"
    "writer_wf (shown args (inner (WRITER pl)))"
  using print_args_ok [of "WRITER pl" "args @ [[0x0A]]"] assms
  by (auto simp: println_def print_eq shown_def console_ok_def)

lemma println_total:
  assumes "console_ok (WRITER pl)"
  shows "\<exists>pl'. println args pl = Inr pl' \<and> console_ok (WRITER pl')"
  using println_ok [OF assms, of args] assms by (simp add: console_ok_def)

lemma println_Deadlock: "held (WRITER pl) \<Longrightarrow> println args pl = Inl Deadlock"
  by (simp add: println_def print_eq print_args_def mutex_lock_def)

text \<open>
  With the console and the controllers unlocked, a key press reads one byte
  from port 0x60, prints its decimal value in the message, acknowledges the keyboard's vector 33 and
  touches nothing else.
\<close>

theorem keyboard_io:
  assumes "console_ok (WRITER pl)" and "\<not> held (PICS pl)" and "in8 io 0x60 (devices pl) = (scancode, d)"
  shows "handle_keyboard_io_and_eoi io notify pl =
    Inr (pl\<lparr>devices := d,
            WRITER := (WRITER pl)\<lparr>inner := shown [bytes_of ''Keyboard pressed! Scancode: '',
              decimal (unat scancode), bytes_of ''. Switching process...''] (inner (WRITER pl))\<rparr>,
            PICS := (PICS pl)\<lparr>inner := notify 33 (inner (PICS pl))\<rparr>\<rparr>)"
  using assms println_ok [of "pl\<lparr>devices := d\<rparr>"]
  by (simp add: handle_keyboard_io_and_eoi_def end_of_interrupt_def mutex_lock_def PIC_1_OFFSET_def)

text \<open>
  C23 (interrupts_invisible): while there is no scheduler, while somebody holds its lock, and while it has fewer
  than two processes, a timer or keyboard interrupt is not noticed by the code it interrupts: all registers,
  flags, segments and the instruction pointer are as before, so is all memory but the area
  below the stack pointer, and the scheduler is untouched; a tick does not touch screen or devices either.
\<close>

theorem interrupts_invisible:
  assumes "abi_ok depth abi" and "depth + 160 \<le> 2 ^ 64"
    and "held (SCHEDULER k) \<or> inner (SCHEDULER k) = None \<or> length (processes (sched_of k)) < 2"
    and "\<not> held (PICS pl)" and "console_ok (WRITER pl)"
  shows "(\<exists>pl' c'. timer_interrupt_handler abi notify (k, pl, deliver h c) = Inr (k, pl', c') \<and> arch c' = arch c \<and>
      (\<forall>x. \<not> interrupt_area depth c x \<longrightarrow> mem c' x = mem c x) \<and> WRITER pl' = WRITER pl \<and> devices pl' = devices pl) \<and>
    (\<exists>pl' c'. keyboard_interrupt_handler abi io notify (k, pl, deliver h c) = Inr (k, pl', c') \<and> arch c' = arch c \<and>
      (\<forall>x. \<not> interrupt_area depth c x \<longrightarrow> mem c' x = mem c x) \<and> console_ok (WRITER pl'))"
proof -
  obtain scancode d where d: "in8 io 0x60 (devices pl) = (scancode, d)" by (cases "in8 io 0x60 (devices pl)")
  obtain pt where pt: "signal_eoi notify pl = Inr pt" "WRITER pt = WRITER pl" "devices pt = devices pl"
    using assms(4) by (simp add: signal_eoi_def end_of_interrupt_def mutex_lock_def)
  obtain pk where pk: "handle_keyboard_io_and_eoi io notify pl = Inr pk" "console_ok (WRITER pk)"
    using keyboard_io [OF assms(5,4) d, of notify] println_ok(2) [OF assms(5)] assms(5) by (simp add: console_ok_def)
  obtain ct where ct: "switch_frames SignalEoi abi k (deliver h c) = Inr (k, ct)" "arch ct = arch c"
    "\<forall>x. \<not> interrupt_area depth c x \<longrightarrow> mem ct x = mem c x"
    using switch_frames_stay [OF assms(1-3)] by blast
  obtain ck where ck: "switch_frames HandleKeyboardIoAndEoi abi k (deliver h c) = Inr (k, ck)" "arch ck = arch c"
    "\<forall>x. \<not> interrupt_area depth c x \<longrightarrow> mem ck x = mem c x"
    using switch_frames_stay [OF assms(1-3)] by blast
  show ?thesis
    using pt pk ct ck by (simp add: timer_interrupt_handler_eq keyboard_interrupt_handler_eq)
qed

text \<open>
  The timer and the keyboard have the first two lines of the first controller,
  the software yield lies outside the sixteen lines of both controllers and outside the exceptions, the
  table has a gate for exactly the six vectors the kernel uses, each with its own handler, and only the
  double fault switches to a stack of its own.
\<close>

theorem vectors_ok:
  "as_u8 Timer = PIC_1_OFFSET \<and> as_u8 Keyboard = PIC_1_OFFSET + 1 \<and>
   PIC_2_OFFSET + 8 \<le> as_u8 Yield \<and> as_u8 Yield = YIELD_INTERRUPT_VECTOR \<and>
   dom IDT = {3, 8, 14, 32, 33, 48} \<and>
   map (map_option gate_handler \<circ> IDT) [3, 8, 14, as_usize Timer, as_usize Keyboard, as_usize Yield] =
     map Some [BreakpointHandler, DoubleFaultHandler, PageFaultHandler, TimerInterruptHandler,
               KeyboardInterruptHandler, SoftwareYieldHandler] \<and>
   {v. \<exists>g. IDT v = Some g \<and> gate_stack_index g \<noteq> None} = {8}"
proof -
  have "{v. \<exists>g. IDT v = Some g \<and> gate_stack_index g \<noteq> None} = {8}"
    by (auto simp: IDT_def as_usize_def PIC_1_OFFSET_def set_handler_fn_def split: if_splits)
  then show ?thesis
    by (auto simp: IDT_def as_usize_def PIC_1_OFFSET_def PIC_2_OFFSET_def YIELD_INTERRUPT_VECTOR_def
        set_handler_fn_def)
qed

text \<open>
  With the controllers unlocked, setting interrupts up loads the table,
  initialises the controllers and programs the timer with the two halves of the divisor, low byte first,
  in that order, and only then enables interrupts; the divisor makes the 1193182 Hz clock tick 100
  times a second. With the controllers locked it waits forever and interrupts stay off.
\<close>

theorem init_idt_ready:
  "init_idt io pics_initialize pl =
     (if held (PICS pl) then Inl Deadlock
      else Inr (pl\<lparr>idt_loaded := Some IDT, PICS := (PICS pl)\<lparr>inner := pics_initialize (inner (PICS pl))\<rparr>,
              devices := out8 io 0x40 0x2E (out8 io 0x40 0x9B (out8 io 0x43 0x36 (devices pl))),
              irq_enabled := True\<rparr>)) \<and>
   1193182 div unat (push_bit 8 (ucast (0x2E::u8)) OR ucast (0x9B::u8) :: u16) = 100"
  by (simp add: init_idt_def init_pit_def mutex_lock_def Let_def)

section \<open>An example platform\<close>

definition example_ports :: "unit ports" where
  "example_ports = \<lparr>out8 = \<lambda>_ _ d. d, out16 = \<lambda>_ _ d. d, out32 = \<lambda>_ _ d. d, in8 = \<lambda>_ d. (30, d), in32 = \<lambda>_ d. (0, d)\<rparr>"

definition example_platform :: "(u8 list, unit) platform" where
  "example_platform = \<lparr>PICS = \<lparr>held = False, inner = []\<rparr>, WRITER = empty_screen, devices = (),
     idt_loaded = Some IDT, irq_enabled = True\<rparr>"

lemma example_platform_ok: "\<not> held (PICS example_platform)" "console_ok (WRITER example_platform)"
  using empty_screen_wf by (simp_all add: example_platform_def console_ok_def)

theorem keyboard_io_witness:
  "\<exists>pl'. handle_keyboard_io_and_eoi example_ports (#) example_platform = Inr pl' \<and> inner (PICS pl') = [33] \<and>
     row_position (inner (WRITER pl')) = 1 \<and> decimal 30 = bytes_of ''30''"
proof -
  have d: "decimal 30 = [51, 48]" by (simp add: decimal.simps)
  have "in8 example_ports 0x60 (devices example_platform) = (30, ())" by (simp add: example_ports_def)
  note k = keyboard_io [OF example_platform_ok(2,1) this, of "(#)"]
  have "row_position (shown [bytes_of ''Keyboard pressed! Scancode: '', decimal 30, bytes_of ''. Switching process...'']
      (inner empty_screen)) = 1"
    by (simp add: shown_def bytes_of_def d spec_byte_def spec_put_def spec_new_line_def sanitize_def
        empty_screen_def WRITER_init_def of_char_def)
  then show ?thesis using k d by (simp add: example_platform_def bytes_of_def of_char_def)
qed

theorem interrupts_invisible_witness:
  "\<exists>pl' c'. keyboard_interrupt_handler (\<lambda>_ c. c) example_ports (#) (kernel_statics, example_platform,
      deliver 0x5000 \<lparr>regs = (\<lambda>_. 0x8000), rip = 0x3000, rflags = 0x200, cs = 8, ss = 16, mem = (\<lambda>_. 0)\<rparr>) =
    Inr (kernel_statics, pl', c') \<and> rip c' = 0x3000 \<and> regs c' RBX = 0x8000"
proof -
  let ?c = "\<lparr>regs = (\<lambda>_. 0x8000), rip = 0x3000, rflags = 0x200, cs = 8, ss = 16, mem = (\<lambda>_. 0)\<rparr>"
  have "abi_ok 1000 (\<lambda>_ c. c)" by (simp add: abi_ok_def)
  moreover have "inner (SCHEDULER kernel_statics) = None" by (simp add: kernel_statics_def)
  ultimately obtain pl' c' where "keyboard_interrupt_handler (\<lambda>_ c. c) example_ports (#) (kernel_statics, example_platform, deliver 0x5000 ?c) =
      Inr (kernel_statics, pl', c')" "arch c' = arch ?c"
    using interrupts_invisible [of 1000 "\<lambda>_ c. c" kernel_statics example_platform "(#)" "0x5000" ?c example_ports] example_platform_ok by auto
  then show ?thesis unfolding arch_eq_iff by force
qed

end
