(* ===== verification/Page_Faults.thy ===== *)
theory Page_Faults
  imports Interrupts
begin

text \<open>
  Demand paging of the heap: what \<^verbatim>\<open>page_fault_handler\<close> of \<^verbatim>\<open>interrupt/handlers.rs\<close> does on every
  path, and that the frames it maps over any sequence of faults are fresh usable frames. The page-table
  mapper belongs to the \<^verbatim>\<open>x86_64\<close> crate; what is used of it is the predicate \<open>mapper_ok\<close>.
\<close>

text \<open>The faults the handler resolves: heap address, both globals unlocked and present, a frame, a mapping.\<close>

definition resolves ::
  "(u64 \<Rightarrow> 'frame result) \<Rightarrow> (u64 \<Rightarrow> 'page) \<Rightarrow> ('m, 'page, 'frame) map_to \<Rightarrow> u64 \<Rightarrow> ('m, 'page) paging \<Rightarrow>
   ('m, 'page) paging \<Rightarrow> bool" where
  "resolves frame_of page_of map_to a pg pg' =
     (in_heap a \<and> \<not> held (MAPPER pg) \<and> \<not> held (FRAME_ALLOCATOR pg) \<and>
      (\<exists>m fa fa1 frame m' fa2. inner (MAPPER pg) = Some m \<and> inner (FRAME_ALLOCATOR pg) = Some fa \<and>
         allocate_frame frame_of fa = Inr (fa1, Some frame) \<and>
         map_to (page_of a) frame [PRESENT, WRITABLE] m fa1 = Inr (m', fa2, True) \<and>
         pg' = pg\<lparr>MAPPER := (MAPPER pg)\<lparr>inner := Some m'\<rparr>,
                  FRAME_ALLOCATOR := (FRAME_ALLOCATOR pg)\<lparr>inner := Some fa2\<rparr>,
                  flushed := flushed pg @ [page_of a]\<rparr>))"

lemma page_fault_resolve_True:
  "page_fault_resolve frame_of page_of map_to a pg = Inr (pg', True) \<longleftrightarrow> resolves frame_of page_of map_to a pg pg'"
proof
  assume "page_fault_resolve frame_of page_of map_to a pg = Inr (pg', True)"
  then show "resolves frame_of page_of map_to a pg pg'"
    unfolding page_fault_resolve_def resolves_def
    by (auto simp: kernel_simps Let_def split: option.splits prod.splits if_splits)
next
  assume "resolves frame_of page_of map_to a pg pg'"
  then show "page_fault_resolve frame_of page_of map_to a pg = Inr (pg', True)"
    unfolding page_fault_resolve_def resolves_def by (auto simp: mutex_lock_def Let_def)
qed

lemma page_fault_Inr:
  "page_fault_handler frame_of page_of map_to texts a (pg, pl) = Inr (pg', pl') \<longleftrightarrow>
   pl' = pl \<and> resolves frame_of page_of map_to a pg pg'"
  unfolding page_fault_resolve_True [symmetric]
  by (cases texts) (auto simp: page_fault_handler_def kernel_simps split: if_splits)

text \<open>A fault that is not resolved is reported in four lines and panics.\<close>

lemma page_fault_report:
  assumes "\<exists>pg'. page_fault_resolve frame_of page_of map_to a pg = Inr (pg', False)" and "console_ok (WRITER pl)"
  shows "page_fault_handler frame_of page_of map_to texts a (pg, pl) = Inl (Panic (ExplicitPanic ''Unhandled Page Fault''))"
proof -
  obtain t1 t2 t3 where t: "texts = (t1, t2, t3)" by (cases texts)
  obtain p1 where p1: "println [bytes_of ''EXCEPTION: PAGE FAULT''] pl = Inr p1" "console_ok (WRITER p1)"
    using println_total [OF assms(2)] by blast
  obtain p2 where p2: "println ([bytes_of ''Accessed Address: ''] @ t1) p1 = Inr p2" "console_ok (WRITER p2)"
    using println_total [OF p1(2)] by blast
  obtain p3 where p3: "println ([bytes_of ''Error Code: ''] @ t2) p2 = Inr p3" "console_ok (WRITER p3)"
    using println_total [OF p2(2)] by blast
  obtain p4 where "println t3 p3 = Inr p4" using println_total [OF p3(2)] by blast
  then show ?thesis using assms(1) p1(1) p2(1) p3(1) t by (auto simp: page_fault_handler_def)
qed

text \<open>
  C29 (page_fault_returns): the handler returns to the faulting instruction exactly when the address
  lies in the heap, neither global is locked, both are initialised, a frame is left and it could be
  mapped; the page is then mapped present and writable and its translation flushed, and the screen
  is not touched. An address outside the heap ends in the panic, with no lock taken and nothing mapped.
\<close>

theorem page_fault_returns:
  "(page_fault_handler frame_of page_of map_to texts a (pg, pl) = Inr (pg', pl') \<longleftrightarrow>
      pl' = pl \<and> resolves frame_of page_of map_to a pg pg') \<and>
   (\<not> in_heap a \<longrightarrow> console_ok (WRITER pl) \<longrightarrow>
      page_fault_handler frame_of page_of map_to texts a (pg, pl) =
        Inl (Panic (ExplicitPanic ''Unhandled Page Fault'')))"
proof -
  have "page_fault_resolve frame_of page_of map_to a pg = Inr (pg, False)" if "\<not> in_heap a"
    using that by (simp add: page_fault_resolve_def)
  then have "page_fault_handler frame_of page_of map_to texts a (pg, pl) =
      Inl (Panic (ExplicitPanic ''Unhandled Page Fault''))" if "\<not> in_heap a" "console_ok (WRITER pl)"
    using that by (intro page_fault_report) simp_all
  then show ?thesis by (simp only: page_fault_Inr simp_thms) simp
qed

text \<open>
  A heap fault taken while somebody holds the mapper or, the mapper being
  free, the frame allocator, never returns: the handler spins on a lock its own victim holds.
\<close>

theorem page_fault_deadlock:
  assumes "in_heap a" and "held (MAPPER pg) \<or> held (FRAME_ALLOCATOR pg)"
  shows "page_fault_handler frame_of page_of map_to texts a (pg, pl) = Inl Deadlock"
  using assms
  by (cases texts; cases "held (MAPPER pg)")
     (simp_all add: page_fault_handler_def page_fault_resolve_def mutex_lock_def)

section \<open>Sequences of faults\<close>

definition page_faults ::
  "(u64 \<Rightarrow> 'frame result) \<Rightarrow> (u64 \<Rightarrow> 'page) \<Rightarrow> ('m, 'page, 'frame) map_to \<Rightarrow>
   u8 list list \<times> u8 list list \<times> u8 list list \<Rightarrow> u64 list \<Rightarrow>
   ('m, 'page) paging \<times> ('p, 'd) platform \<Rightarrow> (('m, 'page) paging \<times> ('p, 'd) platform) result" where
  "page_faults frame_of page_of map_to texts addrs =
     for_loop addrs (page_fault_handler frame_of page_of map_to texts)"

text \<open>
  The documented effect of \<^verbatim>\<open>map_to\<close> on the mappings and on the frame allocator it is lent: it
  records the mapping it reports, and the allocator is only ever asked for further frames.
\<close>

definition mapper_ok :: "('m \<Rightarrow> ('page \<times> 'frame) list) \<Rightarrow> ('m, 'page, 'frame) map_to \<Rightarrow> bool" where
  "mapper_ok mappings map_to = (\<forall>page frame flags m fa m' fa' ok.
     map_to page frame flags m fa = Inr (m', fa', ok) \<longrightarrow>
       fa_memory_map fa' = fa_memory_map fa \<and> fa_next fa \<le> fa_next fa' \<and>
       mappings m' = mappings m @ (if ok then [(page, frame)] else []))"

lemma frames_nth_Some:
  "frames_nth frame_of as n = Inr (Some f) \<Longrightarrow> n < length as \<and> frame_of (as ! n) = Inr f"
  by (induction frame_of as n rule: frames_nth.induct) (auto simp: kernel_simps)

lemma allocate_frame_Some:
  assumes "allocate_frame frame_of fa = Inr (fa1, Some f)"
  shows "unat (fa_next fa) < length (usable_frame_addresses (fa_memory_map fa))"
    "frame_of (usable_frame_addresses (fa_memory_map fa) ! unat (fa_next fa)) = Inr f"
    "fa_memory_map fa1 = fa_memory_map fa" "unat (fa_next fa1) = Suc (unat (fa_next fa))"
proof -
  have f: "frames_nth frame_of (usable_frame_addresses (fa_memory_map fa)) (unat (fa_next fa)) = Inr (Some f)"
    and n: "add_chk (fa_next fa) 1 = Inr (fa_next fa1)" and m: "fa_memory_map fa1 = fa_memory_map fa"
    using assms by (auto simp: allocate_frame_def kernel_simps)
  show "unat (fa_next fa) < length (usable_frame_addresses (fa_memory_map fa))"
    "frame_of (usable_frame_addresses (fa_memory_map fa) ! unat (fa_next fa)) = Inr f"
    using frames_nth_Some [OF f] by simp_all
  have "unat (fa_next fa) + unat (1::u64) < 2 ^ LENGTH(64)" "fa_next fa1 = fa_next fa + 1"
    using n by (simp_all add: add_chk_Inr)
  then show "unat (fa_next fa1) = Suc (unat (fa_next fa))" using unat_add_ok by fastforce
  show "fa_memory_map fa1 = fa_memory_map fa" by (rule m)
qed

text \<open>The mapped frames are usable frames at increasing positions, all before the allocator's next one.\<close>

definition fresh_frames ::
  "('m \<Rightarrow> ('page \<times> 'frame) list) \<Rightarrow> (u64 \<Rightarrow> 'frame result) \<Rightarrow> memory_map \<Rightarrow> ('m, 'page) paging \<Rightarrow> 'page list \<Rightarrow> bool" where
  "fresh_frames mappings frame_of mm pg pages =
     (\<exists>m fa is. inner (MAPPER pg) = Some m \<and> inner (FRAME_ALLOCATOR pg) = Some fa \<and> fa_memory_map fa = mm \<and>
        sorted_wrt (<) is \<and> (\<forall>i\<in>set is. i < unat (fa_next fa) \<and> i < length (usable_frame_addresses mm)) \<and>
        map (Inr \<circ> snd) (mappings m) = map (\<lambda>i. frame_of (usable_frame_addresses mm ! i)) is \<and>
        map fst (mappings m) = pages)"

lemma fresh_step:
  assumes M: "mapper_ok mappings map_to" and fresh: "fresh_frames mappings frame_of mm pg pages"
    and r: "resolves frame_of page_of map_to a pg pg'"
  shows "fresh_frames mappings frame_of mm pg' (pages @ [page_of a])"
proof -
  let ?us = "usable_frame_addresses mm"
  obtain m fa "is" where f: "inner (MAPPER pg) = Some m" "inner (FRAME_ALLOCATOR pg) = Some fa" "fa_memory_map fa = mm"
    "sorted_wrt (<) is" "\<forall>i\<in>set is. i < unat (fa_next fa) \<and> i < length ?us"
    "map (Inr \<circ> snd) (mappings m) = map (\<lambda>i. frame_of (?us ! i)) is" "map fst (mappings m) = pages"
    using fresh unfolding fresh_frames_def by blast
  obtain fa1 frame m' fa2 where s: "allocate_frame frame_of fa = Inr (fa1, Some frame)"
    "map_to (page_of a) frame [PRESENT, WRITABLE] m fa1 = Inr (m', fa2, True)"
    "inner (MAPPER pg') = Some m'" "inner (FRAME_ALLOCATOR pg') = Some fa2"
    using r f(1,2) by (auto simp: resolves_def)
  note al = allocate_frame_Some [OF s(1)]
  have mp: "fa_memory_map fa2 = fa_memory_map fa1" "fa_next fa1 \<le> fa_next fa2"
    "mappings m' = mappings m @ [(page_of a, frame)]"
    using M s(2) unfolding mapper_ok_def by force+
  have le: "Suc (unat (fa_next fa)) \<le> unat (fa_next fa2)" using mp(2) al(4) by (simp add: word_le_nat_alt)
  let ?is = "is @ [unat (fa_next fa)]"
  have "sorted_wrt (<) ?is" using f(4,5) by (simp add: sorted_wrt_append)
  moreover have "\<forall>i\<in>set ?is. i < unat (fa_next fa2) \<and> i < length ?us"
    using f(3,5) le al(1) by auto
  moreover have "map (Inr \<circ> snd) (mappings m') = map (\<lambda>i. frame_of (?us ! i)) ?is"
    using f(3,6) mp(3) al(2) by simp
  moreover have "map fst (mappings m') = pages @ [page_of a]" using f(7) mp(3) by simp
  moreover have "fa_memory_map fa2 = mm" using mp(1) al(3) f(3) by simp
  ultimately show ?thesis unfolding fresh_frames_def using s(3,4) by blast
qed

lemma fresh_faults:
  assumes M: "mapper_ok mappings map_to"
  shows "page_faults frame_of page_of map_to texts addrs (pg, pl) = Inr (pg', pl') \<Longrightarrow>
    fresh_frames mappings frame_of mm pg pages \<Longrightarrow>
    fresh_frames mappings frame_of mm pg' (pages @ map page_of addrs)"
proof (induction addrs arbitrary: pg pl pages)
  case Nil
  then show ?case by (simp add: page_faults_def)
next
  case (Cons a addrs)
  obtain pg1 pl1 where a: "page_fault_handler frame_of page_of map_to texts a (pg, pl) = Inr (pg1, pl1)"
    "page_faults frame_of page_of map_to texts addrs (pg1, pl1) = Inr (pg', pl')"
    using Cons.prems(1) by (auto simp: page_faults_def kernel_simps)
  then have "resolves frame_of page_of map_to a pg pg1" by (simp add: page_fault_Inr)
  then have "fresh_frames mappings frame_of mm pg1 (pages @ [page_of a])"
    using fresh_step [OF M Cons.prems(2)] by blast
  then show ?case using Cons.IH [OF a(2)] by fastforce
qed

lemma all_apart_distinct: "all_apart (map frame_extent as) \<Longrightarrow> distinct as"
  by (induction as) (auto simp: apart_def frame_extent_def)

text \<open>
  C11 (page_faults_fresh): starting with an empty mapping and a fresh frame allocator over a
  well-formed memory map, after any sequence of resolved faults the faulting pages are mapped in order,
  each to the frame of a usable address, and no two pages share a frame (given that different frame
  addresses give different frames).
\<close>

theorem page_faults_fresh:
  assumes "mapper_ok mappings map_to" and "map_ok mm"
    and "\<And>x y f. x \<in> set (usable_frame_addresses mm) \<Longrightarrow> y \<in> set (usable_frame_addresses mm) \<Longrightarrow>
           frame_of x = Inr f \<Longrightarrow> frame_of y = Inr f \<Longrightarrow> x = y"
    and "inner (MAPPER pg) = Some m0" "mappings m0 = []" "inner (FRAME_ALLOCATOR pg) = Some (boot_info_init mm)"
    and "page_faults frame_of page_of map_to texts addrs (pg, pl) = Inr (pg', pl')"
  shows "\<exists>m. inner (MAPPER pg') = Some m \<and> map fst (mappings m) = map page_of addrs \<and>
    distinct (map snd (mappings m)) \<and>
    (\<forall>f\<in>set (map snd (mappings m)). \<exists>a\<in>set (usable_frame_addresses mm). frame_of a = Inr f)"
proof -
  let ?us = "usable_frame_addresses mm"
  have "fresh_frames mappings frame_of mm pg []"
    unfolding fresh_frames_def using assms(4-6) by (auto intro!: exI [of _ "[]"] simp: boot_info_init_def)
  then have "fresh_frames mappings frame_of mm pg' (map page_of addrs)"
    using fresh_faults [OF assms(1,7)] by fastforce
  then obtain m "is" where m: "inner (MAPPER pg') = Some m" "sorted_wrt (<) is" "\<forall>i\<in>set is. i < length ?us"
    "map (Inr \<circ> snd) (mappings m) = map (\<lambda>i. frame_of (?us ! i)) is" "map fst (mappings m) = map page_of addrs"
    unfolding fresh_frames_def by blast
  have len: "length (mappings m) = length is" using m(4) by (metis length_map)
  have at: "frame_of (?us ! (is ! j)) = Inr (snd (mappings m ! j))" if "j < length is" for j
    using arg_cong [OF m(4), of "\<lambda>l. l ! j"] that len by simp
  have d: "distinct ?us" using all_apart_distinct usable_frames_apart [OF assms(2)] by blast
  have di: "distinct is" using m(2) strict_sorted_iff by blast
  have "snd (mappings m ! i) \<noteq> snd (mappings m ! j)" if ij: "i < length is" "j < length is" "i \<noteq> j" for i j
  proof
    assume eq: "snd (mappings m ! i) = snd (mappings m ! j)"
    have l: "is ! i < length ?us" "is ! j < length ?us" using m(3) ij by simp_all
    then have "?us ! (is ! i) = ?us ! (is ! j)"
      using assms(3) [of "?us ! (is ! i)" "?us ! (is ! j)"] at [OF ij(1)] at [OF ij(2)] eq by simp
    then show False using d di l ij by (simp add: nth_eq_iff_index_eq)
  qed
  then have "distinct (map snd (mappings m))" by (simp add: distinct_conv_nth len)
  moreover have "\<exists>a\<in>set ?us. frame_of a = Inr f" if f: "f \<in> set (map snd (mappings m))" for f
  proof -
    obtain j where "j < length is" "f = snd (mappings m ! j)" using f len by (auto simp: in_set_conv_nth)
    then show ?thesis using at [of j] m(3) by (metis nth_mem)
  qed
  ultimately show ?thesis using m(1,5) by blast
qed

section \<open>Example faults\<close>

definition example_map_to :: "((u64 \<times> u64) list, u64, u64) map_to" where
  "example_map_to page frame flags m fa = Inr (m @ [(page, frame)], fa, True)"

definition example_page :: "u64 \<Rightarrow> u64" where
  "example_page a = a AND NOT 0xFFF"

definition example_paging :: "((u64 \<times> u64) list, u64) paging" where
  "example_paging = \<lparr>MAPPER = \<lparr>held = False, inner = Some []\<rparr>,
     FRAME_ALLOCATOR = \<lparr>held = False, inner = Some (boot_info_init demo_map)\<rparr>, flushed = []\<rparr>"

lemma example_mapper_ok: "mapper_ok (\<lambda>m. m) example_map_to"
  by (simp add: mapper_ok_def example_map_to_def)

lemma example_resolves:
  "resolves Inr example_page example_map_to (HEAP_START + 0x123) example_paging
     (example_paging\<lparr>MAPPER := \<lparr>held = False, inner = Some [(HEAP_START, 4096)]\<rparr>,
        FRAME_ALLOCATOR := \<lparr>held = False, inner = Some \<lparr>fa_memory_map = demo_map, fa_next = 1\<rparr>\<rparr>,
        flushed := [HEAP_START]\<rparr>)"
  by (simp add: resolves_def example_paging_def example_map_to_def example_page_def in_heap_def HEAP_START_def
      HEAP_SIZE_def boot_info_init_def allocate_frame_def demo_map_frames add_chk_def)

theorem page_fault_returns_witness:
  "(\<exists>pg'. page_fault_handler Inr example_page example_map_to ([], [], []) (HEAP_START + 0x123)
       (example_paging, example_platform) = Inr (pg', example_platform) \<and>
     inner (MAPPER pg') = Some [(HEAP_START, 4096)]) \<and>
   page_fault_handler Inr example_page example_map_to ([], [], []) 0x1000 (example_paging, example_platform) =
     Inl (Panic (ExplicitPanic ''Unhandled Page Fault''))"
proof -
  have out: "\<not> in_heap 0x1000" by (simp add: in_heap_def HEAP_START_def HEAP_SIZE_def)
  show ?thesis
    using example_resolves
      page_fault_returns [of Inr example_page example_map_to "([], [], [])" "HEAP_START + 0x123" example_paging example_platform]
      page_fault_returns [of Inr example_page example_map_to "([], [], [])" "0x1000" example_paging example_platform]
      out example_platform_ok(2) by force
qed

theorem page_fault_deadlock_witness:
  "in_heap HEAP_START \<and>
   page_fault_handler Inr example_page example_map_to ([], [], []) HEAP_START
     (example_paging\<lparr>MAPPER := \<lparr>held = True, inner = Some []\<rparr>\<rparr>, example_platform) = Inl Deadlock"
proof -
  have h: "in_heap HEAP_START" by (simp add: in_heap_def HEAP_START_def HEAP_SIZE_def)
  then show ?thesis
    using page_fault_deadlock [OF h, of "example_paging\<lparr>MAPPER := \<lparr>held = True, inner = Some []\<rparr>\<rparr>"] by simp
qed

theorem page_faults_fresh_witness:
  "\<exists>pg' m. page_faults Inr example_page example_map_to ([], [], []) [HEAP_START + 0x123]
      (example_paging, example_platform) = Inr (pg', example_platform) \<and>
    inner (MAPPER pg') = Some m \<and> map fst m = [HEAP_START] \<and> distinct (map snd m)"
proof -
  have e: "example_page (HEAP_START + 0x123) = HEAP_START" by (simp add: example_page_def HEAP_START_def)
  have mm: "map_ok demo_map" by (simp add: map_ok_def demo_map_def region_extent_of_def apart_def)
  obtain pg' where f: "page_faults Inr example_page example_map_to ([], [], []) [HEAP_START + 0x123]
      (example_paging, example_platform) = Inr (pg', example_platform)"
    using example_resolves page_fault_Inr [of Inr example_page example_map_to "([], [], [])" "HEAP_START + 0x123"
        example_paging example_platform] by (force simp: page_faults_def)
  have "inner (MAPPER example_paging) = Some []" "inner (FRAME_ALLOCATOR example_paging) = Some (boot_info_init demo_map)"
    by (simp_all add: example_paging_def)
  then show ?thesis
    using page_faults_fresh [OF example_mapper_ok mm _ _ _ _ f] f e by auto
qed

end
