(* ===== verification/Demand_Paging.thy ===== *)
theory Demand_Paging
  imports Page_Faults
begin

text \<open>
  Demand paging as the program sees it: accesses to the heap, the faults they raise, the handler of
  \<^verbatim>\<open>interrupt/handlers.rs\<close>, the frame allocator of \<^verbatim>\<open>memory.rs\<close> and the page tables together. The page tables and
  \<^verbatim>\<open>Page::containing_address\<close> belong to the \<^verbatim>\<open>x86_64\<close> crate; what is used of them is \<open>maps_pages\<close> and
  \<open>pages_of_4k\<close>.
\<close>

section \<open>Accesses and faults\<close>

text \<open>
  A memory access of the running program: it goes through if the page is mapped; otherwise the processor
  raises the fault and runs the access again when the handler returns. \<open>mapped\<close> is what the page tables say. A
  handler that returned without mapping the page would be called again for ever.
\<close>

partial_function (option) access ::
  "(u64 \<Rightarrow> 'frame result) \<Rightarrow> (u64 \<Rightarrow> 'page) \<Rightarrow> ('m, 'page, 'frame) map_to \<Rightarrow> ('m \<Rightarrow> 'page \<Rightarrow> bool) \<Rightarrow>
   u8 list list \<times> u8 list list \<times> u8 list list \<Rightarrow> u64 \<Rightarrow>
   ('m, 'page) paging \<times> ('p, 'd) platform \<Rightarrow> (('m, 'page) paging \<times> ('p, 'd) platform) result option" where
  "access frame_of page_of map_to mapped texts a st =
     (if (case inner (MAPPER (fst st)) of None \<Rightarrow> False | Some m \<Rightarrow> mapped m (page_of a)) then Some (Inr st)
      else (case page_fault_handler frame_of page_of map_to texts a st of
              Inl e \<Rightarrow> Some (Inl e)
            | Inr st' \<Rightarrow> access frame_of page_of map_to mapped texts a st'))"

fun accesses ::
  "(u64 \<Rightarrow> 'frame result) \<Rightarrow> (u64 \<Rightarrow> 'page) \<Rightarrow> ('m, 'page, 'frame) map_to \<Rightarrow> ('m \<Rightarrow> 'page \<Rightarrow> bool) \<Rightarrow>
   u8 list list \<times> u8 list list \<times> u8 list list \<Rightarrow> u64 list \<Rightarrow>
   ('m, 'page) paging \<times> ('p, 'd) platform \<Rightarrow> (('m, 'page) paging \<times> ('p, 'd) platform) result option" where
  "accesses frame_of page_of map_to mapped texts [] st = Some (Inr st)"
| "accesses frame_of page_of map_to mapped texts (a # as) st =
     (case access frame_of page_of map_to mapped texts a st of
        None \<Rightarrow> None
      | Some (Inl e) \<Rightarrow> Some (Inl e)
      | Some (Inr st') \<Rightarrow> accesses frame_of page_of map_to mapped texts as st')"

text \<open>
  The documented behaviour of \<^verbatim>\<open>map_to\<close> on a page that is not mapped: it needs at most three frames for page
  tables, fails only if the allocator has none, and maps that page and no other.
\<close>

definition maps_pages :: "('m \<Rightarrow> 'page \<Rightarrow> bool) \<Rightarrow> ('m, 'page, 'frame) map_to \<Rightarrow> bool" where
  "maps_pages mapped map_to = (\<forall>page frame flags m fa.
     \<not> mapped m page \<longrightarrow> unat (fa_next fa) + 3 \<le> length (usable_frame_addresses (fa_memory_map fa)) \<longrightarrow>
       (\<exists>m' fa'. map_to page frame flags m fa = Inr (m', fa', True) \<and>
          fa_memory_map fa' = fa_memory_map fa \<and>
          unat (fa_next fa) \<le> unat (fa_next fa') \<and> unat (fa_next fa') \<le> unat (fa_next fa) + 3 \<and>
          (\<forall>q. mapped m' q = (mapped m q \<or> q = page))))"

text \<open>Every usable address gives a frame, and the two globals are in place and free.\<close>

definition frames_usable :: "(u64 \<Rightarrow> 'frame result) \<Rightarrow> memory_map \<Rightarrow> bool" where
  "frames_usable frame_of mm =
     (list_all (\<lambda>a. is_ok (frame_of a)) (usable_frame_addresses mm) \<and> length (usable_frame_addresses mm) < 2 ^ 64)"

definition paging_ready :: "('m, 'page) paging \<Rightarrow> 'm \<Rightarrow> boot_info_frame_allocator \<Rightarrow> bool" where
  "paging_ready pg m fa = (\<not> held (MAPPER pg) \<and> \<not> held (FRAME_ALLOCATOR pg) \<and>
     inner (MAPPER pg) = Some m \<and> inner (FRAME_ALLOCATOR pg) = Some fa)"

lemma allocate_frame_ok:
  assumes "frames_usable frame_of (fa_memory_map fa)" and "unat (fa_next fa) < length (usable_frame_addresses (fa_memory_map fa))"
  shows "\<exists>fa1 f. allocate_frame frame_of fa = Inr (fa1, Some f)"
proof -
  have "unat (fa_next fa) + unat (1 :: u64) < 2 ^ LENGTH(64)" using assms by (simp add: frames_usable_def)
  then have "add_chk (fa_next fa) 1 = Inr (fa_next fa + 1)" by (simp add: add_chk_def)
  then show ?thesis
    using assms by (simp add: allocate_frame_def frames_usable_def frames_nth_ok)
qed

text \<open>The bytes of the heap, in arithmetic, are the addresses the handler takes for them.\<close>

definition heap_address :: "u64 \<Rightarrow> bool" where
  "heap_address a = (unat HEAP_START \<le> unat a \<and> unat a < unat HEAP_START + unat HEAP_SIZE)"

lemma in_heap_iff: "in_heap a \<longleftrightarrow> heap_address a"
  by (simp add: in_heap_def heap_address_def HEAP_START_def HEAP_SIZE_def word_le_nat_alt word_less_nat_alt)

text \<open>A fault on an unmapped heap page with four frames left is resolved, and the page is mapped then.\<close>

lemma access_unmapped:
  assumes M: "maps_pages mapped map_to" and F: "frames_usable frame_of (fa_memory_map fa)" and a: "heap_address a"
    and pg: "paging_ready pg m fa" "\<not> mapped m (page_of a)"
    and room: "unat (fa_next fa) + 4 \<le> length (usable_frame_addresses (fa_memory_map fa))"
  shows "\<exists>pg' m' fa'. access frame_of page_of map_to mapped texts a (pg, pl) = Some (Inr (pg', pl)) \<and>
    paging_ready pg' m' fa' \<and> fa_memory_map fa' = fa_memory_map fa \<and>
    unat (fa_next fa) + 1 \<le> unat (fa_next fa') \<and> unat (fa_next fa') \<le> unat (fa_next fa) + 4 \<and>
    (\<forall>q. mapped m' q = (mapped m q \<or> q = page_of a)) \<and> flushed pg' = flushed pg @ [page_of a]"
proof -
  obtain fa1 f where f: "allocate_frame frame_of fa = Inr (fa1, Some f)"
    using allocate_frame_ok [OF F] room by auto
  note al = allocate_frame_Some [OF f]
  have "unat (fa_next fa1) + 3 \<le> length (usable_frame_addresses (fa_memory_map fa1))" using al(3,4) room by simp
  then obtain m' fa' where m: "map_to (page_of a) f [PRESENT, WRITABLE] m fa1 = Inr (m', fa', True)"
    "fa_memory_map fa' = fa_memory_map fa1" "unat (fa_next fa1) \<le> unat (fa_next fa')" "unat (fa_next fa') \<le> unat (fa_next fa1) + 3"
    "\<forall>q. mapped m' q = (mapped m q \<or> q = page_of a)"
    using M pg(2) unfolding maps_pages_def by blast
  let ?pg = "pg\<lparr>MAPPER := (MAPPER pg)\<lparr>inner := Some m'\<rparr>, FRAME_ALLOCATOR := (FRAME_ALLOCATOR pg)\<lparr>inner := Some fa'\<rparr>,
      flushed := flushed pg @ [page_of a]\<rparr>"
  have "resolves frame_of page_of map_to a pg ?pg"
    using a pg(1) f m(1) by (auto simp: resolves_def paging_ready_def in_heap_iff)
  then have h: "page_fault_handler frame_of page_of map_to texts a (pg, pl) = Inr (?pg, pl)" by (simp add: page_fault_Inr)
  have "access frame_of page_of map_to mapped texts a (?pg, pl) = Some (Inr (?pg, pl))"
    using m(5) by (subst access.simps) simp
  then have "access frame_of page_of map_to mapped texts a (pg, pl) = Some (Inr (?pg, pl))"
    using h pg by (subst access.simps) (simp add: paging_ready_def)
  moreover have "paging_ready ?pg m' fa'" using pg(1) by (simp add: paging_ready_def)
  ultimately show ?thesis using m(2-5) al(3,4) by (intro exI [of _ ?pg] exI [of _ m'] exI [of _ fa'] conjI) simp_all
qed

lemma access_mapped:
  "paging_ready pg m fa \<Longrightarrow> mapped m (page_of a) \<Longrightarrow>
   access frame_of page_of map_to mapped texts a (pg, pl) = Some (Inr (pg, pl))"
  by (subst access.simps) (simp add: paging_ready_def)

text \<open>The pages of a list of addresses that are not mapped yet.\<close>

definition new_pages :: "('m \<Rightarrow> 'page \<Rightarrow> bool) \<Rightarrow> (u64 \<Rightarrow> 'page) \<Rightarrow> 'm \<Rightarrow> u64 list \<Rightarrow> 'page set" where
  "new_pages mapped page_of m as = {q \<in> page_of ` set as. \<not> mapped m q}"

lemma new_pages_Cons:
  "mapped m (page_of a) \<Longrightarrow> new_pages mapped page_of m (a # as) = new_pages mapped page_of m as"
  "\<not> mapped m (page_of a) \<Longrightarrow> \<forall>q. mapped m' q = (mapped m q \<or> q = page_of a) \<Longrightarrow>
   card (new_pages mapped page_of m (a # as)) = Suc (card (new_pages mapped page_of m' as))"
proof -
  assume n: "\<not> mapped m (page_of a)" and m': "\<forall>q. mapped m' q = (mapped m q \<or> q = page_of a)"
  have "new_pages mapped page_of m (a # as) = insert (page_of a) (new_pages mapped page_of m' as)"
    using n m' by (auto simp: new_pages_def)
  moreover have "page_of a \<notin> new_pages mapped page_of m' as" using m' by (simp add: new_pages_def)
  ultimately show "card (new_pages mapped page_of m (a # as)) = Suc (card (new_pages mapped page_of m' as))"
    by (simp add: new_pages_def)
qed (auto simp: new_pages_def)

lemma accesses_ok:
  assumes M: "maps_pages mapped map_to" and F: "frames_usable frame_of mm"
  shows "list_all heap_address as \<Longrightarrow> paging_ready pg m fa \<Longrightarrow> fa_memory_map fa = mm \<Longrightarrow>
    unat (fa_next fa) + 4 * card (new_pages mapped page_of m as) \<le> length (usable_frame_addresses mm) \<Longrightarrow>
    \<exists>pg' m' fa'. accesses frame_of page_of map_to mapped texts as (pg, pl) = Some (Inr (pg', pl)) \<and>
      paging_ready pg' m' fa' \<and> fa_memory_map fa' = mm \<and> (\<forall>q. mapped m' q = (mapped m q \<or> q \<in> page_of ` set as)) \<and>
      length (flushed pg') = length (flushed pg) + card (new_pages mapped page_of m as) \<and>
      unat (fa_next fa') \<le> unat (fa_next fa) + 4 * card (new_pages mapped page_of m as)"
proof (induction as arbitrary: pg m fa)
  case Nil
  then show ?case by (auto simp: new_pages_def)
next
  case (Cons a as)
  show ?case
  proof (cases "mapped m (page_of a)")
    case True
    have n: "new_pages mapped page_of m (a # as) = new_pages mapped page_of m as" using True by (rule new_pages_Cons)
    show ?thesis
      using Cons.IH [OF _ Cons.prems(2,3)] Cons.prems(1,4) access_mapped [OF Cons.prems(2), of mapped page_of a frame_of map_to texts pl] True
      unfolding n by fastforce
  next
    case False
    let ?n = "card (new_pages mapped page_of m (a # as))"
    have a: "heap_address a" "list_all heap_address as" using Cons.prems(1) by simp_all
    have pos: "0 < ?n" using False by (auto simp: new_pages_def card_gt_0_iff)
    then have room: "unat (fa_next fa) + 4 \<le> length (usable_frame_addresses (fa_memory_map fa))"
      using Cons.prems(3,4) by simp
    have F': "frames_usable frame_of (fa_memory_map fa)" using F Cons.prems(3) by simp
    obtain pg1 m1 fa1 where r: "access frame_of page_of map_to mapped texts a (pg, pl) = Some (Inr (pg1, pl))"
      "paging_ready pg1 m1 fa1" "fa_memory_map fa1 = fa_memory_map fa" "unat (fa_next fa1) \<le> unat (fa_next fa) + 4"
      "\<forall>q. mapped m1 q = (mapped m q \<or> q = page_of a)" "flushed pg1 = flushed pg @ [page_of a]"
      using access_unmapped [of mapped map_to frame_of fa a pg m page_of texts pl, OF M F' a(1) Cons.prems(2) False room] by (elim exE conjE) (rule that)
    have n: "?n = Suc (card (new_pages mapped page_of m1 as))" using False r(5) by (rule new_pages_Cons(2))
    have mm: "fa_memory_map fa1 = mm" using r(3) Cons.prems(3) by simp
    have lim: "unat (fa_next fa1) + 4 * card (new_pages mapped page_of m1 as) \<le> length (usable_frame_addresses mm)"
      using Cons.prems(4) r(4) n by simp
    obtain pg' m' fa' where ih: "accesses frame_of page_of map_to mapped texts as (pg1, pl) = Some (Inr (pg', pl))"
      "paging_ready pg' m' fa'" "fa_memory_map fa' = mm" "\<forall>q. mapped m' q = (mapped m1 q \<or> q \<in> page_of ` set as)"
      "length (flushed pg') = length (flushed pg1) + card (new_pages mapped page_of m1 as)"
      "unat (fa_next fa') \<le> unat (fa_next fa1) + 4 * card (new_pages mapped page_of m1 as)"
      using Cons.IH [OF a(2) r(2) mm lim] by (elim exE conjE) (rule that)
    show ?thesis
      using r(1,4,5,6) ih n by (intro exI [of _ pg'] exI [of _ m'] exI [of _ fa']) auto
  qed
qed

section \<open>The heap as a whole\<close>

text \<open>\<^verbatim>\<open>Page::containing_address\<close> is as documented if it gives two addresses the same page exactly when they lie in the same 4 KiB.\<close>

definition pages_of_4k :: "(u64 \<Rightarrow> 'page) \<Rightarrow> bool" where
  "pages_of_4k page_of = (\<forall>a b. page_of a = page_of b \<longleftrightarrow> unat a div 4096 = unat b div 4096)"

definition HEAP_PAGES :: nat where
  "HEAP_PAGES = 25600"

lemma heap_address_page:
  "heap_address a \<Longrightarrow> 0x444444440 \<le> unat a div 4096 \<and> unat a div 4096 < 0x444444440 + HEAP_PAGES"
  by (simp add: heap_address_def HEAP_START_def HEAP_SIZE_def HEAP_PAGES_def) linarith

lemma heap_pages_bound:
  assumes P: "pages_of_4k page_of" and as: "list_all heap_address as"
  shows "card (page_of ` set as) \<le> HEAP_PAGES"
proof -
  let ?n = "\<lambda>a :: u64. unat a div 4096"
  define g where "g = (\<lambda>n. page_of (SOME a. ?n a = n))"
  have "page_of a = g (?n a)" for a
  proof -
    have "?n (SOME b. ?n b = ?n a) = ?n a" by (rule someI [of "\<lambda>b. ?n b = ?n a"]) (rule refl)
    then show ?thesis using P by (simp add: pages_of_4k_def g_def)
  qed
  then have "page_of ` set as = g ` (?n ` set as)" by (auto simp: image_image)
  then have "card (page_of ` set as) \<le> card (?n ` set as)" by (simp add: card_image_le)
  also have "\<dots> \<le> card {0x444444440 ..< 0x444444440 + HEAP_PAGES}"
    by (rule card_mono) (use as heap_address_page in \<open>auto simp: list_all_iff\<close>)
  finally show ?thesis by simp
qed

lemma new_pages_le: "card (new_pages mapped page_of m as) \<le> card (page_of ` set as)"
  unfolding new_pages_def by (rule card_mono) auto

text \<open>
  C12 (heap_accesses_succeed): demand paging is invisible. With at least four usable frames for every page
  touched, any sequence of accesses to heap addresses succeeds, with nothing printed. Afterwards exactly
  the touched pages are mapped in addition, each has been faulted in exactly once, and no
  more than four frames per page are gone, one for the page and up to three for page tables. The hypothesis on the mapper says nothing
  of the flags a page is mapped with; \<^verbatim>\<open>Page_Faults\<close> has them.
\<close>

theorem heap_accesses_succeed:
  assumes "maps_pages mapped map_to" and "frames_usable frame_of (fa_memory_map fa)"
    and "list_all heap_address as" and "paging_ready pg m fa"
    and "unat (fa_next fa) + 4 * card (new_pages mapped page_of m as) \<le> length (usable_frame_addresses (fa_memory_map fa))"
  shows "\<exists>pg' m' fa'. accesses frame_of page_of map_to mapped texts as (pg, pl) = Some (Inr (pg', pl)) \<and>
    paging_ready pg' m' fa' \<and> fa_memory_map fa' = fa_memory_map fa \<and>
    (\<forall>q. mapped m' q = (mapped m q \<or> q \<in> page_of ` set as)) \<and>
    length (flushed pg') = length (flushed pg) + card (new_pages mapped page_of m as) \<and>
    unat (fa_next fa') \<le> unat (fa_next fa) + 4 * card (new_pages mapped page_of m as)"
  using accesses_ok [OF assms(1,2,3,4) refl assms(5)] .

text \<open>
  C30 (heap_always_fits): the heap has 25600 pages of 4 KiB, so on a machine with 102400 usable frames (400 MiB)
  no sequence of heap accesses after start-up ever ends in the handler's panic or in a
  fault loop, however long it is.
\<close>

theorem heap_always_fits:
  assumes "maps_pages mapped map_to" and "frames_usable frame_of mm" and "pages_of_4k page_of"
    and "102400 \<le> length (usable_frame_addresses mm)"
    and "paging_ready pg m (boot_info_init mm)" and "list_all heap_address as"
  shows "\<exists>pg'. accesses frame_of page_of map_to mapped texts as (pg, pl) = Some (Inr (pg', pl)) \<and>
    length (flushed pg') \<le> length (flushed pg) + 25600"
proof -
  have n: "card (new_pages mapped page_of m as) \<le> 25600"
    using heap_pages_bound [OF assms(3,6)] new_pages_le [of mapped page_of m as] by (simp add: HEAP_PAGES_def)
  have "\<exists>pg' m' fa'. accesses frame_of page_of map_to mapped texts as (pg, pl) = Some (Inr (pg', pl)) \<and>
      paging_ready pg' m' fa' \<and> fa_memory_map fa' = mm \<and> (\<forall>q. mapped m' q = (mapped m q \<or> q \<in> page_of ` set as)) \<and>
      length (flushed pg') = length (flushed pg) + card (new_pages mapped page_of m as) \<and>
      unat (fa_next fa') \<le> unat (fa_next (boot_info_init mm)) + 4 * card (new_pages mapped page_of m as)"
    using assms(4) n by (intro accesses_ok [OF assms(1,2,6,5)]) (simp_all add: boot_info_init_def)
  then show ?thesis using n by auto
qed

text \<open>
  When no usable frame is left, the next access to a heap page that is not
  mapped prints the report and panics; the accesses before it are not affected.
\<close>

theorem heap_exhaustion_panics:
  assumes "frames_usable frame_of (fa_memory_map fa)" and "heap_address a" and "paging_ready pg m fa" and "\<not> mapped m (page_of a)"
    and "length (usable_frame_addresses (fa_memory_map fa)) \<le> unat (fa_next fa)" and "unat (fa_next fa) + 1 < 2 ^ 64"
    and "console_ok (WRITER pl)"
  shows "access frame_of page_of map_to mapped texts a (pg, pl) = Some (Inl (Panic (ExplicitPanic ''Unhandled Page Fault'')))"
proof -
  have "unat (fa_next fa) + unat (1 :: u64) < 2 ^ LENGTH(64)" using assms(6) by simp
  then have "add_chk (fa_next fa) 1 = Inr (fa_next fa + 1)" by (simp add: add_chk_def)
  then have "allocate_frame frame_of fa = Inr (fa\<lparr>fa_next := fa_next fa + 1\<rparr>, None)"
    using assms(1,5) by (simp add: allocate_frame_def frames_usable_def frames_nth_ok)
  then have r: "\<exists>pg'. page_fault_resolve frame_of page_of map_to a pg = Inr (pg', False)"
    using assms(2,3) by (simp add: page_fault_resolve_def paging_ready_def mutex_lock_def in_heap_iff)
  have "page_fault_handler frame_of page_of map_to texts a (pg, pl) = Inl (Panic (ExplicitPanic ''Unhandled Page Fault''))"
    using page_fault_report [OF r assms(7)] .
  then show ?thesis using assms(3,4) by (subst access.simps) (simp add: paging_ready_def)
qed

section \<open>Example accesses\<close>

definition big_map :: memory_map where
  "big_map = [\<lparr>region_start_addr = 0x100000, region_end_addr = 0x19100000, region_usable = True\<rparr>]"

lemma big_map_frames: "length (usable_frame_addresses big_map) = 102400" "frames_usable Inr big_map"
  by (simp_all add: big_map_def usable_frame_addresses_def range_step_by_def frames_usable_def list_all_iff is_ok_def)

definition big_paging :: "((u64 \<times> u64) list, u64) paging" where
  "big_paging = \<lparr>MAPPER = \<lparr>held = False, inner = Some []\<rparr>,
     FRAME_ALLOCATOR = \<lparr>held = False, inner = Some (boot_info_init big_map)\<rparr>, flushed = []\<rparr>"

lemma big_paging_ready: "paging_ready big_paging [] (boot_info_init big_map)"
  by (simp add: paging_ready_def big_paging_def)

definition example_mapped :: "(u64 \<times> u64) list \<Rightarrow> u64 \<Rightarrow> bool" where
  "example_mapped m q = (q \<in> fst ` set m)"

lemma example_maps_pages: "maps_pages example_mapped example_map_to"
  by (auto simp: maps_pages_def example_map_to_def example_mapped_def)

lemma example_page_4k: "pages_of_4k example_page"
proof -
  have "unat (example_page a) = unat a div 4096 * 4096" for a
    using unat_and_not_mask [of a 12] by (simp add: example_page_def mask_eq_exp_minus_1)
  then show ?thesis by (simp add: pages_of_4k_def word_unat_eq_iff)
qed

lemma example_heap_addresses: "list_all heap_address [HEAP_START + 0x123, HEAP_START, HEAP_START + 0x1000]"
  by (simp add: heap_address_def HEAP_START_def HEAP_SIZE_def)

theorem heap_accesses_succeed_witness:
  "\<exists>pg' m'. accesses Inr example_page example_map_to example_mapped ([], [], [])
      [HEAP_START + 0x123, HEAP_START, HEAP_START + 0x1000] (big_paging, example_platform) = Some (Inr (pg', example_platform)) \<and>
    inner (MAPPER pg') = Some m' \<and> example_mapped m' HEAP_START \<and> \<not> example_mapped m' (HEAP_START + 0x2000) \<and>
    length (flushed pg') = 2"
proof -
  let ?as = "[HEAP_START + 0x123, HEAP_START, HEAP_START + 0x1000]"
  have im: "example_page ` set ?as = {HEAP_START, HEAP_START + 0x1000}" by (simp add: example_page_def HEAP_START_def)
  have "new_pages example_mapped example_page [] ?as = example_page ` set ?as"
    by (auto simp: new_pages_def example_mapped_def)
  then have n: "card (new_pages example_mapped example_page [] ?as) = 2" unfolding im by (simp add: HEAP_START_def)
  have "\<exists>pg' m' fa'. accesses Inr example_page example_map_to example_mapped ([], [], []) ?as (big_paging, example_platform) =
      Some (Inr (pg', example_platform)) \<and> paging_ready pg' m' fa' \<and> fa_memory_map fa' = fa_memory_map (boot_info_init big_map) \<and>
      (\<forall>q. example_mapped m' q = (example_mapped [] q \<or> q \<in> example_page ` set ?as)) \<and>
      length (flushed pg') = length (flushed big_paging) + card (new_pages example_mapped example_page [] ?as) \<and>
      unat (fa_next fa') \<le> unat (fa_next (boot_info_init big_map)) + 4 * card (new_pages example_mapped example_page [] ?as)"
    using big_map_frames n
    by (intro heap_accesses_succeed example_maps_pages example_heap_addresses big_paging_ready) (simp_all add: boot_info_init_def)
  then obtain pg' m' fa' where r: "accesses Inr example_page example_map_to example_mapped ([], [], []) ?as (big_paging, example_platform) =
      Some (Inr (pg', example_platform))" "paging_ready pg' m' fa'"
    "\<forall>q. example_mapped m' q = (example_mapped [] q \<or> q \<in> example_page ` set ?as)" "length (flushed pg') = length (flushed big_paging) + 2"
    unfolding n by blast
  have "example_mapped m' HEAP_START" "\<not> example_mapped m' (HEAP_START + 0x2000)"
    using r(3) unfolding im by (simp_all add: example_mapped_def HEAP_START_def)
  moreover have "length (flushed big_paging) = 0" by (simp add: big_paging_def)
  ultimately show ?thesis using r(1,2,4) by (auto simp: paging_ready_def)
qed

theorem heap_always_fits_witness:
  "\<exists>pg'. accesses Inr example_page example_map_to example_mapped ([], [], [])
      [HEAP_START + 0x123, HEAP_START, HEAP_START + 0x1000] (big_paging, example_platform) = Some (Inr (pg', example_platform))"
  using heap_always_fits [OF example_maps_pages big_map_frames(2) example_page_4k _ big_paging_ready example_heap_addresses,
      of "([], [], [])" example_platform] big_map_frames(1) by auto

definition used_up :: boot_info_frame_allocator where
  "used_up = \<lparr>fa_memory_map = demo_map, fa_next = 3\<rparr>"

theorem heap_exhaustion_panics_witness:
  "access Inr example_page example_map_to example_mapped ([], [], []) HEAP_START
     (example_paging\<lparr>FRAME_ALLOCATOR := \<lparr>held = False, inner = Some used_up\<rparr>\<rparr>, example_platform) =
   Some (Inl (Panic (ExplicitPanic ''Unhandled Page Fault'')))"
proof -
  have u: "frames_usable Inr (fa_memory_map used_up)" "heap_address HEAP_START" "unat (fa_next used_up) + 1 < 2 ^ 64"
    "length (usable_frame_addresses (fa_memory_map used_up)) \<le> unat (fa_next used_up)"
    by (simp_all add: used_up_def frames_usable_def demo_map_frames is_ok_def heap_address_def HEAP_START_def HEAP_SIZE_def)
  have r: "paging_ready (example_paging\<lparr>FRAME_ALLOCATOR := \<lparr>held = False, inner = Some used_up\<rparr>\<rparr>) [] used_up"
    by (simp add: paging_ready_def example_paging_def)
  have "\<not> example_mapped [] (example_page HEAP_START)" by (simp add: example_mapped_def)
  then show ?thesis by (rule heap_exhaustion_panics [OF u(1,2) r _ u(4,3) example_platform_ok(2)])
qed

end
