(* ===== verification/Preemption.thy ===== *)
theory Preemption
  imports Interrupts
begin

text \<open>
  The scheduler, the handlers and the processor together: \<open>runs\<close> is the system from the moment the
  root process exists, with arbitrary computation (which may print and use devices), locking, spawning,
  timer and keyboard interrupts in any order. It carries, for every process, a record of the processor state in which that process
  was last interrupted (or the frame it was created with), which no code reads; the theorems say that
  a process always continues from exactly that state.
\<close>

section \<open>The running system\<close>

text \<open>
  A stack is the address of its lowest byte and its size. A running process has \<open>room\<close> when an
  interrupt's frame and the handlers' own stack use fit below its stack pointer.
\<close>

type_synonym stack = "u64 \<times> nat"

definition stack_wf :: "stack \<Rightarrow> bool" where
  "stack_wf st = (unat (fst st) + snd st < 2 ^ 64)"

definition stack_extent :: "stack \<Rightarrow> extent" where
  "stack_extent st = (unat (fst st), snd st)"

definition stack_has :: "stack \<Rightarrow> u64 \<Rightarrow> bool" where
  "stack_has st x = in_range (fst st) (snd st) x"

definition room :: "nat \<Rightarrow> stack \<Rightarrow> u64 \<Rightarrow> bool" where
  "room depth st r = (unat (fst st) + depth + 176 \<le> unat r \<and> unat r \<le> unat (fst st) + snd st)"

definition frame_in :: "stack \<Rightarrow> u64 \<Rightarrow> bool" where
  "frame_in st p = (unat (fst st) \<le> unat p \<and> unat p + 160 \<le> unat (fst st) + snd st)"

lemma stack_has_iff:
  assumes "stack_wf st"
  shows "stack_has st x \<longleftrightarrow> unat (fst st) \<le> unat x \<and> unat x < unat (fst st) + snd st"
proof (cases "fst st \<le> x")
  case True
  then have le: "unat (fst st) \<le> unat x" by (simp add: word_le_nat_alt)
  have "unat (x - fst st) = unat x - unat (fst st)" using True by (rule unat_sub)
  then show ?thesis using le by (auto simp: stack_has_def in_range_def)
next
  case False
  then have lt: "unat x < unat (fst st)" by (simp add: word_le_nat_alt)
  have "unat (x - fst st) = 2 ^ 64 + unat x - unat (fst st)"
    using lt by (simp add: unat_sub_if_size word_size)
  then show ?thesis using lt assms by (auto simp: stack_has_def in_range_def stack_wf_def)
qed

lemma room_area:
  assumes "stack_wf st" and "room depth st (regs c RSP)"
  shows "frame_in st (frame_pointer c)" "interrupt_area depth c x \<Longrightarrow> stack_has st x"
proof -
  let ?r = "unat (regs c RSP)" and ?b = "unat (fst st)"
  have m: "(15::u64) = mask 4" by (simp add: mask_eq_exp_minus_1)
  define q where "q = ?r div 16 * 16"
  have a: "unat (regs c RSP AND NOT 15) = q"
    unfolding m q_def using unat_and_not_mask [of "regs c RSP" 4] by simp
  have lo: "?r < q + 16"
  proof -
    have "?r = q + ?r mod 16" by (simp add: q_def)
    moreover have "?r mod 16 < 16" by simp
    ultimately show ?thesis by linarith
  qed
  have hi: "q \<le> ?r" by (simp add: q_def)
  have rm: "?b + depth + 176 \<le> ?r" "?r \<le> ?b + snd st" using assms(2) by (simp_all add: room_def)
  have dl: "depth < 2 ^ 64" using rm unat_lt_usize [of "regs c RSP"] by simp
  have u: "unat (of_nat depth :: u64) = depth" using dl by (simp add: unat_of_nat take_bit_nat_eq_self)
  have "(160::u64) \<le> regs c RSP AND NOT 15" unfolding word_le_nat_alt a using lo rm by simp
  then have "unat (frame_pointer c) = unat (regs c RSP AND NOT 15) - unat (160::u64)"
    unfolding frame_pointer_def by (rule unat_sub)
  then have f: "unat (frame_pointer c) = q - 160" unfolding a by simp
  show "frame_in st (frame_pointer c)" using lo hi rm by (simp add: frame_in_def f)
  have "of_nat depth \<le> frame_pointer c" unfolding word_le_nat_alt f u using lo rm by simp
  then have g: "unat (frame_pointer c - of_nat depth) = q - 160 - depth"
    by (simp add: unat_sub f u)
  let ?area = "(frame_pointer c - of_nat depth, 160 + depth)"
  have wf: "stack_wf ?area" using assms(1) lo hi rm by (simp add: stack_wf_def g)
  show "stack_has st x" if "interrupt_area depth c x"
  proof -
    have "stack_has ?area x" using that by (simp add: stack_has_def interrupt_area_def)
    then have "q - 160 - depth \<le> unat x" "unat x < q - 160 - depth + (160 + depth)"
      by (simp_all add: stack_has_iff [OF wf] g)
    then have "?b \<le> unat x" "unat x < ?b + snd st" using lo hi rm by linarith+
    then show ?thesis by (simp add: stack_has_iff [OF assms(1)])
  qed
qed

lemma frame_in_has:
  assumes "stack_wf st" and "frame_in st p" and "in_range p 160 x"
  shows "stack_has st x"
proof -
  have wf: "stack_wf (p, 160)" using assms(1,2) by (simp add: stack_wf_def frame_in_def)
  have "stack_has (p, 160) x" using assms(3) by (simp add: stack_has_def)
  then show ?thesis
    using assms(2) by (simp add: stack_has_iff [OF wf] stack_has_iff [OF assms(1)] frame_in_def)
qed

definition stacks_ok :: "stack list \<Rightarrow> bool" where
  "stacks_ok sts = (list_all stack_wf sts \<and> all_apart (map stack_extent sts))"

lemma stacks_disjoint:
  assumes "stacks_ok sts" and "i < length sts" "j < length sts" "i \<noteq> j" and "stack_has (sts ! i) x"
  shows "\<not> stack_has (sts ! j) x"
proof -
  have wf: "stack_wf (sts ! i)" "stack_wf (sts ! j)" using assms by (simp_all add: stacks_ok_def list_all_length)
  have sw: "sorted_wrt apart (map stack_extent sts)" using assms(1) by (simp add: stacks_ok_def all_apart_def)
  have "apart (stack_extent (sts ! i)) (stack_extent (sts ! j)) \<or> apart (stack_extent (sts ! j)) (stack_extent (sts ! i))"
    using sorted_wrt_nth_less [OF sw, of i j] sorted_wrt_nth_less [OF sw, of j i] assms(2-4)
    by (cases "i < j") simp_all
  then show ?thesis
    using assms(5) by (auto simp: stack_has_iff [OF wf(1)] stack_has_iff [OF wf(2)] apart_def stack_extent_def)
qed

text \<open>The current process of the table.\<close>

definition cur :: "kernel \<Rightarrow> nat" where
  "cur k = current_index (sched_of k)"

definition set_held :: "bool \<Rightarrow> kernel \<Rightarrow> kernel" where
  "set_held b k = k\<lparr>SCHEDULER := (SCHEDULER k)\<lparr>held := b\<rparr>\<rparr>"

inductive runs ::
  "abi \<Rightarrow> (u8 \<Rightarrow> 'p \<Rightarrow> 'p) \<Rightarrow> 'd ports \<Rightarrow> nat \<Rightarrow> kernel \<Rightarrow> ('p, 'd) platform \<Rightarrow> cpu \<Rightarrow>
   (nat \<Rightarrow> u64 list) \<Rightarrow> stack list \<Rightarrow> bool"
  for abi notify io depth where
  boot: "inner (SCHEDULER k) = Some (spawn_root \<lparr>processes = [], current_index = 0\<rparr>) \<Longrightarrow>
    stack_wf st \<Longrightarrow> room depth st (regs c RSP) \<Longrightarrow> runs abi notify io depth k pl c snap [st]"
| compute: "runs abi notify io depth k pl c snap sts \<Longrightarrow>
    (\<And>j x. j < length sts \<Longrightarrow> j \<noteq> cur k \<Longrightarrow> stack_has (sts ! j) x \<Longrightarrow> mem c' x = mem c x) \<Longrightarrow>
    room depth (sts ! cur k) (regs c' RSP) \<Longrightarrow> runs abi notify io depth k pl' c' snap sts"
| lock: "runs abi notify io depth k pl c snap sts \<Longrightarrow> \<not> held (SCHEDULER k) \<Longrightarrow>
    runs abi notify io depth (set_held True k) pl c snap sts"
| unlock: "runs abi notify io depth k pl c snap sts \<Longrightarrow> held (SCHEDULER k) \<Longrightarrow>
    runs abi notify io depth (set_held False k) pl c snap sts"
| spawn: "runs abi notify io depth k pl c snap sts \<Longrightarrow> held (SCHEDULER k) \<Longrightarrow>
    spawnable base \<Longrightarrow> stacks_ok (sts @ [(base, STACK_SIZE)]) \<Longrightarrow>
    spawn (Some base) entry_point (NEXT_PID k, sched_of k, mem c) = Inr (pid, next_pid, s', m') \<Longrightarrow>
    runs abi notify io depth ((set_sched s' k)\<lparr>NEXT_PID := next_pid\<rparr>) pl (c\<lparr>mem := m'\<rparr>)
      (snap(length sts := initial_frame entry_point (base + of_nat STACK_SIZE))) (sts @ [(base, STACK_SIZE)])"
| timer: "runs abi notify io depth k pl c snap sts \<Longrightarrow> interrupts_enabled c \<Longrightarrow>
    timer_interrupt_handler abi notify (k, pl, deliver h c) = Inr (k', pl', c') \<Longrightarrow>
    runs abi notify io depth k' pl' c' (snap(cur k := arch c)) sts"
| keyboard: "runs abi notify io depth k pl c snap sts \<Longrightarrow> interrupts_enabled c \<Longrightarrow>
    keyboard_interrupt_handler abi io notify (k, pl, deliver h c) = Inr (k', pl', c') \<Longrightarrow>
    runs abi notify io depth k' pl' c' (snap(cur k := arch c)) sts"

text \<open>
  The invariant: every process but the current one has its saved state in a frame on its own stack,
  at the stack pointer its table entry holds, and would have room to run.
\<close>

definition suspended :: "nat \<Rightarrow> memory \<Rightarrow> u64 \<Rightarrow> u64 list \<Rightarrow> stack \<Rightarrow> bool" where
  "suspended depth m p vs st =
     (length vs = 20 \<and> stored m p vs \<and> frame_in st p \<and> room depth st (vs ! 18))"

definition saved_rsp :: "kernel \<Rightarrow> nat \<Rightarrow> u64" where
  "saved_rsp k j = pc_rsp (proc_context (processes (sched_of k) ! j))"

definition system_ok :: "nat \<Rightarrow> kernel \<Rightarrow> cpu \<Rightarrow> (nat \<Rightarrow> u64 list) \<Rightarrow> stack list \<Rightarrow> bool" where
  "system_ok depth k c snap sts =
     (inner (SCHEDULER k) = Some (sched_of k) \<and> sched_ok (sched_of k) \<and>
      length sts = length (processes (sched_of k)) \<and> stacks_ok sts \<and>
      room depth (sts ! cur k) (regs c RSP) \<and>
      (\<forall>j<length sts. j \<noteq> cur k \<longrightarrow> suspended depth (mem c) (saved_rsp k j) (snap j) (sts ! j)))"

lemma suspended_cong:
  assumes "suspended depth m p vs st" and "stack_wf st" and "\<And>x. stack_has st x \<Longrightarrow> m' x = m x"
  shows "suspended depth m' p vs st"
proof -
  have "stored m' p vs \<longleftrightarrow> stored m p vs"
  proof (rule stored_cong)
    fix x
    assume "in_range p (8 * length vs) x"
    then have "in_range p 160 x" using assms(1) by (simp add: suspended_def)
    then have "stack_has st x" using assms(1) frame_in_has [OF assms(2)] by (auto simp: suspended_def)
    then show "m' x = m x" by (rule assms(3))
  qed (use assms(1) in \<open>simp add: suspended_def\<close>)
  then show ?thesis using assms(1) by (simp add: suspended_def)
qed

lemma system_okD:
  assumes "system_ok depth k c snap sts"
  shows "inner (SCHEDULER k) = Some (sched_of k)" "sched_ok (sched_of k)"
    "length sts = length (processes (sched_of k))" "stacks_ok sts" "room depth (sts ! cur k) (regs c RSP)"
    "cur k < length sts" "stack_wf (sts ! cur k)"
    "\<And>j. j < length sts \<Longrightarrow> j \<noteq> cur k \<Longrightarrow> suspended depth (mem c) (saved_rsp k j) (snap j) (sts ! j)"
proof -
  show "cur k < length sts" using assms by (simp add: system_ok_def sched_ok_def cur_def)
  then show "stack_wf (sts ! cur k)" using assms by (auto simp: system_ok_def stacks_ok_def list_all_length)
qed (use assms in \<open>auto simp: system_ok_def\<close>)

lemma stack_wf_nth: "stacks_ok sts \<Longrightarrow> j < length sts \<Longrightarrow> stack_wf (sts ! j)"
  by (simp add: stacks_ok_def list_all_length)

lemma room_rsp: "arch c = vs \<Longrightarrow> vs ! 18 = regs c RSP"
  by (auto simp: arch_def restore_order_def)

text \<open>One interrupt, whichever handler: the invariant is kept and the chosen process continues.\<close>

definition stays :: "kernel \<Rightarrow> bool" where
  "stays k = (held (SCHEDULER k) \<or> length (processes (sched_of k)) < 2)"

lemma interrupt_room:
  assumes "system_ok depth k c snap sts"
  shows "depth + 160 \<le> 2 ^ 64"
  using system_okD(5) [OF assms] unat_lt_usize [of "regs c RSP"] by (simp add: room_def)

text \<open>Writes to the current stack leave the other processes suspended as they are.\<close>

lemma suspended_keeps:
  assumes ok: "system_ok depth k c snap sts" and m: "\<And>x. \<not> stack_has (sts ! cur k) x \<Longrightarrow> m' x = mem c x"
    and j: "j < length sts" "j \<noteq> cur k"
  shows "suspended depth m' (saved_rsp k j) (snap j) (sts ! j)"
proof -
  note K = system_okD [OF ok]
  show ?thesis
    using suspended_cong [OF K(8) [OF j] stack_wf_nth [OF K(4) j(1)]] m stacks_disjoint [OF K(4) j(1) K(6) j(2)] by blast
qed

lemma interrupt_stays:
  assumes ok: "system_ok depth k c snap sts" and abi: "abi_ok depth abi" and st: "stays k"
  shows "\<exists>c'. switch_frames f abi k (deliver h c) = Inr (k, c') \<and> system_ok depth k c' (snap(cur k := arch c)) sts \<and>
    arch c' = arch c \<and> (\<forall>x. \<not> interrupt_area depth c x \<longrightarrow> mem c' x = mem c x)"
proof -
  note K = system_okD [OF ok]
  obtain c' where c': "switch_frames f abi k (deliver h c) = Inr (k, c')" "arch c' = arch c"
    "\<forall>x. \<not> interrupt_area depth c x \<longrightarrow> mem c' x = mem c x"
    using switch_frames_stay [OF abi interrupt_room [OF ok], of k f h c] st unfolding stays_def by blast
  have "mem c' x = mem c x" if "\<not> stack_has (sts ! cur k) x" for x using that c'(3) room_area(2) [OF K(7,5)] by blast
  then have "suspended depth (mem c') (saved_rsp k j) (snap j) (sts ! j)" if "j < length sts" "j \<noteq> cur k" for j
    using suspended_keeps [OF ok _ that] by blast
  moreover have "regs c' RSP = regs c RSP" using room_rsp [OF c'(2)] room_rsp [of c "arch c"] by simp
  ultimately show ?thesis using K c' by (simp add: system_ok_def)
qed

lemma interrupt_switches:
  assumes ok: "system_ok depth k c snap sts" and abi: "abi_ok depth abi" and st: "\<not> stays k"
    and n: "n = next_index (sched_of k)"
  shows "\<exists>k' c'. switch_frames f abi k (deliver h c) = Inr (k', c') \<and> system_ok depth k' c' (snap(cur k := arch c)) sts \<and>
    arch c' = snap n \<and> cur k' = n \<and> n \<noteq> cur k \<and> (\<forall>x. \<not> interrupt_area depth c x \<longrightarrow> mem c' x = mem c x) \<and>
    held (SCHEDULER k') = held (SCHEDULER k) \<and> length (processes (sched_of k')) = length (processes (sched_of k))"
proof -
  note K = system_okD [OF ok]
  note area = room_area [OF K(7,5)]
  let ?s = "sched_of k"
  have kok: "kernel_ok k" using st K(1,2) by (simp add: kernel_ok_def stays_def)
  have two: "2 \<le> length (processes ?s)" using st by (simp add: stays_def)
  have n': "n < length sts" "n \<noteq> cur k"
    using next_index_less [OF two] next_index_neq [OF K(2) two] K(3) n by (simp_all add: cur_def)
  let ?p = "pc_rsp (proc_context (processes ?s ! n))"
  have sus: "stored (mem c) ?p (snap n)" "length (snap n) = 20" "frame_in (sts ! n) ?p" "room depth (sts ! n) (snap n ! 18)"
    using K(8) [OF n'] by (simp_all add: suspended_def saved_rsp_def)
  have ap: "\<not> interrupt_area depth c x" if "in_range ?p 160 x" for x
    using frame_in_has [OF stack_wf_nth [OF K(4) n'(1)] sus(3) that] area(2) stacks_disjoint [OF K(4) n'(1) K(6) n'(2)] by blast
  let ?ctx = "(proc_context (processes ?s ! current_index ?s))\<lparr>pc_rsp := frame_pointer c\<rparr>"
  let ?k = "set_sched (rr_step ?ctx ?s) k"
  obtain c' where c': "switch_frames f abi k (deliver h c) = Inr (?k, c')" "arch c' = snap n"
    "stored (mem c') (frame_pointer c) (arch c)" "\<forall>x. \<not> interrupt_area depth c x \<longrightarrow> mem c' x = mem c x"
    using switch_frames_switch [OF abi interrupt_room [OF ok] kok two refl _ sus(1,2) ap] n by blast
  have ck: "cur ?k = n" by (simp add: cur_def n)
  have m: "mem c' x = mem c x" if "\<not> stack_has (sts ! cur k) x" for x using that c'(4) area(2) by blast
  have "suspended depth (mem c') (saved_rsp ?k j) ((snap(cur k := arch c)) j) (sts ! j)" if j: "j < length sts" "j \<noteq> n" for j
    using c'(3) area(1) K(5) suspended_keeps [OF ok m j(1)] rr_step_context [OF K(2) two, of j ?ctx] j(1) K(3)
    by (cases "j = cur k") (simp_all add: suspended_def saved_rsp_def cur_def room_rsp [OF refl])
  moreover have "regs c' RSP = snap n ! 18" using room_rsp [OF c'(2)] by simp
  ultimately have "system_ok depth ?k c' (snap(cur k := arch c)) sts"
    using K(3,4) sus(4) rr_step_ok [OF K(2) two] kok unfolding system_ok_def ck
    by (simp add: set_sched_def sched_of_def)
  then show ?thesis using c'(1,2,4) ck n'(2) by auto
qed

lemma interrupt_keeps:
  assumes ok: "system_ok depth k c snap sts" and abi: "abi_ok depth abi"
  shows "\<exists>k' c'. switch_frames f abi k (deliver h c) = Inr (k', c') \<and>
    system_ok depth k' c' (snap(cur k := arch c)) sts \<and>
    arch c' = (snap(cur k := arch c)) (cur k') \<and>
    cur k' = (if stays k then cur k else next_index (sched_of k)) \<and>
    (\<forall>x. \<not> stack_has (sts ! cur k) x \<longrightarrow> mem c' x = mem c x) \<and>
    (\<forall>x. \<not> interrupt_area depth c x \<longrightarrow> mem c' x = mem c x) \<and>
    held (SCHEDULER k') = held (SCHEDULER k) \<and> length (processes (sched_of k')) = length (processes (sched_of k))"
proof -
  have area: "interrupt_area depth c x \<Longrightarrow> stack_has (sts ! cur k) x" for x
    using room_area(2) [OF system_okD(7) [OF ok] system_okD(5) [OF ok]] by blast
  show ?thesis
  proof (cases "stays k")
    case True
    then show ?thesis using interrupt_stays [OF ok abi, of f h] area by auto
  next
    case False
    from interrupt_switches [OF ok abi False refl, of f h]
    show ?thesis using area False by (elim exE conjE) (intro exI conjI, assumption, auto)
  qed
qed

lemma set_held_simps [simp]:
  "sched_of (set_held b k) = sched_of k" "cur (set_held b k) = cur k" "saved_rsp (set_held b k) j = saved_rsp k j"
  "inner (SCHEDULER (set_held b k)) = inner (SCHEDULER k)" "held (SCHEDULER (set_held b k)) = b"
  by (simp_all add: set_held_def sched_of_def cur_def saved_rsp_def)

lemma boot_keeps:
  assumes "inner (SCHEDULER k) = Some (spawn_root \<lparr>processes = [], current_index = 0\<rparr>)"
    and "stack_wf st" and "room depth st (regs c RSP)"
  shows "system_ok depth k c snap [st]"
  using assms by (simp add: system_ok_def sched_of_def spawn_root_def sched_ok_def stacks_ok_def cur_def)

lemma spawn_keeps:
  assumes ok: "system_ok depth k c snap sts" and base: "spawnable base" "stacks_ok (sts @ [(base, STACK_SIZE)])"
    and sp: "spawn (Some base) entry_point (NEXT_PID k, sched_of k, mem c) = Inr (pid, next_pid, s', m')"
    and depth: "depth + 176 \<le> STACK_SIZE"
  shows "system_ok depth ((set_sched s' k)\<lparr>NEXT_PID := next_pid\<rparr>) (c\<lparr>mem := m'\<rparr>)
    (snap(length sts := initial_frame entry_point (base + of_nat STACK_SIZE))) (sts @ [(base, STACK_SIZE)])"
proof -
  note K = system_okD [OF ok]
  obtain p where p: "s' = (sched_of k)\<lparr>processes := processes (sched_of k) @ [p]\<rparr>" "proc_state p = Ready"
    "unat (pc_rsp (proc_context p)) = unat base + STACK_SIZE - 160"
    "stored m' (pc_rsp (proc_context p)) (initial_frame entry_point (base + of_nat STACK_SIZE))"
    "\<And>x. \<not> in_range base STACK_SIZE x \<Longrightarrow> m' x = mem c x"
    using spawn_ok [OF base(1), of entry_point "NEXT_PID k" "sched_of k" "mem c"] sp by auto
  let ?k = "(set_sched s' k)\<lparr>NEXT_PID := next_pid\<rparr>"
  let ?snap = "snap(length sts := initial_frame entry_point (base + of_nat STACK_SIZE))"
  let ?sts = "sts @ [(base, STACK_SIZE)]"
  have k: "sched_of ?k = s'" "cur ?k = cur k" "inner (SCHEDULER ?k) = Some s'"
    using p(1) by (simp_all add: set_sched_def sched_of_def cur_def)
  have ok': "sched_ok s'" using K(2) p(1,2) by (auto simp: sched_ok_def nth_append less_Suc_eq)
  have len: "length ?sts = length (processes s')" using K(3) p(1) by simp
  have "suspended depth m' (saved_rsp ?k j) (?snap j) (?sts ! j)" if j: "j < length ?sts" "j \<noteq> cur k" for j
  proof (cases "j = length sts")
    case True
    have "room depth (base, STACK_SIZE) (base + of_nat STACK_SIZE)"
      using depth spawnable_top(1) [OF base(1)] by (simp add: room_def)
    moreover have "frame_in (base, STACK_SIZE) (pc_rsp (proc_context p))"
      using p(3) by (simp add: frame_in_def STACK_SIZE_def)
    moreover have "saved_rsp ?k j = pc_rsp (proc_context p)"
      unfolding saved_rsp_def k(1) using True K(3) p(1) by simp
    ultimately show ?thesis using True p(4) by (simp add: suspended_def initial_frame_def nth_append)
  next
    case False
    then have j': "j < length sts" using j(1) by simp
    have "\<not> in_range base STACK_SIZE x" if "stack_has (sts ! j) x" for x
      using stacks_disjoint [OF base(2), of j "length sts" x] j' that by (simp add: nth_append stack_has_def)
    then have "suspended depth m' (saved_rsp k j) (snap j) (sts ! j)"
      using suspended_cong [OF K(8) [OF j' j(2)] stack_wf_nth [OF K(4) j']] p(5) by blast
    moreover have "saved_rsp ?k j = saved_rsp k j"
      unfolding saved_rsp_def k(1) using j' K(3) p(1) by (simp add: nth_append)
    ultimately show ?thesis using j' False by (simp add: nth_append)
  qed
  moreover have "room depth (?sts ! cur k) (regs c RSP)" using K(5,6) by (simp add: nth_append)
  ultimately show ?thesis using ok' len base(2) by (simp add: system_ok_def k)
qed

lemma runs_system_ok:
  assumes "runs abi notify io depth k pl c snap sts" and "abi_ok depth abi" and "depth + 176 \<le> STACK_SIZE"
  shows "system_ok depth k c snap sts"
  using assms(1)
proof induction
  case (boot k st c pl snap)
  then show ?case by (rule boot_keeps)
next
  case (compute k pl c snap sts c' pl')
  note K = system_okD [OF compute.IH]
  have "suspended depth (mem c') (saved_rsp k j) (snap j) (sts ! j)" if j: "j < length sts" "j \<noteq> cur k" for j
    using suspended_cong [OF K(8) [OF j] stack_wf_nth [OF K(4) j(1)]] compute.hyps(2) [OF j] by blast
  then show ?case using compute.IH compute.hyps(3) by (simp add: system_ok_def)
next
  case (lock k pl c snap sts)
  then show ?case by (simp add: system_ok_def)
next
  case (unlock k pl c snap sts)
  then show ?case by (simp add: system_ok_def)
next
  case (spawn k pl c snap sts base entry_point pid next_pid s' m')
  then show ?case using spawn_keeps [OF spawn.IH spawn.hyps(3,4,5) assms(3)] by blast
next
  case (timer k pl c snap sts h k' pl' c')
  obtain k2 c2 where "switch_frames SignalEoi abi k (deliver h c) = Inr (k2, c2)"
    "system_ok depth k2 c2 (snap(cur k := arch c)) sts"
    using interrupt_keeps [OF timer.IH assms(2), of SignalEoi h] by blast
  moreover from this have "k2 = k'" "c2 = c'"
    using timer.hyps(3) by (auto simp: timer_interrupt_handler_eq kernel_simps)
  ultimately show ?case by blast
next
  case (keyboard k pl c snap sts h k' pl' c')
  obtain k2 c2 where "switch_frames HandleKeyboardIoAndEoi abi k (deliver h c) = Inr (k2, c2)"
    "system_ok depth k2 c2 (snap(cur k := arch c)) sts"
    using interrupt_keeps [OF keyboard.IH assms(2), of HandleKeyboardIoAndEoi h] by blast
  moreover from this have "k2 = k'" "c2 = c'"
    using keyboard.hyps(3) by (auto simp: keyboard_interrupt_handler_eq kernel_simps)
  ultimately show ?case by blast
qed

lemma tick_full:
  assumes "runs abi notify io depth k pl c snap sts" and "abi_ok depth abi" and "depth + 176 \<le> STACK_SIZE"
    and "\<not> held (PICS pl)"
  shows "\<exists>k' pl' c'. timer_interrupt_handler abi notify (k, pl, deliver h c) = Inr (k', pl', c') \<and>
    arch c' = (snap(cur k := arch c)) (cur k') \<and>
    cur k' = (if stays k then cur k else (cur k + 1) mod length (processes (sched_of k))) \<and>
    (\<forall>x. \<not> stack_has (sts ! cur k) x \<longrightarrow> mem c' x = mem c x) \<and>
    (\<forall>x. \<not> interrupt_area depth c x \<longrightarrow> mem c' x = mem c x) \<and>
    held (SCHEDULER k') = held (SCHEDULER k) \<and> length (processes (sched_of k')) = length (processes (sched_of k)) \<and>
    \<not> held (PICS pl')"
proof -
  obtain pl' where "signal_eoi notify pl = Inr pl'" "\<not> held (PICS pl')"
    using assms(4) by (simp add: signal_eoi_def end_of_interrupt_def mutex_lock_def)
  moreover obtain k' c' where "switch_frames SignalEoi abi k (deliver h c) = Inr (k', c')"
    and r: "arch c' = (snap(cur k := arch c)) (cur k')" "cur k' = (if stays k then cur k else next_index (sched_of k))"
      "\<forall>x. \<not> stack_has (sts ! cur k) x \<longrightarrow> mem c' x = mem c x" "\<forall>x. \<not> interrupt_area depth c x \<longrightarrow> mem c' x = mem c x"
      "held (SCHEDULER k') = held (SCHEDULER k)" "length (processes (sched_of k')) = length (processes (sched_of k))"
    using interrupt_keeps [OF runs_system_ok [OF assms(1-3)] assms(2), of SignalEoi h] by blast
  ultimately have "timer_interrupt_handler abi notify (k, pl, deliver h c) = Inr (k', pl', c')" "\<not> held (PICS pl')"
    by (simp_all add: timer_interrupt_handler_eq)
  moreover have "cur k' = (if stays k then cur k else (cur k + 1) mod length (processes (sched_of k)))"
    using r(2) by (simp add: next_index_def cur_def)
  ultimately show ?thesis using r(1,3-6) by blast
qed

text \<open>
  C2 (preemption_transparent): however the system has run, a timer interrupt succeeds and continues
  the process it chooses in exactly the state, all sixteen registers, instruction pointer, flags and
  segments, in which that process was last interrupted, or in its initial state if it has never run.
  The chosen process is the next one of the table, or the interrupted one if the scheduler is locked or
  has a single process, and no byte outside the stack of the interrupted process changes.
\<close>

theorem preemption_transparent:
  assumes "runs abi notify io depth k pl c snap sts" and "abi_ok depth abi" and "depth + 176 \<le> STACK_SIZE"
    and "\<not> held (PICS pl)"
  shows "\<exists>k' pl' c'. timer_interrupt_handler abi notify (k, pl, deliver h c) = Inr (k', pl', c') \<and>
    arch c' = (snap(cur k := arch c)) (cur k') \<and>
    cur k' = (if held (SCHEDULER k) \<or> length (processes (sched_of k)) < 2 then cur k
              else (cur k + 1) mod length (processes (sched_of k))) \<and>
    (\<forall>x. \<not> stack_has (sts ! cur k) x \<longrightarrow> mem c' x = mem c x)"
  using tick_full [OF assms, of h] unfolding stays_def by blast

text \<open>
  C22 (keyboard_transparent): a key press does the same, whatever the keyboard sends, as long as
  the console is free; the console is free again afterwards.
\<close>

theorem keyboard_transparent:
  assumes "runs abi notify io depth k pl c snap sts" and "abi_ok depth abi" and "depth + 176 \<le> STACK_SIZE"
    and "\<not> held (PICS pl)" and "console_ok (WRITER pl)"
  shows "\<exists>k' pl' c'. keyboard_interrupt_handler abi io notify (k, pl, deliver h c) = Inr (k', pl', c') \<and>
    arch c' = (snap(cur k := arch c)) (cur k') \<and> console_ok (WRITER pl') \<and> \<not> held (PICS pl') \<and>
    cur k' = (if held (SCHEDULER k) \<or> length (processes (sched_of k)) < 2 then cur k
              else (cur k + 1) mod length (processes (sched_of k))) \<and>
    (\<forall>x. \<not> stack_has (sts ! cur k) x \<longrightarrow> mem c' x = mem c x)"
proof -
  obtain scancode d where d: "in8 io 0x60 (devices pl) = (scancode, d)" by (cases "in8 io 0x60 (devices pl)")
  obtain pl' where "handle_keyboard_io_and_eoi io notify pl = Inr pl'" "console_ok (WRITER pl')" "\<not> held (PICS pl')"
    using println_ok [of "pl\<lparr>devices := d\<rparr>"] assms(4,5) d
    by (simp add: handle_keyboard_io_and_eoi_def end_of_interrupt_def mutex_lock_def console_ok_def)
  moreover obtain k' c' where "switch_frames HandleKeyboardIoAndEoi abi k (deliver h c) = Inr (k', c')"
    and r: "arch c' = (snap(cur k := arch c)) (cur k')" "cur k' = (if stays k then cur k else next_index (sched_of k))"
      "\<forall>x. \<not> stack_has (sts ! cur k) x \<longrightarrow> mem c' x = mem c x"
    using interrupt_keeps [OF runs_system_ok [OF assms(1-3)] assms(2), of HandleKeyboardIoAndEoi h] by blast
  ultimately have "keyboard_interrupt_handler abi io notify (k, pl, deliver h c) = Inr (k', pl', c')"
    "console_ok (WRITER pl')" "\<not> held (PICS pl')"
    by (simp_all add: keyboard_interrupt_handler_eq)
  moreover have "next_index (sched_of k) = (cur k + 1) mod length (processes (sched_of k))"
    by (simp add: next_index_def cur_def)
  ultimately show ?thesis using r unfolding stays_def by metis
qed

section \<open>A full cycle\<close>

text \<open>
  \<open>confined depth sts j f\<close>: what process \<open>j\<close> computes in a turn. It may do anything to the processor and
  to memory, except to the stacks of the other processes, and keeps room on its own and interrupts on.
\<close>

definition confined :: "nat \<Rightarrow> stack list \<Rightarrow> nat \<Rightarrow> (cpu \<Rightarrow> cpu) \<Rightarrow> bool" where
  "confined depth sts j f = (\<forall>c. room depth (sts ! j) (regs c RSP) \<longrightarrow>
     room depth (sts ! j) (regs (f c) RSP) \<and> interrupts_enabled (f c) \<and>
     (\<forall>i x. i < length sts \<longrightarrow> i \<noteq> j \<longrightarrow> stack_has (sts ! i) x \<longrightarrow> mem (f c) x = mem c x))"

text \<open>One process computes on its own stack and is interrupted; the stack of process \<open>t\<close> is left alone.\<close>

lemma turn_and_tick:
  assumes abi: "abi_ok depth abi" "depth + 176 \<le> STACK_SIZE" and t: "t < length sts"
    and r: "runs abi notify io depth k pl c snap sts" and free: "\<not> held (PICS pl)" "\<not> stays k"
    and n: "n = length (processes (sched_of k))" and ck: "cur k \<noteq> t" and cf: "confined depth sts (cur k) f"
    and snap': "snap' = snap(cur k := arch (f c))"
  shows "\<exists>k' pl' c'. timer_interrupt_handler abi notify (k, pl, deliver h (f c)) = Inr (k', pl', c') \<and>
    runs abi notify io depth k' pl' c' snap' sts \<and> arch c' = snap' (cur k') \<and> cur k' = (cur k + 1) mod n \<and>
    \<not> stays k' \<and> n = length (processes (sched_of k')) \<and> \<not> held (PICS pl') \<and>
    (\<forall>x. stack_has (sts ! t) x \<longrightarrow> mem c' x = mem c x)"
proof -
  note K = system_okD [OF runs_system_ok [OF r abi]]
  have f: "room depth (sts ! cur k) (regs (f c) RSP)" "interrupts_enabled (f c)"
    "\<And>i x. i < length sts \<Longrightarrow> i \<noteq> cur k \<Longrightarrow> stack_has (sts ! i) x \<Longrightarrow> mem (f c) x = mem c x"
    using cf K(5) by (auto simp: confined_def)
  have r1: "runs abi notify io depth k pl (f c) snap sts" using r f(3,1) by (rule runs.compute)
  obtain k' pl' c' where t1: "timer_interrupt_handler abi notify (k, pl, deliver h (f c)) = Inr (k', pl', c')"
    and a: "arch c' = snap' (cur k')" "cur k' = (cur k + 1) mod n" "\<forall>x. \<not> stack_has (sts ! cur k) x \<longrightarrow> mem c' x = mem (f c) x"
      "held (SCHEDULER k') = held (SCHEDULER k)" "length (processes (sched_of k')) = n" "\<not> held (PICS pl')"
    using tick_full [OF r1 abi free(1), of h] free(2) n unfolding snap' by auto
  have "runs abi notify io depth k' pl' c' snap' sts" unfolding snap' using r1 f(2) t1 by (rule runs.timer)
  moreover have "\<not> stays k'" using a(4,5) free(2) n by (simp add: stays_def)
  moreover have "mem c' x = mem c x" if "stack_has (sts ! t) x" for x
    using that a(3) f(3) [OF t ck [symmetric] that] stacks_disjoint [OF K(4) t K(6) ck [symmetric] that] by simp
  ultimately show ?thesis using t1 a(1,2,5,6) by blast
qed

text \<open>Each turn is a computation ended by a timer tick.\<close>

definition turns_and_ticks ::
  "abi \<Rightarrow> (u8 \<Rightarrow> 'p \<Rightarrow> 'p) \<Rightarrow> u64 \<Rightarrow> (cpu \<Rightarrow> cpu) list \<Rightarrow> kernel \<times> ('p, 'd) platform \<times> cpu \<Rightarrow>
   (kernel \<times> ('p, 'd) platform \<times> cpu) result" where
  "turns_and_ticks abi notify h fs =
     for_loop fs (\<lambda>f (k, pl, c). timer_interrupt_handler abi notify (k, pl, deliver h (f c)))"

lemma others_take_turns:
  assumes abi: "abi_ok depth abi" "depth + 176 \<le> STACK_SIZE" and t: "t < length sts"
  shows "runs abi notify io depth k pl c snap sts \<Longrightarrow> \<not> held (PICS pl) \<Longrightarrow> \<not> stays k \<Longrightarrow>
    n = length (processes (sched_of k)) \<Longrightarrow>
    (\<And>i. i < length fs \<Longrightarrow> (cur k + i) mod n \<noteq> t \<and> confined depth sts ((cur k + i) mod n) (fs ! i)) \<Longrightarrow>
    \<exists>k' pl' c' snap'. turns_and_ticks abi notify h fs (k, pl, c) = Inr (k', pl', c') \<and>
      runs abi notify io depth k' pl' c' snap' sts \<and> snap' t = snap t \<and> cur k' = (cur k + length fs) mod n \<and>
      (fs = [] \<longrightarrow> snap' = snap) \<and> (fs \<noteq> [] \<longrightarrow> arch c' = snap' (cur k')) \<and> (\<forall>x. stack_has (sts ! t) x \<longrightarrow> mem c' x = mem c x)"
proof (induction fs arbitrary: k pl c snap)
  case Nil
  have "cur k < n"
    using system_okD(2) [OF runs_system_ok [OF Nil.prems(1) abi]] Nil.prems(4) by (simp add: cur_def sched_ok_def)
  then show ?case using Nil.prems(1) by (auto simp: turns_and_ticks_def)
next
  case (Cons f fs)
  let ?snap = "snap(cur k := arch (f c))"
  have "cur k < n" using system_okD(3,6) [OF runs_system_ok [OF Cons.prems(1) abi]] Cons.prems(4) by simp
  then have ck: "cur k \<noteq> t" "confined depth sts (cur k) f" using Cons.prems(5) [of 0] by simp_all
  from turn_and_tick [OF abi t Cons.prems(1-4) ck refl, of h]
  obtain k1 pl1 c1 where t1: "timer_interrupt_handler abi notify (k, pl, deliver h (f c)) = Inr (k1, pl1, c1)"
    and r1: "runs abi notify io depth k1 pl1 c1 ?snap sts" and a: "arch c1 = ?snap (cur k1)" "cur k1 = (cur k + 1) mod n"
      "\<not> stays k1" "n = length (processes (sched_of k1))" "\<not> held (PICS pl1)" "\<forall>x. stack_has (sts ! t) x \<longrightarrow> mem c1 x = mem c x"
    by blast
  have "(cur k1 + i) mod n \<noteq> t \<and> confined depth sts ((cur k1 + i) mod n) (fs ! i)" if "i < length fs" for i
    using Cons.prems(5) [of "Suc i"] that a(2) by (simp add: mod_simps)
  then obtain k' pl' c' snap' where ih: "turns_and_ticks abi notify h fs (k1, pl1, c1) = Inr (k', pl', c')"
    "runs abi notify io depth k' pl' c' snap' sts" "snap' t = ?snap t" "cur k' = (cur k1 + length fs) mod n"
    "fs = [] \<longrightarrow> snap' = ?snap" "fs \<noteq> [] \<longrightarrow> arch c' = snap' (cur k')" "\<forall>x. stack_has (sts ! t) x \<longrightarrow> mem c' x = mem c1 x"
    using Cons.IH [OF r1 a(5,3,4)] by blast
  have res: "turns_and_ticks abi notify h (f # fs) (k, pl, c) = Inr (k', pl', c')"
    using t1 ih(1) by (simp add: turns_and_ticks_def)
  have "arch c' = snap' (cur k')"
    using ih(1,5,6) a(1) by (cases "fs = []") (simp_all add: turns_and_ticks_def)
  then show ?case
    using res ih(2-4,7) ck(1) a(2,6)
    by (intro exI [of _ k'] exI [of _ pl'] exI [of _ c'] exI [of _ snap']) (simp add: mod_simps)
qed

text \<open>
  C3 (full_cycle_resumes): let a process be interrupted, and let every other process, in the order of the
  table, compute whatever it likes without touching foreign stacks and be interrupted in turn. Then the
  first process continues with all registers, instruction pointer, flags and segments as they were, and
  with its whole stack as it was, down to the area below its stack pointer that interrupts may use.
\<close>

theorem full_cycle_resumes:
  assumes "runs abi notify io depth k pl c snap sts" and "abi_ok depth abi" and "depth + 176 \<le> STACK_SIZE"
    and "\<not> held (PICS pl)" and "\<not> held (SCHEDULER k)" and "interrupts_enabled c"
    and "n = length (processes (sched_of k))" and "2 \<le> n" and "length fs = n - 1"
    and "\<And>i. i < n - 1 \<Longrightarrow> confined depth sts ((cur k + 1 + i) mod n) (fs ! i)"
  shows "\<exists>k' pl' c'. turns_and_ticks abi notify h ((\<lambda>c. c) # fs) (k, pl, c) = Inr (k', pl', c') \<and>
    cur k' = cur k \<and> arch c' = arch c \<and>
    (\<forall>x. stack_has (sts ! cur k) x \<longrightarrow> \<not> interrupt_area depth c x \<longrightarrow> mem c' x = mem c x)"
proof -
  note K = system_okD [OF runs_system_ok [OF assms(1-3)]]
  have st: "\<not> stays k" using assms(5,7,8) by (simp add: stays_def)
  have n: "cur k < n" using K(3,6) assms(7) by simp
  obtain k1 pl1 c1 where t1: "timer_interrupt_handler abi notify (k, pl, deliver h c) = Inr (k1, pl1, c1)"
    and a: "cur k1 = (cur k + 1) mod n" "\<forall>x. \<not> interrupt_area depth c x \<longrightarrow> mem c1 x = mem c x"
      "held (SCHEDULER k1) = held (SCHEDULER k)" "length (processes (sched_of k1)) = n" "\<not> held (PICS pl1)"
    using tick_full [OF assms(1-4), of h] st assms(7) by auto
  let ?snap = "snap(cur k := arch c)"
  have r1: "runs abi notify io depth k1 pl1 c1 ?snap sts" using assms(1,6) t1 by (rule runs.timer)
  have st1: "\<not> stays k1" using a(3,4) assms(5,8) by (simp add: stays_def)
  have others: "(cur k1 + i) mod n \<noteq> cur k \<and> confined depth sts ((cur k1 + i) mod n) (fs ! i)" if "i < length fs" for i
  proof -
    have i: "i < n - 1" using that assms(9) by simp
    have "(cur k + 1 + i) mod n \<noteq> cur k"
    proof (cases "cur k + 1 + i < n")
      case False
      then have "(cur k + 1 + i) mod n = cur k + 1 + i - n" using n i by (subst mod_if) (simp add: mod_less)
      then show ?thesis using i n False by linarith
    qed simp
    then show ?thesis using assms(10) [OF i] by (simp add: a(1) mod_simps)
  qed
  obtain k' pl' c' snap' where r: "turns_and_ticks abi notify h fs (k1, pl1, c1) = Inr (k', pl', c')"
    "snap' (cur k) = ?snap (cur k)" "cur k' = (cur k1 + length fs) mod n" "fs \<noteq> [] \<longrightarrow> arch c' = snap' (cur k')"
    "\<forall>x. stack_has (sts ! cur k) x \<longrightarrow> mem c' x = mem c1 x"
    using others_take_turns [OF assms(2,3) K(6) r1 a(5) st1 a(4) [symmetric] others] by blast
  have "cur k' = (cur k + 1 + length fs) mod n" using r(3) by (simp add: a(1) mod_simps)
  also have "cur k + 1 + length fs = cur k + n" using assms(8,9) by simp
  finally have ck: "cur k' = cur k" using n by simp
  have "arch c' = arch c" using r(2,4) ck assms(8,9) by auto
  then show ?thesis using t1 r(1,5) a(2) ck by (simp add: turns_and_ticks_def)
qed

section \<open>A run with two processes\<close>

definition example_abi :: abi where
  "example_abi = (\<lambda>_ c. c)"

definition example_cpu :: cpu where
  "example_cpu = \<lparr>regs = (\<lambda>r. if r = RSP then 0x90000 else 7), rip = 0x3000, rflags = 0x200, cs = 8, ss = 16,
     mem = (\<lambda>_. 0)\<rparr>"

lemma example_abi_ok: "abi_ok n example_abi"
  by (simp add: abi_ok_def example_abi_def)

text \<open>Boot, lock, spawn, unlock: the root process runs and a second one has never run.\<close>

lemma example_run:
  "\<exists>k c snap sts. runs example_abi (#) example_ports 1000 k example_platform c snap sts \<and>
     interrupts_enabled c \<and> \<not> held (SCHEDULER k) \<and> length (processes (sched_of k)) = 2 \<and> cur k = 0 \<and>
     snap 1 = initial_frame 0x2000 0x14000"
proof -
  let ?R = "runs example_abi (#) example_ports 1000"
  have "?R root_kernel example_platform example_cpu (\<lambda>_. []) [(0x80000, 0x10000)]"
    by (rule runs.boot) (simp_all add: root_kernel_def stack_wf_def room_def example_cpu_def)
  then have l: "?R (set_held True root_kernel) example_platform example_cpu (\<lambda>_. []) [(0x80000, 0x10000)]"
    by (rule runs.lock) (simp add: root_kernel_def)
  obtain p m' where sp: "spawn (Some 0x10000) 0x2000 (1, sched_of root_kernel, \<lambda>_. 0) =
      Inr (1, 2, (sched_of root_kernel)\<lparr>processes := processes (sched_of root_kernel) @ [p]\<rparr>, m')"
    using spawn_ok [OF spawnable_example, of "0x2000" 1 "sched_of root_kernel" "\<lambda>_. 0"] by auto
  let ?s = "(sched_of root_kernel)\<lparr>processes := processes (sched_of root_kernel) @ [p]\<rparr>"
  let ?k = "(set_sched ?s (set_held True root_kernel))\<lparr>NEXT_PID := 2\<rparr>"
  let ?snap = "(\<lambda>_. [])(1 := initial_frame 0x2000 (0x10000 + of_nat STACK_SIZE))"
  have "?R ?k example_platform (example_cpu\<lparr>mem := m'\<rparr>)
      ((\<lambda>_. [])(length [(0x80000 :: u64, 0x10000 :: nat)] := initial_frame 0x2000 (0x10000 + of_nat STACK_SIZE)))
      ([(0x80000, 0x10000)] @ [(0x10000, STACK_SIZE)])"
    by (rule runs.spawn [OF l _ spawnable_example])
       (use sp in \<open>simp_all add: stacks_ok_def stack_wf_def STACK_SIZE_def apart_def stack_extent_def
          set_held_def root_kernel_def example_cpu_def sched_of_def\<close>)
  then have "?R (set_held False ?k) example_platform (example_cpu\<lparr>mem := m'\<rparr>)
      ((\<lambda>_. [])(length [(0x80000 :: u64, 0x10000 :: nat)] := initial_frame 0x2000 (0x10000 + of_nat STACK_SIZE)))
      ([(0x80000, 0x10000)] @ [(0x10000, STACK_SIZE)])"
    by (rule runs.unlock) simp
  moreover have "length (processes (sched_of (set_held False ?k))) = 2" "cur (set_held False ?k) = 0"
    by (simp_all add: set_held_def set_sched_def sched_of_def cur_def root_kernel_def spawn_root_def)
  moreover have "interrupts_enabled (example_cpu\<lparr>mem := m'\<rparr>)"
    by (simp add: interrupts_enabled_def example_cpu_def bit_numeral_rec)
  ultimately show ?thesis by (force simp: STACK_SIZE_def)
qed

theorem preemption_transparent_witness:
  "\<exists>k c snap sts k' pl' c'. runs example_abi (#) example_ports 1000 k example_platform c snap sts \<and>
     timer_interrupt_handler example_abi (#) (k, example_platform, deliver 0x5000 c) = Inr (k', pl', c') \<and>
     rip c' = 0x2000 \<and> regs c' RSP = 0x14000 \<and> rflags c' = 0x200 \<and> cs c' = 0x08 \<and> ss c' = 0x10 \<and>
     regs c' RAX = 0 \<and> regs c' R15 = 0 \<and> cur k' = 1"
proof -
  obtain k c snap sts where r: "runs example_abi (#) example_ports 1000 k example_platform c snap sts"
    "\<not> held (SCHEDULER k)" "length (processes (sched_of k)) = 2" "cur k = 0" "snap 1 = initial_frame 0x2000 0x14000"
    using example_run by blast
  obtain k' pl' c' where t: "timer_interrupt_handler example_abi (#) (k, example_platform, deliver 0x5000 c) = Inr (k', pl', c')"
    "arch c' = (snap(cur k := arch c)) (cur k')"
    "cur k' = (if held (SCHEDULER k) \<or> length (processes (sched_of k)) < 2 then cur k
               else (cur k + 1) mod length (processes (sched_of k)))"
    using preemption_transparent [OF r(1) example_abi_ok _ example_platform_ok(1), of "0x5000"]
    by (auto simp: STACK_SIZE_def)
  have "cur k' = 1" using t(3) r(2-4) by simp
  then have "arch c' = initial_frame 0x2000 0x14000" using t(2) r(4,5) by simp
  then have "rip c' = 0x2000 \<and> regs c' RSP = 0x14000 \<and> rflags c' = 0x200 \<and> cs c' = 0x08 \<and> ss c' = 0x10 \<and>
     regs c' RAX = 0 \<and> regs c' R15 = 0"
    by (simp add: arch_def restore_order_def initial_frame_def numeral_eq_Suc)
  then show ?thesis using r(1) t(1) \<open>cur k' = 1\<close> by blast
qed

theorem keyboard_transparent_witness:
  "\<exists>k c snap sts k' pl' c'. runs example_abi (#) example_ports 1000 k example_platform c snap sts \<and>
     keyboard_interrupt_handler example_abi example_ports (#) (k, example_platform, deliver 0x5000 c) = Inr (k', pl', c') \<and>
     arch c' = initial_frame 0x2000 0x14000 \<and> console_ok (WRITER pl')"
proof -
  obtain k c snap sts where r: "runs example_abi (#) example_ports 1000 k example_platform c snap sts"
    "\<not> held (SCHEDULER k)" "length (processes (sched_of k)) = 2" "cur k = 0" "snap 1 = initial_frame 0x2000 0x14000"
    using example_run by blast
  have "(1000::nat) + 176 \<le> STACK_SIZE" by (simp add: STACK_SIZE_def)
  then obtain k' pl' c' where t:
    "keyboard_interrupt_handler example_abi example_ports (#) (k, example_platform, deliver 0x5000 c) = Inr (k', pl', c')"
    "arch c' = (snap(cur k := arch c)) (cur k')" "console_ok (WRITER pl')"
    "cur k' = (if held (SCHEDULER k) \<or> length (processes (sched_of k)) < 2 then cur k
               else (cur k + 1) mod length (processes (sched_of k)))"
    using keyboard_transparent [OF r(1) example_abi_ok _ example_platform_ok, of "0x5000"] by blast
  have "cur k' = 1" using t(4) r(2-4) by simp
  then show ?thesis using r t by fastforce
qed

theorem full_cycle_resumes_witness:
  "\<exists>k c snap sts k' pl' c'. runs example_abi (#) example_ports 1000 k example_platform c snap sts \<and>
     turns_and_ticks example_abi (#) 0x5000 [\<lambda>c. c, \<lambda>c. sti (set_reg RBX 99 c)] (k, example_platform, c) = Inr (k', pl', c') \<and>
     arch c' = arch c"
proof -
  obtain k c snap sts where r: "runs example_abi (#) example_ports 1000 k example_platform c snap sts" "interrupts_enabled c"
    "\<not> held (SCHEDULER k)" "length (processes (sched_of k)) = 2" "cur k = 0"
    using example_run by blast
  have d: "(1000::nat) + 176 \<le> STACK_SIZE" by (simp add: STACK_SIZE_def)
  have f: "confined 1000 sts j (\<lambda>c. sti (set_reg RBX 99 c))" for j by (simp add: confined_def sti_enables)
  have "\<exists>k' pl' c'. turns_and_ticks example_abi (#) 0x5000 [\<lambda>c. c, \<lambda>c. sti (set_reg RBX 99 c)] (k, example_platform, c) =
      Inr (k', pl', c') \<and> arch c' = arch c"
    using full_cycle_resumes [OF r(1) example_abi_ok d example_platform_ok(1) r(3,2) r(4) [symmetric],
        of "[\<lambda>c. sti (set_reg RBX 99 c)]" "0x5000"] f by auto
  then show ?thesis using r(1) by blast
qed

end
