(* ===== verification/Fixed_Size_Block.thy ===== *)
theory Fixed_Size_Block
  imports Linked_List_Allocator
begin

text \<open>
  \<^verbatim>\<open>allocator/fixed_size_block.rs\<close> (and its identical copy \<^verbatim>\<open>fixed_size_blocks.rs\<close>): one free list
  per block size, with a fallback heap behind them. The fallback,
  \<^verbatim>\<open>linked_list_allocator::Heap\<close>, is a crate; its operations are parameters of the model, and
  what is relied on of it is the locale \<open>fallback_heap\<close>: it is itself a \<open>global_allocator\<close> and
  serves the nine block layouts. Under that contract the allocator is again a
  \<open>global_allocator\<close>. The locale is interpreted on the allocator of \<^verbatim>\<open>allocator/linked_list.rs\<close>.
\<close>

section \<open>State and operations\<close>

definition BLOCK_SIZES :: "usize list" where
  "BLOCK_SIZES = [8, 16, 32, 64, 128, 256, 512, 1024, 2048]"

text \<open>\<^verbatim>\<open>Iterator::position\<close>.\<close>

fun position :: "('a \<Rightarrow> bool) \<Rightarrow> 'a list \<Rightarrow> nat option" where
  "position P [] = None"
| "position P (x # xs) = (if P x then Some 0 else map_option Suc (position P xs))"

definition list_index :: "layout \<Rightarrow> nat option" where
  "list_index l =
     (let required_block_size = max (l_size l) (l_align l) in
      position (\<lambda>s. s \<ge> required_block_size) BLOCK_SIZES)"

record fsb_node =
  fsb_next :: "usize option"

text \<open>\<^verbatim>\<open>mem::size_of::<ListNode>()\<close> and \<^verbatim>\<open>mem::align_of::<ListNode>()\<close>: one pointer.\<close>

definition FSB_NODE_SIZE :: usize where
  "FSB_NODE_SIZE = 8"

definition FSB_NODE_ALIGN :: usize where
  "FSB_NODE_ALIGN = 8"

record 'f fixed_size_block_allocator =
  list_heads :: "usize option list"
  fsb_mem :: "usize \<Rightarrow> fsb_node option"
  fallback_allocator :: 'f

definition fsb_new :: "'f \<Rightarrow> (usize \<Rightarrow> fsb_node option) \<Rightarrow> 'f fixed_size_block_allocator" where
  "fsb_new heap_empty mem =
     \<lparr>list_heads = replicate (length BLOCK_SIZES) None, fsb_mem = mem, fallback_allocator = heap_empty\<rparr>"

definition fsb_init ::
  "('f \<Rightarrow> usize \<Rightarrow> usize \<Rightarrow> 'f result) \<Rightarrow> 'f fixed_size_block_allocator \<Rightarrow> usize \<Rightarrow> usize \<Rightarrow>
   'f fixed_size_block_allocator result" where
  "fsb_init heap_init self start sz =
     and_then (heap_init (fallback_allocator self) start sz) (\<lambda>f. Inr (self\<lparr>fallback_allocator := f\<rparr>))"

text \<open>\<^verbatim>\<open>allocate_first_fit\<close> gives \<^verbatim>\<open>Ok(NonNull)\<close> or an error.\<close>

type_synonym 'f allocate_first_fit = "'f \<Rightarrow> layout \<Rightarrow> ('f \<times> usize option) result"

definition fallback_alloc ::
  "'f allocate_first_fit \<Rightarrow> 'f fixed_size_block_allocator \<Rightarrow> layout \<Rightarrow>
   ('f fixed_size_block_allocator \<times> usize) result" where
  "fallback_alloc allocate self l =
     and_then (allocate (fallback_allocator self) l) (\<lambda>(f, r).
       Inr (self\<lparr>fallback_allocator := f\<rparr>, case r of Some p \<Rightarrow> p | None \<Rightarrow> 0))"

definition fsb_alloc ::
  "'f allocate_first_fit \<Rightarrow> 'f fixed_size_block_allocator mutex \<Rightarrow> layout \<Rightarrow>
   ('f fixed_size_block_allocator mutex \<times> usize) result" where
  "fsb_alloc allocate self l =
     and_then (locked_lock self) (\<lambda>allocator.
     case list_index l of
       Some index \<Rightarrow>
         and_then (index_get (list_heads allocator) index) (\<lambda>head.
         case head of
           Some node \<Rightarrow>
             (case fsb_mem allocator node of
                None \<Rightarrow> Inl InvalidAccess
              | Some n \<Rightarrow>
                  and_then (index_set (list_heads allocator) index (fsb_next n)) (\<lambda>heads.
                  Inr (self\<lparr>inner := allocator\<lparr>list_heads := heads,
                         fsb_mem := (fsb_mem allocator)(node \<mapsto> n\<lparr>fsb_next := None\<rparr>)\<rparr>\<rparr>, node)))
         | None \<Rightarrow>
             and_then (index_get BLOCK_SIZES index) (\<lambda>block_size.
             let block_align = block_size in
             case from_size_align block_size block_align of
               None \<Rightarrow> Inl (Panic UnwrapFailed)
             | Some l' \<Rightarrow> and_then (fallback_alloc allocate allocator l') (\<lambda>(allocator, p).
                 Inr (self\<lparr>inner := allocator\<rparr>, p))))
     | None \<Rightarrow> and_then (fallback_alloc allocate allocator l) (\<lambda>(allocator, p).
                 Inr (self\<lparr>inner := allocator\<rparr>, p)))"

definition fsb_dealloc ::
  "('f \<Rightarrow> usize \<Rightarrow> layout \<Rightarrow> 'f result) \<Rightarrow> 'f fixed_size_block_allocator mutex \<Rightarrow> usize \<Rightarrow> layout \<Rightarrow>
   'f fixed_size_block_allocator mutex result" where
  "fsb_dealloc deallocate self ptr l =
     and_then (locked_lock self) (\<lambda>allocator.
     case list_index l of
       Some index \<Rightarrow>
         and_then (index_get (list_heads allocator) index) (\<lambda>head.
         and_then (index_get BLOCK_SIZES index) (\<lambda>block_size.
         and_then (require (FSB_NODE_SIZE \<le> block_size) (Panic AssertionFailed)) (\<lambda>_.
         and_then (require (FSB_NODE_ALIGN \<le> block_size) (Panic AssertionFailed)) (\<lambda>_.
         and_then (index_set (list_heads allocator) index (Some ptr)) (\<lambda>heads.
         Inr (self\<lparr>inner := allocator\<lparr>list_heads := heads,
                fsb_mem := (fsb_mem allocator)(ptr \<mapsto> \<lparr>fsb_next = head\<rparr>)\<rparr>\<rparr>))))))
     | None \<Rightarrow>
         and_then (require (ptr \<noteq> 0) (Panic UnwrapFailed)) (\<lambda>_.
         and_then (deallocate (fallback_allocator allocator) ptr l) (\<lambda>f.
         Inr (self\<lparr>inner := allocator\<lparr>fallback_allocator := f\<rparr>\<rparr>))))"

section \<open>Size classes\<close>

definition class_layout :: "nat \<Rightarrow> layout" where
  "class_layout i = \<lparr>l_size = BLOCK_SIZES ! i, l_align = BLOCK_SIZES ! i\<rparr>"

text \<open>The layout a block of the fallback heap has that serves a request for \<open>l\<close>.\<close>

definition under :: "layout \<Rightarrow> layout" where
  "under l = (case list_index l of Some i \<Rightarrow> class_layout i | None \<Rightarrow> l)"

definition under_block :: "block \<Rightarrow> block" where
  "under_block b = (fst b, under (snd b))"

lemma position_Some:
  "position P xs = Some i \<Longrightarrow> i < length xs \<and> P (xs ! i) \<and> (\<forall>j<i. \<not> P (xs ! j))"
proof (induction xs arbitrary: i)
  case Nil
  then show ?case by simp
next
  case (Cons x xs)
  then show ?case by (auto simp: less_Suc_eq_0_disj split: if_splits)
qed

lemma position_None: "position P xs = None \<longleftrightarrow> list_all (\<lambda>x. \<not> P x) xs"
  by (induction xs) auto

lemma length_BLOCK_SIZES [simp]: "length BLOCK_SIZES = 9"
  by (simp add: BLOCK_SIZES_def)

lemma less_9_cases:
  "(i::nat) < 9 \<longleftrightarrow> i = 0 \<or> i = 1 \<or> i = 2 \<or> i = 3 \<or> i = 4 \<or> i = 5 \<or> i = 6 \<or> i = 7 \<or> i = 8"
  by auto

lemma unat_BLOCK_SIZES: "i < 9 \<Longrightarrow> unat (BLOCK_SIZES ! i) = 2 ^ (i + 3)"
  by (auto simp: BLOCK_SIZES_def less_9_cases)

lemma block_size_ge: "i < 9 \<Longrightarrow> 8 \<le> BLOCK_SIZES ! i"
proof -
  assume "i < 9"
  then have "(2::nat) ^ 3 \<le> unat (BLOCK_SIZES ! i)"
    unfolding unat_BLOCK_SIZES [OF \<open>i < 9\<close>] by (intro power_increasing) simp_all
  then show ?thesis by (simp add: word_le_nat_alt)
qed

lemma class_layout_valid: "i < 9 \<Longrightarrow> from_size_align (BLOCK_SIZES ! i) (BLOCK_SIZES ! i) = Some (class_layout i)"
proof -
  assume i: "i < 9"
  have p: "is_power_of_two (BLOCK_SIZES ! i)"
    unfolding is_power_of_two_iff using unat_BLOCK_SIZES [OF i] i by (intro exI [of _ "i + 3"]) simp
  have "(2::nat) ^ (i + 3) \<le> 2 ^ 11" using i by (intro power_increasing) simp_all
  then have "unat (BLOCK_SIZES ! i) \<le> 2048" using unat_BLOCK_SIZES [OF i] by simp
  with p show ?thesis by (simp add: from_size_align_def class_layout_def)
qed

lemma list_index_Some:
  assumes "list_index l = Some i"
  shows "i < 9" and "l_size l \<le> BLOCK_SIZES ! i" and "l_align l \<le> BLOCK_SIZES ! i"
    and "j < i \<Longrightarrow> BLOCK_SIZES ! j < max (l_size l) (l_align l)"
proof -
  have "position (\<lambda>s. s \<ge> max (l_size l) (l_align l)) BLOCK_SIZES = Some i"
    using assms unfolding list_index_def Let_def .
  note p = position_Some [OF this]
  from p show "i < 9" and "l_size l \<le> BLOCK_SIZES ! i" and "l_align l \<le> BLOCK_SIZES ! i" by simp_all
  show "j < i \<Longrightarrow> BLOCK_SIZES ! j < max (l_size l) (l_align l)" using p by (meson not_le)
qed

lemma class_align_dvd:
  assumes "list_index l = Some i" and "valid_layout l"
  shows "unat (l_align l) dvd unat (BLOCK_SIZES ! i)"
proof -
  note i = list_index_Some [OF assms(1)]
  from assms(2) obtain k where k: "unat (l_align l) = 2 ^ k"
    by (auto simp: valid_layout_iff is_power_of_two_iff)
  have "(2::nat) ^ k \<le> 2 ^ (i + 3)"
    using i(3) k unat_BLOCK_SIZES [OF i(1)] by (simp add: word_le_nat_alt)
  then have "k \<le> i + 3" by (rule power_le_imp_le_exp [rotated]) simp
  then show ?thesis using k unat_BLOCK_SIZES [OF i(1)] by (simp add: le_imp_power_dvd)
qed

section \<open>The free lists in memory\<close>

fun block_chain :: "(usize \<Rightarrow> fsb_node option) \<Rightarrow> usize option \<Rightarrow> usize list \<Rightarrow> bool" where
  "block_chain mem h [] = (h = None)"
| "block_chain mem h (p # ps) =
     (h = Some p \<and> (case mem p of None \<Rightarrow> False | Some n \<Rightarrow> block_chain mem (fsb_next n) ps))"

fun free_blocks :: "usize list \<Rightarrow> usize list list \<Rightarrow> block list" where
  "free_blocks (bs # bss) (ps # pss) = map (\<lambda>p. (p, \<lparr>l_size = bs, l_align = bs\<rparr>)) ps @ free_blocks bss pss"
| "free_blocks _ _ = []"

lemma block_chain_Cons:
  "block_chain mem h (p # ps) \<longleftrightarrow> h = Some p \<and> (\<exists>n. mem p = Some n \<and> block_chain mem (fsb_next n) ps)"
  by (auto split: option.splits)

declare block_chain.simps(2) [simp del]
declare block_chain_Cons [simp]

lemma block_chain_cong:
  "(\<And>a. a \<in> set ps \<Longrightarrow> mem' a = mem a) \<Longrightarrow> block_chain mem' h ps \<longleftrightarrow> block_chain mem h ps"
  by (induction ps arbitrary: h) auto

lemma block_chain_frame: "a \<notin> set ps \<Longrightarrow> block_chain (mem(a := x)) h ps \<longleftrightarrow> block_chain mem h ps"
  by (rule block_chain_cong) auto

lemma free_blocks_push:
  "i < length pss \<Longrightarrow> length bss = length pss \<Longrightarrow>
   mset (free_blocks bss (pss[i := p # pss ! i])) =
   add_mset (p, \<lparr>l_size = bss ! i, l_align = bss ! i\<rparr>) (mset (free_blocks bss pss))"
proof (induction bss pss arbitrary: i rule: free_blocks.induct)
  case (1 bs bss ps pss)
  then show ?case by (cases i) auto
qed auto

lemma free_blocks_pop:
  assumes "i < length pss" and "length bss = length pss" and "pss ! i = p # ps"
  shows "mset (free_blocks bss pss) =
         add_mset (p, \<lparr>l_size = bss ! i, l_align = bss ! i\<rparr>) (mset (free_blocks bss (pss[i := ps])))"
  using free_blocks_push [of i "pss[i := ps]" bss p] assms by (simp add: list_update_same_conv [THEN iffD2])

lemma free_blocks_mem:
  "i < length pss \<Longrightarrow> length bss = length pss \<Longrightarrow> p \<in> set (pss ! i) \<Longrightarrow>
   (p, \<lparr>l_size = bss ! i, l_align = bss ! i\<rparr>) \<in> set (free_blocks bss pss)"
proof (induction bss pss arbitrary: i rule: free_blocks.induct)
  case (1 bs bss ps pss)
  then show ?case by (cases i) auto
qed auto

lemma free_blocks_empty: "free_blocks bss (replicate n []) = []"
proof (induction n arbitrary: bss)
  case 0
  then show ?case by (cases bss) simp_all
next
  case (Suc n)
  then show ?case by (cases bss) simp_all
qed

section \<open>The fallback heap and the invariant\<close>

text \<open>A null-returning allocation as the \<^verbatim>\<open>Result<NonNull<u8>, ()>\<close> of \<^verbatim>\<open>allocate_first_fit\<close>.\<close>

definition non_null :: "('f \<Rightarrow> layout \<Rightarrow> ('f \<times> usize) result) \<Rightarrow> 'f allocate_first_fit" where
  "non_null alloc f l =
     and_then (alloc f l) (\<lambda>(f, p). Inr (f, if p = 0 then None else Some p))"

definition fsb_wf ::
  "(layout \<Rightarrow> bool) \<Rightarrow> 'f fixed_size_block_allocator \<Rightarrow> usize list list \<Rightarrow> block list \<Rightarrow> block list \<Rightarrow> bool" where
  "fsb_wf accepts a pss flive live =
     (length (list_heads a) = 9 \<and> length pss = 9 \<and>
      (\<forall>i<9. block_chain (fsb_mem a) (list_heads a ! i) (pss ! i)) \<and>
      list_all (\<lambda>b. accepts (snd b)) live \<and>
      mset flive = mset (map under_block live) + mset (free_blocks BLOCK_SIZES pss))"

definition fsb_inv ::
  "(layout \<Rightarrow> bool) \<Rightarrow> (nat \<Rightarrow> nat \<Rightarrow> 'f \<Rightarrow> block list \<Rightarrow> bool) \<Rightarrow> nat \<Rightarrow> nat \<Rightarrow>
   'f fixed_size_block_allocator mutex \<Rightarrow> block list \<Rightarrow> bool" where
  "fsb_inv accepts finv lo hi m live =
     (\<not> held m \<and> (\<exists>pss flive. fsb_wf accepts (inner m) pss flive live \<and>
        finv lo hi (fallback_allocator (inner m)) flive))"

definition fsb_touches ::
  "(nat set \<Rightarrow> 'f \<Rightarrow> 'f \<Rightarrow> bool) \<Rightarrow> nat set \<Rightarrow> 'f fixed_size_block_allocator mutex \<Rightarrow>
   'f fixed_size_block_allocator mutex \<Rightarrow> bool" where
  "fsb_touches touches A m m' =
     (\<exists>mem' f'. m' = m\<lparr>inner := (inner m)\<lparr>fsb_mem := mem', fallback_allocator := f'\<rparr>\<rparr> \<and>
        touches A (fallback_allocator (inner m)) f' \<and>
        (\<forall>a. bytes (unat a, 8) \<inter> A = {} \<longrightarrow> mem' a = fsb_mem (inner m) a))"

text \<open>The live blocks after an allocation returned \<open>p\<close>.\<close>

definition grown :: "block list \<Rightarrow> usize \<Rightarrow> layout \<Rightarrow> block list" where
  "grown live p l = (if p = 0 then live else (p, l) # live)"

locale fallback_heap = global_allocator +
  assumes serves_classes: "i < 9 \<Longrightarrow> accepts (class_layout i)"
    and null_not_live: "inv lo hi s live \<Longrightarrow> (0, l) \<notin> set live"
begin

lemma under_extent:
  assumes "valid_layout l"
  shows "unat (l_size l) \<le> unat (l_size (under l))" and "unat (l_align l) dvd unat (l_align (under l))"
proof -
  show "unat (l_size l) \<le> unat (l_size (under l))"
    using list_index_Some(2) [of l]
    by (auto simp: under_def class_layout_def word_le_nat_alt split: option.splits)
  show "unat (l_align l) dvd unat (l_align (under l))"
    using class_align_dvd [OF _ assms] by (auto simp: under_def class_layout_def split: option.splits)
qed

lemma wf_apart:
  assumes "fsb_wf accepts a pss flive live" and "inv lo hi f flive"
  shows "all_apart (map extent (map under_block live) @ map extent (free_blocks BLOCK_SIZES pss))"
proof -
  have "all_apart (map extent flive)" using inv_live_ok [OF assms(2)] by (simp add: live_ok_def)
  moreover have "mset (map extent flive) =
      mset (map extent (map under_block live) @ map extent (free_blocks BLOCK_SIZES pss))"
    using assms(1) unfolding fsb_wf_def by (metis image_mset_union mset_append mset_map)
  ultimately show ?thesis by (metis all_apart_perm)
qed

lemma class_apart:
  "i < 9 \<Longrightarrow> j < 9 \<Longrightarrow> apart (extent (p, class_layout i)) (extent (q, class_layout j)) \<Longrightarrow> p \<noteq> q"
  using block_size_ge [of i] block_size_ge [of j]
  by (auto simp: apart_def extent_def class_layout_def word_le_nat_alt)

text \<open>A live block of a size class is not in any free list.\<close>

lemma live_not_free:
  assumes wf: "fsb_wf accepts a pss flive live" and i: "inv lo hi f flive"
    and b: "(p, l) \<in> set live" and l: "list_index l = Some k" and j: "j < 9"
  shows "p \<notin> set (pss ! j)"
proof
  assume "p \<in> set (pss ! j)"
  then have "(p, class_layout j) \<in> set (free_blocks BLOCK_SIZES pss)"
    using wf j free_blocks_mem [of j pss BLOCK_SIZES p] by (simp add: fsb_wf_def class_layout_def)
  moreover have "(p, class_layout k) \<in> set (map under_block live)"
    using b l by (force simp: under_block_def under_def)
  ultimately have "apart (extent (p, class_layout k)) (extent (p, class_layout j))"
    using wf_apart [OF wf i] by (auto simp: all_apart_append)
  from class_apart [OF list_index_Some(1) [OF l] j this] show False by simp
qed

text \<open>A block taken from a free list is in no free list any more.\<close>

lemma popped_not_free:
  assumes wf: "fsb_wf accepts a pss flive live" and i: "inv lo hi f flive"
    and k: "k < 9" "pss ! k = p # ps" and j: "j < 9"
  shows "p \<notin> set (pss[k := ps] ! j)"
proof
  let ?pss = "pss[k := ps]"
  assume "p \<in> set (?pss ! j)"
  then have "(p, class_layout j) \<in> set (free_blocks BLOCK_SIZES ?pss)"
    using wf j free_blocks_mem [of j ?pss BLOCK_SIZES p] by (simp add: fsb_wf_def class_layout_def)
  moreover have "mset (map extent (free_blocks BLOCK_SIZES pss)) =
      mset (extent (p, class_layout k) # map extent (free_blocks BLOCK_SIZES ?pss))"
    using free_blocks_pop [of k pss BLOCK_SIZES p ps] wf k by (simp add: fsb_wf_def class_layout_def)
  then have "all_apart (extent (p, class_layout k) # map extent (free_blocks BLOCK_SIZES ?pss))"
    using wf_apart [OF wf i] by (metis all_apart_append all_apart_perm)
  ultimately have "apart (extent (p, class_layout k)) (extent (p, class_layout j))" by auto
  from class_apart [OF k(1) j this] show False by simp
qed

lemma fallback_alloc_ok:
  assumes wf: "fsb_wf accepts a pss flive live" and i: "inv lo hi (fallback_allocator a) flive"
    and l: "under l = l'" and acc: "accepts l" "accepts l'"
  shows "\<exists>a' p. fallback_alloc (non_null alloc) a l' = Inr (a', p) \<and>
     (\<exists>flive'. inv lo hi (fallback_allocator a') flive' \<and>
       fsb_wf accepts a' pss flive' (grown live p l))"
proof -
  from alloc_returns [OF i acc(2)] obtain f p where al: "alloc (fallback_allocator a) l' = Inr (f, p)" by blast
  then have res: "fallback_alloc (non_null alloc) a l' = Inr (a\<lparr>fallback_allocator := f\<rparr>, p)"
    by (simp add: fallback_alloc_def non_null_def)
  show ?thesis
  proof (cases "p = 0")
    case True
    then have "inv lo hi f flive" using al i acc(2) by (blast intro: alloc_null_inv)
    with True res wf show ?thesis by (auto simp: fsb_wf_def grown_def)
  next
    case False
    then have "inv lo hi f ((p, l') # flive)" using al i acc(2) by (blast intro: alloc_block_inv)
    moreover have "fsb_wf accepts (a\<lparr>fallback_allocator := f\<rparr>) pss ((p, l') # flive) ((p, l) # live)"
      using wf acc(1) l by (simp add: fsb_wf_def under_block_def)
    ultimately show ?thesis using False res by (auto simp: grown_def)
  qed
qed

text \<open>Taking the first block of a size class, and putting one back in front.\<close>

lemma fsb_pop:
  assumes wf: "fsb_wf accepts a pss flive live" and i: "inv lo hi (fallback_allocator a) flive" and k: "k < 9"
    and node: "list_heads a ! k = Some p" and acc: "accepts l" and und: "under l = class_layout k"
  shows "\<exists>n ps. fsb_mem a p = Some n \<and> p \<noteq> 0 \<and>
    fsb_wf accepts (a\<lparr>list_heads := (list_heads a)[k := fsb_next n], fsb_mem := (fsb_mem a)(p \<mapsto> n\<lparr>fsb_next := None\<rparr>)\<rparr>)
      (pss[k := ps]) flive ((p, l) # live)"
proof -
  have len: "length (list_heads a) = 9" "length pss = 9" and ch: "block_chain (fsb_mem a) (list_heads a ! k) (pss ! k)"
    using wf k by (simp_all add: fsb_wf_def)
  with node obtain ps n where ps: "pss ! k = p # ps" and n: "fsb_mem a p = Some n"
    and rest: "block_chain (fsb_mem a) (fsb_next n) ps"
    by (cases "pss ! k") auto
  define a' where "a' = a\<lparr>list_heads := (list_heads a)[k := fsb_next n], fsb_mem := (fsb_mem a)(p \<mapsto> n\<lparr>fsb_next := None\<rparr>)\<rparr>"
  have bl: "block_chain (fsb_mem a') (list_heads a' ! j) (pss[k := ps] ! j)" if j: "j < 9" for j
  proof -
    have "p \<notin> set (pss[k := ps] ! j)" using popped_not_free [OF wf i k ps j] .
    moreover have "block_chain (fsb_mem a) (list_heads a' ! j) (pss[k := ps] ! j)"
      using wf j k len rest by (cases "j = k") (auto simp: a'_def fsb_wf_def)
    ultimately show ?thesis by (simp add: a'_def block_chain_frame del: fun_upd_apply)
  qed
  have m: "mset flive = mset (map under_block ((p, l) # live)) + mset (free_blocks BLOCK_SIZES (pss[k := ps]))"
    using wf free_blocks_pop [of k pss BLOCK_SIZES p ps] k ps len und
    by (simp add: fsb_wf_def under_block_def class_layout_def)
  have "(p, class_layout k) \<in># mset flive" unfolding m by (simp add: under_block_def und)
  then have "p \<noteq> 0" using null_not_live [OF i] by auto
  moreover have "fsb_wf accepts a' (pss[k := ps]) flive ((p, l) # live)"
    using wf acc bl m by (simp add: fsb_wf_def a'_def)
  ultimately show ?thesis using n unfolding a'_def by blast
qed

lemma fsb_alloc_ok:
  assumes fi: "fsb_inv accepts inv lo hi m live" and acc: "accepts l"
  shows "\<exists>m' p. fsb_alloc (non_null alloc) m l = Inr (m', p) \<and>
           fsb_inv accepts inv lo hi m' (grown live p l)"
proof -
  from fi obtain pss flive where free: "\<not> held m" and wf: "fsb_wf accepts (inner m) pss flive live"
    and i: "inv lo hi (fallback_allocator (inner m)) flive"
    by (auto simp: fsb_inv_def)
  show ?thesis
  proof (cases "list_index l")
    case None
    then have "under l = l" by (simp add: under_def)
    from fallback_alloc_ok [OF wf i this acc acc] show ?thesis
      using None free by (fastforce simp: fsb_alloc_def fsb_inv_def)
  next
    case (Some k)
    have k: "k < 9" using list_index_Some(1) [OF Some] .
    have len: "length (list_heads (inner m)) = 9" using wf by (simp add: fsb_wf_def)
    have und: "under l = class_layout k" using Some by (simp add: under_def)
    show ?thesis
    proof (cases "list_heads (inner m) ! k")
      case None
      from fallback_alloc_ok [OF wf i und acc serves_classes [OF k]] show ?thesis
        using None Some free len k class_layout_valid [OF k]
        by (fastforce simp: fsb_alloc_def fsb_inv_def Let_def)
    next
      case node: (Some p)
      obtain n ps where n: "fsb_mem (inner m) p = Some n" "p \<noteq> 0"
        "fsb_wf accepts ((inner m)\<lparr>list_heads := (list_heads (inner m))[k := fsb_next n],
           fsb_mem := (fsb_mem (inner m))(p \<mapsto> n\<lparr>fsb_next := None\<rparr>)\<rparr>) (pss[k := ps]) flive ((p, l) # live)"
        using fsb_pop [OF wf i k node acc und] by blast
      then show ?thesis
        using Some free len k node i by (force simp: fsb_alloc_def fsb_inv_def grown_def)
    qed
  qed
qed

lemma fsb_push:
  assumes wf: "fsb_wf accepts a pss flive live" and i: "inv lo hi (fallback_allocator a) flive"
    and b: "(p, l) \<in> set live" and k: "list_index l = Some k"
  shows "fsb_wf accepts (a\<lparr>list_heads := (list_heads a)[k := Some p], fsb_mem := (fsb_mem a)(p \<mapsto> \<lparr>fsb_next = list_heads a ! k\<rparr>)\<rparr>)
    (pss[k := p # pss ! k]) flive (remove1 (p, l) live)"
proof -
  have k9: "k < 9" using list_index_Some(1) [OF k] .
  have len: "length (list_heads a) = 9" "length pss = 9" using wf by (simp_all add: fsb_wf_def)
  define a' where "a' = a\<lparr>list_heads := (list_heads a)[k := Some p], fsb_mem := (fsb_mem a)(p \<mapsto> \<lparr>fsb_next = list_heads a ! k\<rparr>)\<rparr>"
  have old: "block_chain (fsb_mem a') (list_heads a ! j) (pss ! j)" if j: "j < 9" for j
    using live_not_free [OF wf i b k j] wf j
    by (simp add: a'_def fsb_wf_def block_chain_frame del: fun_upd_apply)
  have "block_chain (fsb_mem a') (list_heads a' ! j) (pss[k := p # pss ! k] ! j)" if j: "j < 9" for j
    using old [OF j] len j by (cases "j = k") (simp_all add: a'_def)
  moreover have "mset flive = mset (map under_block (remove1 (p, l) live)) + mset (free_blocks BLOCK_SIZES (pss[k := p # pss ! k]))"
    using wf mset_map_remove1 [OF b, of under_block] free_blocks_push [of k pss BLOCK_SIZES p] k9 len k
    by (simp add: fsb_wf_def under_block_def under_def class_layout_def)
  moreover have "list_all (\<lambda>b. accepts (snd b)) (remove1 (p, l) live)"
    using wf by (auto simp: fsb_wf_def list_all_iff dest: notin_set_remove1)
  ultimately show ?thesis using len unfolding a'_def [symmetric] by (simp add: fsb_wf_def a'_def)
qed

lemma fsb_dealloc_ok:
  assumes fi: "fsb_inv accepts inv lo hi m live" and b: "(p, l) \<in> set live"
  shows "\<exists>m'. fsb_dealloc dealloc m p l = Inr m' \<and> fsb_inv accepts inv lo hi m' (remove1 (p, l) live)"
proof -
  from fi obtain pss flive where free: "\<not> held m" and wf: "fsb_wf accepts (inner m) pss flive live"
    and i: "inv lo hi (fallback_allocator (inner m)) flive"
    by (auto simp: fsb_inv_def)
  let ?live = "remove1 (p, l) live"
  have len: "length (list_heads (inner m)) = 9" using wf by (simp add: fsb_wf_def)
  show ?thesis
  proof (cases "list_index l")
    case None
    then have und: "under l = l" by (simp add: under_def)
    have ml: "mset (map under_block live) = add_mset (p, l) (mset (map under_block ?live))"
      using mset_map_remove1 [OF b, of under_block] und by (simp add: under_block_def)
    have acc': "list_all (\<lambda>b. accepts (snd b)) ?live"
      using wf by (auto simp: fsb_wf_def list_all_iff dest: notin_set_remove1)
    have "(p, l) \<in># mset flive" using wf ml by (simp add: fsb_wf_def)
    then have fl: "(p, l) \<in> set flive" by simp
    from dealloc_inv [OF i fl] obtain f where f: "dealloc (fallback_allocator (inner m)) p l = Inr f"
      "inv lo hi f (remove1 (p, l) flive)" by blast
    have "p \<noteq> 0" using null_not_live [OF i] fl by auto
    then have "fsb_dealloc dealloc m p l = Inr (m\<lparr>inner := (inner m)\<lparr>fallback_allocator := f\<rparr>\<rparr>)"
      using None free f by (simp add: fsb_dealloc_def)
    moreover have "fsb_wf accepts ((inner m)\<lparr>fallback_allocator := f\<rparr>) pss (remove1 (p, l) flive) ?live"
      using wf ml acc' by (simp add: fsb_wf_def)
    ultimately show ?thesis using f free by (auto simp: fsb_inv_def)
  next
    case (Some k)
    have k: "k < 9" using list_index_Some(1) [OF Some] .
    then show ?thesis
      using fsb_push [OF wf i b Some] Some free len block_size_ge [OF k] i
      by (auto simp: fsb_dealloc_def FSB_NODE_SIZE_def FSB_NODE_ALIGN_def fsb_inv_def)
  qed
qed

lemma fsb_live_bytes:
  assumes "fsb_wf accepts a pss flive live"
  shows "live_bytes live \<subseteq> live_bytes flive"
proof -
  have "bytes (extent b) \<subseteq> live_bytes flive" if b: "b \<in> set live" for b
  proof -
    have "valid_layout (snd b)" using assms b accepts_valid by (auto simp: fsb_wf_def list_all_iff)
    then have "bytes (extent b) \<subseteq> bytes (extent (under_block b))"
      using under_extent(1) by (auto simp: bytes_def extent_def under_block_def intro: less_le_trans)
    moreover have "under_block b \<in># mset flive" using assms b by (simp add: fsb_wf_def)
    then have "under_block b \<in> set flive" by simp
    ultimately show ?thesis by (auto simp: live_bytes_def)
  qed
  then show ?thesis by (auto simp: live_bytes_def [of live])
qed

lemma fsb_inv_live_ok:
  assumes "fsb_inv accepts inv lo hi m live"
  shows "live_ok lo hi live"
proof -
  from assms obtain pss flive where wf: "fsb_wf accepts (inner m) pss flive live"
    and i: "inv lo hi (fallback_allocator (inner m)) flive"
    by (auto simp: fsb_inv_def)
  have val: "valid_layout (snd b)" if "b \<in> set live" for b
    using wf that accepts_valid by (auto simp: fsb_wf_def list_all_iff)
  have "all_apart (map (\<lambda>b. extent (under_block b)) live)"
    using wf_apart [OF wf i] by (simp add: all_apart_append comp_def)
  then have "all_apart (map extent live)"
    by (rule all_apart_mono) (use val under_extent(1) in \<open>auto simp: extent_def under_block_def\<close>)
  moreover have "within lo hi (extent b) \<and> block_aligned b" if b: "b \<in> set live" for b
  proof -
    have "under_block b \<in># mset flive" using wf b by (simp add: fsb_wf_def)
    then have "under_block b \<in> set flive" by simp
    then have "within lo hi (extent (under_block b))" "block_aligned (under_block b)"
      using inv_live_ok [OF i] by (auto simp: live_ok_def list_all_iff)
    then show ?thesis using under_extent [OF val [OF b]]
      by (auto simp: within_def extent_def under_block_def block_aligned_def intro: dvd_trans)
  qed
  ultimately show ?thesis by (simp add: live_ok_def list_all_iff)
qed

lemma fsb_touches_inv:
  assumes fi: "fsb_inv accepts inv lo hi m live" and A: "A \<subseteq> live_bytes live" and t: "fsb_touches touches A m m'"
  shows "fsb_inv accepts inv lo hi m' live"
proof -
  from fi obtain pss flive where free: "\<not> held m" and wf: "fsb_wf accepts (inner m) pss flive live"
    and i: "inv lo hi (fallback_allocator (inner m)) flive"
    by (auto simp: fsb_inv_def)
  from t obtain mem' f' where m': "m' = m\<lparr>inner := (inner m)\<lparr>fsb_mem := mem', fallback_allocator := f'\<rparr>\<rparr>"
    and tf: "touches A (fallback_allocator (inner m)) f'"
    and same: "\<And>a. bytes (unat a, 8) \<inter> A = {} \<Longrightarrow> mem' a = fsb_mem (inner m) a"
    by (auto simp: fsb_touches_def)
  have i': "inv lo hi f' flive" using touches_inv [OF i _ tf] A fsb_live_bytes [OF wf] by blast
  have "mem' q = fsb_mem (inner m) q" if j: "j < 9" and q: "q \<in> set (pss ! j)" for j q
  proof (rule same)
    have "(q, class_layout j) \<in> set (free_blocks BLOCK_SIZES pss)"
      using wf j q free_blocks_mem [of j pss BLOCK_SIZES q] by (simp add: fsb_wf_def class_layout_def)
    then have "bytes (extent (under_block b)) \<inter> bytes (extent (q, class_layout j)) = {}" if "b \<in> set live" for b
      using wf_apart [OF wf i] that by (intro apart_disjoint) (auto simp: all_apart_append)
    moreover have "bytes (extent b) \<subseteq> bytes (extent (under_block b))" if "b \<in> set live" for b
    proof -
      have "valid_layout (snd b)" using wf that accepts_valid by (auto simp: fsb_wf_def list_all_iff)
      then show ?thesis using under_extent(1)
        by (auto simp: bytes_def extent_def under_block_def intro: less_le_trans)
    qed
    moreover have "bytes (unat q, 8) \<subseteq> bytes (extent (q, class_layout j))"
      using block_size_ge [OF j] by (auto simp: bytes_def extent_def class_layout_def word_le_nat_alt)
    ultimately show "bytes (unat q, 8) \<inter> A = {}" using A by (fastforce simp: live_bytes_def)
  qed
  then have "block_chain mem' h (pss ! j) \<longleftrightarrow> block_chain (fsb_mem (inner m)) h (pss ! j)" if "j < 9" for j h
    using that by (intro block_chain_cong) blast
  then have "fsb_wf accepts (inner m') pss flive live" using wf m' by (simp add: fsb_wf_def)
  then show ?thesis using free i' m' by (auto simp: fsb_inv_def)
qed

lemma fsb_inv_new:
  assumes "inv lo hi f []"
  shows "fsb_inv accepts inv lo hi (locked_new (fsb_new f mem)) []"
proof -
  have "fsb_wf accepts (fsb_new f mem) (replicate 9 []) [] []"
    by (simp add: fsb_wf_def fsb_new_def free_blocks_empty)
  then show ?thesis using assms by (auto simp: fsb_inv_def fsb_new_def)
qed

end

sublocale fallback_heap \<subseteq> fsb: global_allocator "fsb_alloc (non_null alloc)" "fsb_dealloc dealloc"
  accepts "fsb_touches touches" "fsb_inv accepts inv"
proof
  show "valid_layout l" if "accepts l" for l
    using that by (rule accepts_valid)
  show "live_ok lo hi live" if "fsb_inv accepts inv lo hi s live" for lo hi s live
    using that by (rule fsb_inv_live_ok)
  show "\<exists>s' p. fsb_alloc (non_null alloc) s l = Inr (s', p)"
    if "fsb_inv accepts inv lo hi s live" "accepts l" for lo hi s live l
    using fsb_alloc_ok [OF that] by blast
  show "fsb_inv accepts inv lo hi s' live"
    if "fsb_inv accepts inv lo hi s live" "accepts l" "fsb_alloc (non_null alloc) s l = Inr (s', 0)" for lo hi s live l s'
    using fsb_alloc_ok [OF that(1,2)] that by (auto simp: grown_def)
  show "fsb_inv accepts inv lo hi s' ((p, l) # live)"
    if "fsb_inv accepts inv lo hi s live" "accepts l" "fsb_alloc (non_null alloc) s l = Inr (s', p)" "p \<noteq> 0"
    for lo hi s live l s' p
    using fsb_alloc_ok [OF that(1,2)] that by (auto simp: grown_def)
  show "\<exists>s'. fsb_dealloc dealloc s p l = Inr s' \<and> fsb_inv accepts inv lo hi s' (remove1 (p, l) live)"
    if "fsb_inv accepts inv lo hi s live" "(p, l) \<in> set live" for lo hi s live p l
    using that by (rule fsb_dealloc_ok)
  show "fsb_inv accepts inv lo hi s' live"
    if "fsb_inv accepts inv lo hi s live" "A \<subseteq> live_bytes live" "fsb_touches touches A s s'" for lo hi s live A s'
    using that by (rule fsb_touches_inv)
qed

context fallback_heap
begin

lemma fsb_trace_safe:
  assumes "inv lo hi f0 []"
    and "heap_trace (fsb_alloc (non_null alloc)) (fsb_dealloc dealloc) accepts (fsb_touches touches)
           (locked_new (fsb_new f0 mem)) [] m live"
  shows "live_ok lo hi live"
    and "accepts l \<Longrightarrow> \<exists>m' p. fsb_alloc (non_null alloc) m l = Inr (m', p)"
    and "(p, l) \<in> set live \<Longrightarrow> \<exists>m'. fsb_dealloc dealloc m p l = Inr m'"
  using fsb.trace_safe [OF fsb_inv_new [OF assms(1)] assms(2)] by blast+

end

section \<open>The linked list allocator as the fallback heap\<close>

lemma ll_accepts_class: "i < 9 \<Longrightarrow> ll_accepts (class_layout i)"
proof -
  assume i: "i < 9"
  have v: "valid_layout (class_layout i)"
    using class_layout_valid [OF i] by (simp add: valid_layout_def class_layout_def)
  have "max (BLOCK_SIZES ! i) NODE_ALIGN = BLOCK_SIZES ! i"
    using block_size_ge [OF i] by (simp add: max_def NODE_ALIGN_def)
  then have "align_to (class_layout i) NODE_ALIGN = Some (class_layout i)"
    using class_layout_valid [OF i] by (simp add: align_to_def class_layout_def)
  with v show ?thesis
    using unat_BLOCK_SIZES [OF i] by (simp add: ll_accepts_def class_layout_def)
qed

interpretation fsb_ll: fallback_heap ll_alloc ll_dealloc ll_accepts ll_touches ll_inv
proof
  show "ll_accepts (class_layout i)" if "i < 9" for i
    using that by (rule ll_accepts_class)
  show "(0, l) \<notin> set live" if "ll_inv lo hi s live" for lo hi s live l
    using that by (auto simp: ll_inv_def ll_wf_def list_all_iff ll_live_def within_def adj_extent_def)
qed

section \<open>Properties\<close>

text \<open>C5 (fsb_safe): over any fallback heap that keeps the allocator contract, after any sequence of
  allocations, frees and client writes the live blocks lie inside the heap, are aligned for the
  layout they were requested with and do not overlap, and no allocation or free of a live block
  fails (no failed assertion, unwrap, index or dangling free-list node).\<close>

theorem fsb_safe:
  assumes "fallback_heap falloc fdealloc faccepts ftouches finv" and "finv lo hi f0 []"
    and "heap_trace (fsb_alloc (non_null falloc)) (fsb_dealloc fdealloc) faccepts (fsb_touches ftouches)
           (locked_new (fsb_new f0 mem)) [] m live"
  shows "live_ok lo hi live \<and>
         (\<forall>l. faccepts l \<longrightarrow> (\<exists>m' p. fsb_alloc (non_null falloc) m l = Inr (m', p))) \<and>
         (\<forall>p l. (p, l) \<in> set live \<longrightarrow> (\<exists>m'. fsb_dealloc fdealloc m p l = Inr m'))"
  using fallback_heap.fsb_trace_safe [OF assms] by blast

lemma fsb_demo_index: "list_index \<lparr>l_size = 20, l_align = 64\<rparr> = Some 3"
  by (simp add: list_index_def BLOCK_SIZES_def Let_def)

lemma fsb_demo_alloc:
  "\<exists>m p. fsb_alloc (non_null ll_alloc) (locked_new (fsb_new (locked_new ll_demo_heap) Map.empty))
       \<lparr>l_size = 20, l_align = 64\<rparr> = Inr (m, p) \<and> unat p = 4160"
proof -
  have c: "adj_size (class_layout 3) = 64" "adj_align (class_layout 3) = 64"
    by (simp_all add: adj_size_def adj_align_def class_layout_def BLOCK_SIZES_def round_up_def)
  have "\<exists>m p. ll_alloc (locked_new ll_demo_heap) (class_layout 3) = Inr (m, p) \<and> unat p = 4160"
    using ll_alloc_refines_aux [of "locked_new ll_demo_heap" "[(4104, 8192)]" 4104 12296,
        OF _ _ _ _ _ ll_accepts_class [of 3]] ll_demo_free ll_demo_wf
    by (auto simp: c ll_demo_spec ll_wf_def)
  then obtain m p where a: "ll_alloc (locked_new ll_demo_heap) (class_layout 3) = Inr (m, p)" "unat p = 4160"
    by blast
  have "p \<noteq> 0" using a(2) by auto
  have "fallback_alloc (non_null ll_alloc) (fsb_new (locked_new ll_demo_heap) Map.empty) (class_layout 3) =
      Inr ((fsb_new (locked_new ll_demo_heap) Map.empty)\<lparr>fallback_allocator := m\<rparr>, p)"
    using a(1) \<open>p \<noteq> 0\<close> by (simp add: fallback_alloc_def non_null_def fsb_new_def)
  then show ?thesis
    using a(2) class_layout_valid [of 3]
    by (simp add: fsb_alloc_def fsb_demo_index index_get_def fsb_new_def Let_def)
qed

theorem fsb_safe_witness:
  "\<exists>m p. fsb_alloc (non_null ll_alloc) (locked_new (fsb_new (locked_new ll_demo_heap) Map.empty))
       \<lparr>l_size = 20, l_align = 64\<rparr> = Inr (m, p) \<and>
     unat p = 4160 \<and> live_ok 4104 12296 [(p, \<lparr>l_size = 20, l_align = 64\<rparr>)]"
proof -
  have fh: "fallback_heap ll_alloc ll_dealloc ll_accepts ll_touches ll_inv" by unfold_locales
  let ?s0 = "locked_new (fsb_new (locked_new ll_demo_heap) Map.empty)"
  obtain m p where a: "fsb_alloc (non_null ll_alloc) ?s0 \<lparr>l_size = 20, l_align = 64\<rparr> = Inr (m, p)"
    and p: "unat p = 4160"
    using fsb_demo_alloc by blast
  have p0: "p \<noteq> 0" using p by auto
  have "heap_trace (fsb_alloc (non_null ll_alloc)) (fsb_dealloc ll_dealloc) ll_accepts (fsb_touches ll_touches)
      ?s0 [] m [(p, \<lparr>l_size = 20, l_align = 64\<rparr>)]"
    using ll_demo_accepts(1) a p0 by (rule trace_first_alloc)
  from fsb_safe [OF fh ll_demo_inv this] a p show ?thesis by blast
qed

text \<open>The chosen size class is the smallest block size that covers both the
  size and the alignment of the layout, and there is none exactly when one of the two
  exceeds 2048.\<close>

theorem list_index_least:
  "case list_index l of
     Some i \<Rightarrow> i < length BLOCK_SIZES \<and> unat (BLOCK_SIZES ! i) = 2 ^ (i + 3) \<and>
       l_size l \<le> BLOCK_SIZES ! i \<and> l_align l \<le> BLOCK_SIZES ! i \<and>
       (i = 0 \<or> \<not> (l_size l \<le> BLOCK_SIZES ! (i - 1) \<and> l_align l \<le> BLOCK_SIZES ! (i - 1)))
   | None \<Rightarrow> 2048 < l_size l \<or> 2048 < l_align l"
proof (cases "list_index l")
  case None
  then have "\<not> max (l_size l) (l_align l) \<le> 2048"
    unfolding list_index_def Let_def position_None by (simp add: BLOCK_SIZES_def)
  with None show ?thesis by (simp add: not_le)
next
  case (Some i)
  note i = list_index_Some [OF Some]
  have "i = 0 \<or> BLOCK_SIZES ! (i - 1) < max (l_size l) (l_align l)"
    using i(4) [of "i - 1"] by (cases i) simp_all
  with Some i(1-3) show ?thesis by (auto simp: unat_BLOCK_SIZES less_max_iff_disj)
qed

theorem list_index_least_witness:
  "list_index \<lparr>l_size = 20, l_align = 64\<rparr> = Some 3 \<and> unat (BLOCK_SIZES ! 3) = 2 ^ 6 \<and>
   \<not> (64::usize) \<le> BLOCK_SIZES ! 2"
  using list_index_least [of "\<lparr>l_size = 20, l_align = 64\<rparr>"] fsb_demo_index
  by (simp add: BLOCK_SIZES_def)

text \<open>C34 (fsb_reuse): a block freed into a size class is handed out again, last in first out, to the
  next request of the same class, and the other free lists and the fallback heap are as they
  were before the free.\<close>

theorem fsb_reuse:
  assumes "\<not> held m" and "length (list_heads (inner m)) = 9"
    and "list_index l = Some i" and "list_index l' = Some i"
  shows "\<exists>m1 m2. fsb_dealloc fdealloc m p l = Inr m1 \<and> fsb_alloc fallocate m1 l' = Inr (m2, p) \<and>
           list_heads (inner m2) = list_heads (inner m) \<and>
           fallback_allocator (inner m2) = fallback_allocator (inner m)"
proof -
  have i: "i < 9" using assms(3) by (rule list_index_Some)
  define m1 where "m1 = m\<lparr>inner := (inner m)\<lparr>list_heads := (list_heads (inner m))[i := Some p],
      fsb_mem := (fsb_mem (inner m))(p \<mapsto> \<lparr>fsb_next = list_heads (inner m) ! i\<rparr>)\<rparr>\<rparr>"
  have "fsb_dealloc fdealloc m p l = Inr m1"
    using assms i block_size_ge [OF i]
    by (simp add: fsb_dealloc_def m1_def FSB_NODE_SIZE_def FSB_NODE_ALIGN_def)
  moreover have "\<exists>m2. fsb_alloc fallocate m1 l' = Inr (m2, p) \<and>
      list_heads (inner m2) = list_heads (inner m) \<and>
      fallback_allocator (inner m2) = fallback_allocator (inner m)"
    using assms i by (simp add: fsb_alloc_def m1_def)
  ultimately show ?thesis by blast
qed

theorem fsb_reuse_witness:
  "\<exists>m1 m2. fsb_dealloc ll_dealloc (locked_new (fsb_new (locked_new ll_demo_heap) Map.empty)) 4160
       \<lparr>l_size = 20, l_align = 64\<rparr> = Inr m1 \<and>
     fsb_alloc (non_null ll_alloc) m1 \<lparr>l_size = 20, l_align = 64\<rparr> = Inr (m2, 4160)"
  using fsb_reuse [of "locked_new (fsb_new (locked_new ll_demo_heap) Map.empty)",
      OF _ _ fsb_demo_index fsb_demo_index]
  by (force simp: fsb_new_def)

end
