(* ===== verification/Process_Heap.thy ===== *)
theory Process_Heap
  imports Preemption Fixed_Size_Block
begin

text \<open>
  Creating processes on the heap (\<^verbatim>\<open>process.rs\<close>). A spawned process takes two kinds of memory from the global
  allocator: its boxed stack, and room in the buffer behind \<^verbatim>\<open>Scheduler::processes\<close>, a \<^verbatim>\<open>VecDeque\<close> that doubles its
  buffer when it is full. \<open>alloc\<close> and \<open>dealloc\<close> are the two operations of \<^verbatim>\<open>GlobalAlloc\<close> on the locked heap. The
  locale \<open>stack_allocator\<close> says what creating processes needs of an allocator beyond its contract, and
  its lemmas show that any number of processes is created without interference; the linked list allocator and
  the block allocator over it are instances.
\<close>

section \<open>Memory of the process table\<close>

text \<open>\<^verbatim>\<open>Box::new([0u8; STACK_SIZE])\<close>: an array of bytes has alignment one.\<close>

definition stack_layout :: layout where
  "stack_layout = \<lparr>l_size = of_nat STACK_SIZE, l_align = 1\<rparr>"

text \<open>\<^verbatim>\<open>size_of::<Process>()\<close>: the identifier, nine saved registers, a boxed slice and one byte of state, padded to eight.\<close>

definition PROCESS_SIZE :: nat where
  "PROCESS_SIZE = 8 + 9 * 8 + 16 + 8"

definition buffer_layout :: "nat \<Rightarrow> layout" where
  "buffer_layout cap = \<lparr>l_size = of_nat (PROCESS_SIZE * cap), l_align = 8\<rparr>"

record table_buffer =
  buf_ptr :: usize
  buf_cap :: nat

text \<open>\<^verbatim>\<open>VecDeque::new()\<close> allocates nothing; its pointer is dangling.\<close>

definition buffer_new :: table_buffer where
  "buffer_new = \<lparr>buf_ptr = 8, buf_cap = 0\<rparr>"

text \<open>
  The part of \<^verbatim>\<open>push_back\<close> that makes room for one more element: a full buffer grows to twice its capacity, and to
  four elements at least; the old buffer is given back once its contents are moved.
\<close>

definition grown_cap :: "nat \<Rightarrow> nat" where
  "grown_cap cap = max 4 (max (2 * cap) (cap + 1))"

definition push_reserve ::
  "('s \<Rightarrow> layout \<Rightarrow> ('s \<times> usize) result) \<Rightarrow> ('s \<Rightarrow> usize \<Rightarrow> layout \<Rightarrow> 's result) \<Rightarrow> nat \<Rightarrow>
   's \<times> table_buffer \<Rightarrow> ('s \<times> table_buffer) result" where
  "push_reserve alloc dealloc len = (\<lambda>(heap, buf).
     if len < buf_cap buf then Inr (heap, buf)
     else
       let cap = grown_cap (buf_cap buf) in
       and_then (require (PROCESS_SIZE * cap \<le> 2 ^ 63 - 8) (Panic (ExplicitPanic ''capacity overflow''))) (\<lambda>_.
       and_then (alloc heap (buffer_layout cap)) (\<lambda>(heap, p).
       and_then (require (p \<noteq> 0) (Panic AllocFailed)) (\<lambda>_.
       and_then (if buf_cap buf = 0 then Inr heap else dealloc heap (buf_ptr buf) (buffer_layout (buf_cap buf))) (\<lambda>heap.
       Inr (heap, \<lparr>buf_ptr = p, buf_cap = cap\<rparr>))))))"

text \<open>The state a sequence of \<^verbatim>\<open>spawn\<close> calls works on: heap, buffer, next identifier, table and memory.\<close>

type_synonym 's spawn_state = "'s \<times> table_buffer \<times> u64 \<times> scheduler \<times> memory"

text \<open>\<^verbatim>\<open>sched.spawn_root()\<close>: the empty boxed slice takes no memory, the table entry does.\<close>

definition spawn_root_heap ::
  "('s \<Rightarrow> layout \<Rightarrow> ('s \<times> usize) result) \<Rightarrow> ('s \<Rightarrow> usize \<Rightarrow> layout \<Rightarrow> 's result) \<Rightarrow>
   's spawn_state \<Rightarrow> 's spawn_state result" where
  "spawn_root_heap alloc dealloc = (\<lambda>(heap, buf, next_pid, sched, m).
     and_then (push_reserve alloc dealloc (length (processes sched)) (heap, buf)) (\<lambda>(heap, buf).
     Inr (heap, buf, next_pid, spawn_root sched, m)))"

text \<open>\<^verbatim>\<open>sched.spawn(entry_point)\<close>.\<close>

definition spawn_heap ::
  "('s \<Rightarrow> layout \<Rightarrow> ('s \<times> usize) result) \<Rightarrow> ('s \<Rightarrow> usize \<Rightarrow> layout \<Rightarrow> 's result) \<Rightarrow> u64 \<Rightarrow>
   's spawn_state \<Rightarrow> 's spawn_state result" where
  "spawn_heap alloc dealloc entry_point = (\<lambda>(heap, buf, next_pid, sched, m).
     and_then (alloc heap stack_layout) (\<lambda>(heap, p).
     and_then (spawn (if p = 0 then None else Some p) entry_point (next_pid, sched, m)) (\<lambda>(pid, next_pid, sched', m).
     and_then (push_reserve alloc dealloc (length (processes sched)) (heap, buf)) (\<lambda>(heap, buf).
     Inr (heap, buf, next_pid, sched', m)))))"

text \<open>A scheduler started from scratch: the root process, then one process per entry point.\<close>

definition spawn_all ::
  "('s \<Rightarrow> layout \<Rightarrow> ('s \<times> usize) result) \<Rightarrow> ('s \<Rightarrow> usize \<Rightarrow> layout \<Rightarrow> 's result) \<Rightarrow> u64 list \<Rightarrow>
   's spawn_state \<Rightarrow> 's spawn_state result" where
  "spawn_all alloc dealloc entries st =
     and_then (spawn_root_heap alloc dealloc st) (for_loop entries (spawn_heap alloc dealloc))"

section \<open>The kernel while it creates processes\<close>

text \<open>The kernel inside the critical section of start-up: the lock held, table \<open>s\<close>, next id \<open>np\<close>.\<close>

definition locked_table :: "kernel \<Rightarrow> scheduler \<Rightarrow> u64 \<Rightarrow> kernel" where
  "locked_table k s np = set_held True ((set_sched s k)\<lparr>NEXT_PID := np\<rparr>)"

lemma locked_table_facts:
  "(set_sched s' (locked_table k s np))\<lparr>NEXT_PID := np'\<rparr> = locked_table k s' np'" "sched_of (locked_table k s np) = s"
  "NEXT_PID (locked_table k s np) = np" "held (SCHEDULER (locked_table k s np))"
  by (simp_all add: locked_table_def set_held_def set_sched_def sched_of_def)

lemma stacks_ok_append: "stacks_ok (xs @ ys) \<Longrightarrow> stacks_ok xs"
  by (simp add: stacks_ok_def all_apart_append)

text \<open>One spawned process, given what the allocator answered.\<close>

lemma spawn_heap_runs:
  assumes a: "alloc heap stack_layout = Inr (heap1, b)" "b \<noteq> 0" "spawnable b"
    and r: "push_reserve alloc dealloc (length (processes s)) (heap1, buf) = Inr (heap2, buf')"
    and run: "runs abi notify io depth (locked_table k s np) pl c snap sts"
    and ok: "stacks_ok (sts @ [(b, STACK_SIZE)])"
  shows "\<exists>p m'. spawn_heap alloc dealloc entry_point (heap, buf, np, s, mem c) =
      Inr (heap2, buf', np + 1, s\<lparr>processes := processes s @ [p]\<rparr>, m') \<and>
    proc_id p = np \<and> proc_state p = Ready \<and> proc_stack p = (b, STACK_SIZE) \<and>
    runs abi notify io depth (locked_table k (s\<lparr>processes := processes s @ [p]\<rparr>) (np + 1)) pl (c\<lparr>mem := m'\<rparr>)
      (snap(length sts := initial_frame entry_point (b + of_nat STACK_SIZE))) (sts @ [(b, STACK_SIZE)])"
proof -
  obtain p m' where p: "spawn (Some b) entry_point (np, s, mem c) = Inr (np, np + 1, s\<lparr>processes := processes s @ [p]\<rparr>, m')"
      "proc_id p = np" "proc_state p = Ready" "proc_stack p = (b, STACK_SIZE)"
    using spawn_ok [OF a(3), of entry_point np s "mem c"] by (elim exE conjE) (rule that)
  have "spawn_heap alloc dealloc entry_point (heap, buf, np, s, mem c) =
      Inr (heap2, buf', np + 1, s\<lparr>processes := processes s @ [p]\<rparr>, m')"
    using a(1,2) p(1) r by (simp add: spawn_heap_def)
  then show ?thesis
    using runs.spawn [OF run locked_table_facts(4) a(3) ok, unfolded locked_table_facts, OF p(1)] p(2-4) by blast
qed

section \<open>What creating processes needs of an allocator\<close>

definition table_blocks :: "table_buffer \<Rightarrow> block list" where
  "table_blocks buf = (if buf_cap buf = 0 then [] else [(buf_ptr buf, buffer_layout (buf_cap buf))])"

definition stack_blocks :: "usize list \<Rightarrow> block list" where
  "stack_blocks bs = map (\<lambda>b. (b, stack_layout)) bs"

definition heap_stacks :: "usize list \<Rightarrow> stack list" where
  "heap_stacks bs = map (\<lambda>b. (b, STACK_SIZE)) bs"

definition out_of_memory :: "'a result \<Rightarrow> bool" where
  "out_of_memory r = (r = Inl (Panic AllocFailed) \<or> r = Inl (Panic (ExplicitPanic ''capacity overflow'')))"

lemma out_of_memory_and_then: "out_of_memory r \<Longrightarrow> out_of_memory (and_then r f)"
  by (auto simp: out_of_memory_def)

lemma grown_cap_facts: "0 < grown_cap cap" "cap < grown_cap cap"
  by (simp_all add: grown_cap_def)

lemma push_reserve_full:
  assumes "\<not> len < buf_cap buf"
  shows "\<not> PROCESS_SIZE * grown_cap (buf_cap buf) \<le> 2 ^ 63 - 8 \<Longrightarrow> out_of_memory (push_reserve alloc dealloc len (heap, buf))"
    and "PROCESS_SIZE * grown_cap (buf_cap buf) \<le> 2 ^ 63 - 8 \<Longrightarrow> alloc heap (buffer_layout (grown_cap (buf_cap buf))) = Inr (h1, 0) \<Longrightarrow>
      out_of_memory (push_reserve alloc dealloc len (heap, buf))"
    and "PROCESS_SIZE * grown_cap (buf_cap buf) \<le> 2 ^ 63 - 8 \<Longrightarrow> alloc heap (buffer_layout (grown_cap (buf_cap buf))) = Inr (h1, p) \<Longrightarrow> p \<noteq> 0 \<Longrightarrow>
      (if buf_cap buf = 0 then Inr h1 else dealloc h1 (buf_ptr buf) (buffer_layout (buf_cap buf))) = Inr h2 \<Longrightarrow>
      push_reserve alloc dealloc len (heap, buf) = Inr (h2, \<lparr>buf_ptr = p, buf_cap = grown_cap (buf_cap buf)\<rparr>)"
  using assms by (simp_all add: push_reserve_def out_of_memory_def require_def Let_def)

text \<open>
  The state between two \<^verbatim>\<open>spawn\<close> calls: of the heap the table holds its buffer, which is large enough, and the stacks
  \<open>bs\<close>, others hold \<open>rest\<close>; the processor runs the system whose stacks are \<open>st0\<close> and these, suspended as \<open>snap\<close> says.
\<close>

definition table_ready ::
  "(nat \<Rightarrow> nat \<Rightarrow> 's \<Rightarrow> block list \<Rightarrow> bool) \<Rightarrow> nat \<Rightarrow> nat \<Rightarrow> block list \<Rightarrow>
   abi \<Rightarrow> (u8 \<Rightarrow> 'p \<Rightarrow> 'p) \<Rightarrow> 'd ports \<Rightarrow> nat \<Rightarrow> kernel \<times> ('p, 'd) platform \<times> cpu \<Rightarrow> stack \<Rightarrow>
   usize list \<Rightarrow> (nat \<Rightarrow> u64 list) \<Rightarrow> 's spawn_state \<Rightarrow> bool" where
  "table_ready I lo hi rest abi notify io depth = (\<lambda>(k, pl, c) st0 bs snap (heap, buf, np, s, m).
     (\<exists>live. I lo hi heap live \<and> mset live = mset (table_blocks buf @ stack_blocks bs @ rest)) \<and>
     length (processes s) \<le> buf_cap buf \<and> stack_wf st0 \<and> apart (stack_extent st0) (lo, hi - lo) \<and>
     runs abi notify io depth (locked_table k s np) pl (c\<lparr>mem := m\<rparr>) snap (st0 # heap_stacks bs))"

text \<open>The frames new processes start from.\<close>

definition starts_at :: "u64 list \<Rightarrow> usize list \<Rightarrow> u64 list list" where
  "starts_at entries bs = map2 (\<lambda>e b. initial_frame e (b + of_nat STACK_SIZE)) entries bs"

text \<open>
  One process per entry point has been added to table \<open>s\<close>, numbered from \<open>np\<close>, with stacks of their own behind the stacks \<open>bs\<close>
  and their starting frames behind those of \<open>snap\<close>, and \<open>T\<close> holds of the result.
\<close>

definition spawned ::
  "(usize list \<Rightarrow> (nat \<Rightarrow> u64 list) \<Rightarrow> 's spawn_state \<Rightarrow> bool) \<Rightarrow> usize list \<Rightarrow> (nat \<Rightarrow> u64 list) \<Rightarrow> u64 \<Rightarrow> scheduler \<Rightarrow>
   u64 list \<Rightarrow> 's spawn_state result \<Rightarrow> bool" where
  "spawned T bs snap np s entries r =
     (\<exists>heap' buf' bs' ps m' snap'. r = Inr (heap', buf', np + of_nat (length entries), s\<lparr>processes := processes s @ ps\<rparr>, m') \<and>
       map proc_id ps = map (\<lambda>i. np + of_nat i) [0..<length entries] \<and> map proc_stack ps = heap_stacks bs' \<and>
       length bs' = length entries \<and>
       map snap' [0..<Suc (length bs + length entries)] = map snap [0..<Suc (length bs)] @ starts_at entries bs' \<and>
       T (bs @ bs') snap' (heap', buf', np + of_nat (length entries), s\<lparr>processes := processes s @ ps\<rparr>, m'))"

lemma spawned_Nil: "T bs snap (heap, buf, np, s, m) \<Longrightarrow> spawned T bs snap np s [] (Inr (heap, buf, np, s, m))"
  unfolding spawned_def
  by (intro exI [of _ heap] exI [of _ buf] exI [of _ "[]"] exI [of _ m] exI [of _ snap]) (simp add: heap_stacks_def starts_at_def)

lemma spawned_Cons:
  assumes p: "proc_id p = np" "proc_stack p = (b, STACK_SIZE)"
    and sp: "spawned T (bs @ [b]) (snap(Suc (length bs) := initial_frame e (b + of_nat STACK_SIZE))) (np + 1)
      (s\<lparr>processes := processes s @ [p]\<rparr>) es r"
  shows "spawned T bs snap np s (e # es) r"
proof -
  have starts: "starts_at (e # es) (b # bs') = initial_frame e (b + of_nat STACK_SIZE) # starts_at es bs'" for bs'
    by (simp add: starts_at_def)
  from sp obtain heap' buf' bs' ps m' snap' where
    r: "r = Inr (heap', buf', np + 1 + of_nat (length es), s\<lparr>processes := processes s @ p # ps\<rparr>, m')"
      "map proc_id ps = map (\<lambda>i. np + 1 + of_nat i) [0..<length es]" "map proc_stack ps = heap_stacks bs'" "length bs' = length es"
      "map snap' [0..<Suc (length (bs @ [b]) + length es)] =
        map (snap(Suc (length bs) := initial_frame e (b + of_nat STACK_SIZE))) [0..<Suc (length (bs @ [b]))] @ starts_at es bs'"
      "T (bs @ b # bs') snap' (heap', buf', np + 1 + of_nat (length es), s\<lparr>processes := processes s @ p # ps\<rparr>, m')"
    unfolding spawned_def by auto
  have "map proc_id (p # ps) = map (\<lambda>i. np + of_nat i) [0..<length (e # es)]"
    using r(2) p(1) by (simp add: upt_conv_Cons map_Suc_upt [symmetric] comp_def add.assoc del: upt_Suc)
  then show ?thesis
    unfolding spawned_def using r p
    by (intro exI [of _ heap'] exI [of _ buf'] exI [of _ "b # bs'"] exI [of _ "p # ps"] exI [of _ m'] exI [of _ snap'] conjI)
       (simp_all add: heap_stacks_def add.assoc starts)
qed

text \<open>Behind a root process the numbers are the indices.\<close>

lemma spawned_first:
  assumes "spawned T [] snap 1 \<lparr>processes = [root], current_index = 0\<rparr> entries r" and root: "proc_id root = 0"
  shows "\<exists>heap' buf' bs s' m' snap'. r = Inr (heap', buf', of_nat (Suc (length entries)), s', m') \<and>
      map proc_id (processes s') = map of_nat [0..<Suc (length entries)] \<and> current_index s' = 0 \<and>
      map proc_stack (tl (processes s')) = heap_stacks bs \<and> length bs = length entries \<and>
      map snap' [1..<Suc (length entries)] = starts_at entries bs \<and>
      T bs snap' (heap', buf', of_nat (Suc (length entries)), s', m')"
proof -
  from assms(1) obtain heap' buf' bs' ps m' snap' where
    r: "r = Inr (heap', buf', of_nat (Suc (length entries)), \<lparr>processes = root # ps, current_index = 0\<rparr>, m')"
      "map proc_id ps = map (\<lambda>i. 1 + of_nat i) [0..<length entries]" "map proc_stack ps = heap_stacks bs'"
      "length bs' = length entries" "map snap' [0..<Suc (length entries)] = map snap [0..<1] @ starts_at entries bs'"
      "T bs' snap' (heap', buf', of_nat (Suc (length entries)), \<lparr>processes = root # ps, current_index = 0\<rparr>, m')"
    unfolding spawned_def by auto
  have "map proc_id (root # ps) = map of_nat [0..<Suc (length entries)]"
    using r(2) root by (simp add: upt_conv_Cons map_Suc_upt [symmetric] comp_def del: upt_Suc)
  moreover have "map snap' [1..<Suc (length entries)] = starts_at entries bs'"
    using r(5) by (simp add: upt_conv_Cons del: upt_Suc)
  ultimately show ?thesis
    using r(1,3,4,6)
    by (intro exI [of _ heap'] exI [of _ buf'] exI [of _ bs'] exI [of _ "\<lparr>processes = root # ps, current_index = 0\<rparr>"]
        exI [of _ m'] exI [of _ snap']) simp
qed

text \<open>An aligned block that ends below the last address can be a stack.\<close>

lemma spawnableI: "8 dvd unat b \<Longrightarrow> unat b + STACK_SIZE < 2 ^ 64 \<Longrightarrow> spawnable b"
proof -
  assume a: "8 dvd unat b" "unat b + STACK_SIZE < 2 ^ 64"
  have u: "unat (b + of_nat STACK_SIZE) = unat b + STACK_SIZE"
    using a(2) by (subst unat_add_ok) (simp_all add: STACK_SIZE_def)
  have "8 dvd unat b + STACK_SIZE" using a(1) by (simp add: STACK_SIZE_def)
  then have "take_bit 3 (unat (b + of_nat STACK_SIZE)) = 0" unfolding u by (simp add: take_bit_eq_mod dvd_eq_mod_eq_0)
  then have "unat (take_bit 3 (b + of_nat STACK_SIZE)) = 0" by (simp add: unsigned_take_bit_eq)
  then have "take_bit 3 (b + of_nat STACK_SIZE) = 0" by (simp only: unat_eq_0)
  then show ?thesis using a(2) by (simp add: spawnable_def take_bit_eq_mask mask_eq_exp_minus_1)
qed

lemma stacks_of_blocks:
  assumes "live_ok lo hi live" and "mset live = mset (table_blocks buf @ stack_blocks bs @ rest)" and "hi < 2 ^ 64"
    and "stack_wf st0" and "apart (stack_extent st0) (lo, hi - lo)"
  shows "stacks_ok (st0 # heap_stacks bs)"
proof -
  have e: "map extent (stack_blocks bs) = map stack_extent (heap_stacks bs)"
    by (simp add: stack_blocks_def heap_stacks_def extent_def stack_extent_def stack_layout_def STACK_SIZE_def)
  have "all_apart (map extent (table_blocks buf @ stack_blocks bs @ rest))"
    using assms(1,2) all_apart_perm [of "map extent live" "map extent (table_blocks buf @ stack_blocks bs @ rest)"]
    by (simp add: live_ok_def)
  then have ap: "all_apart (map stack_extent (heap_stacks bs))" by (simp add: all_apart_append e)
  have w: "within lo hi (unat b, STACK_SIZE)" if "b \<in> set bs" for b
  proof -
    have "(b, stack_layout) \<in> set live" using mset_eq_setD [OF assms(2)] that by (simp add: stack_blocks_def)
    then have "within lo hi (extent (b, stack_layout))" using assms(1) by (auto simp: live_ok_def list_all_iff)
    then show ?thesis by (simp add: extent_def stack_layout_def STACK_SIZE_def)
  qed
  then have "list_all stack_wf (heap_stacks bs)"
    using assms(3) by (fastforce simp: list_all_iff heap_stacks_def stack_wf_def within_def)
  moreover have "apart (stack_extent st0) (unat b, STACK_SIZE)" if "b \<in> set bs" for b
    using w [OF that] assms(5) by (auto simp: apart_def within_def)
  ultimately show ?thesis
    using ap assms(4) by (simp add: stacks_ok_def heap_stacks_def stack_extent_def)
qed

locale stack_allocator = global_allocator +
  assumes serves_stacks: "accepts stack_layout"
    and serves_buffers: "0 < cap \<Longrightarrow> PROCESS_SIZE * cap \<le> 2 ^ 63 - 8 \<Longrightarrow> accepts (buffer_layout cap)"
    and stack_aligned: "inv lo hi s live \<Longrightarrow> alloc s stack_layout = Inr (s', p) \<Longrightarrow> 8 dvd unat p"
    and heap_bound: "inv lo hi s live \<Longrightarrow> hi < 2 ^ 64"
begin

lemma give_back:
  assumes "inv lo hi s live" and "mset live = mset (x # table_blocks buf @ rest)"
  shows "\<exists>s' live'. (if buf_cap buf = 0 then Inr s else dealloc s (buf_ptr buf) (buffer_layout (buf_cap buf))) = Inr s' \<and>
    inv lo hi s' live' \<and> mset live' = mset (x # rest)"
proof (cases "buf_cap buf = 0")
  case True
  then show ?thesis using assms by (auto simp: table_blocks_def)
next
  case False
  let ?b = "(buf_ptr buf, buffer_layout (buf_cap buf))"
  have m: "mset live = mset (?b # x # rest)" using assms(2) False by (simp add: table_blocks_def add_mset_commute)
  then have "?b \<in> set live" by (metis list.set_intros(1) mset_eq_setD)
  from dealloc_inv [OF assms(1) this] obtain s' where
    "dealloc s (buf_ptr buf) (buffer_layout (buf_cap buf)) = Inr s'" "inv lo hi s' (remove1 ?b live)" by blast
  then show ?thesis using False m by (intro exI [of _ s'] exI [of _ "remove1 ?b live"]) simp
qed

lemma push_reserve_ok:
  assumes "inv lo hi heap live" and "mset live = mset (table_blocks buf @ rest)" and "len \<le> buf_cap buf"
  shows "out_of_memory (push_reserve alloc dealloc len (heap, buf)) \<or>
    (\<exists>heap' buf' live'. push_reserve alloc dealloc len (heap, buf) = Inr (heap', buf') \<and> len < buf_cap buf' \<and>
       inv lo hi heap' live' \<and> mset live' = mset (table_blocks buf' @ rest))"
proof (cases "len < buf_cap buf")
  case True
  then show ?thesis using assms by (auto simp: push_reserve_def)
next
  case full: False
  let ?cap = "grown_cap (buf_cap buf)"
  let ?l = "buffer_layout ?cap"
  note pr = push_reserve_full [OF full, where alloc = alloc and dealloc = dealloc and heap = heap]
  consider (big) "\<not> PROCESS_SIZE * ?cap \<le> 2 ^ 63 - 8" | (null) h1 where "PROCESS_SIZE * ?cap \<le> 2 ^ 63 - 8" "alloc heap ?l = Inr (h1, 0)"
    | (block) h1 p where "PROCESS_SIZE * ?cap \<le> 2 ^ 63 - 8" "alloc heap ?l = Inr (h1, p)" "p \<noteq> 0"
    using alloc_returns [OF assms(1) serves_buffers [OF grown_cap_facts(1)]] by metis
  then show ?thesis
  proof cases
    case big
    then show ?thesis using pr(1) by simp
  next
    case null
    then show ?thesis using pr(2) by simp
  next
    case block
    note acc = serves_buffers [OF grown_cap_facts(1) block(1)]
    have "mset ((p, ?l) # live) = mset ((p, ?l) # table_blocks buf @ rest)" using assms(2) by simp
    from give_back [OF alloc_block_inv [OF assms(1) acc block(2,3)] this] obtain h2 live' where
      h2: "(if buf_cap buf = 0 then Inr h1 else dealloc h1 (buf_ptr buf) (buffer_layout (buf_cap buf))) = Inr h2"
        "inv lo hi h2 live'" "mset live' = mset ((p, ?l) # rest)" by blast
    have "table_blocks \<lparr>buf_ptr = p, buf_cap = ?cap\<rparr> = [(p, ?l)]"
      using grown_cap_facts(1) [of "buf_cap buf"] by (simp add: table_blocks_def)
    then show ?thesis
      using pr(3) [OF block h2(1)] h2(2,3) full assms(3) grown_cap_facts(2) [of "buf_cap buf"]
      by (intro disjI2 exI [of _ h2] exI [of _ "\<lparr>buf_ptr = p, buf_cap = ?cap\<rparr>"] exI [of _ live'] conjI) simp_all
  qed
qed

lemma stack_spawnable:
  assumes "inv lo hi s live" and "alloc s stack_layout = Inr (s', p)" and "p \<noteq> 0"
  shows "spawnable p" and "within lo hi (unat p, STACK_SIZE)"
proof -
  have "live_ok lo hi ((p, stack_layout) # live)"
    using assms by (blast intro: inv_live_ok alloc_block_inv serves_stacks)
  then show w: "within lo hi (unat p, STACK_SIZE)"
    by (simp add: live_ok_def extent_def stack_layout_def STACK_SIZE_def)
  then show "spawnable p"
    using stack_aligned [OF assms(1,2)] heap_bound [OF assms(1)] by (intro spawnableI) (simp_all add: within_def)
qed

lemma spawn_heap_safe:
  assumes "table_ready inv lo hi rest abi notify io depth kpc st0 bs snap (heap, buf, np, s, m)"
  shows "out_of_memory (spawn_heap alloc dealloc entry_point (heap, buf, np, s, m)) \<or>
    (\<exists>heap' buf' b p m'. spawn_heap alloc dealloc entry_point (heap, buf, np, s, m) =
        Inr (heap', buf', np + 1, s\<lparr>processes := processes s @ [p]\<rparr>, m') \<and>
      proc_id p = np \<and> proc_stack p = (b, STACK_SIZE) \<and>
      table_ready inv lo hi rest abi notify io depth kpc st0 (bs @ [b])
        (snap(Suc (length bs) := initial_frame entry_point (b + of_nat STACK_SIZE)))
        (heap', buf', np + 1, s\<lparr>processes := processes s @ [p]\<rparr>, m'))"
proof -
  obtain k pl c where kpc: "kpc = (k, pl, c)" by (cases kpc)
  note T = assms [unfolded kpc table_ready_def prod.case]
  obtain live where live: "inv lo hi heap live" "mset live = mset (table_blocks buf @ stack_blocks bs @ rest)"
    using T by blast
  obtain h1 b where a: "alloc heap stack_layout = Inr (h1, b)"
    using alloc_returns [OF live(1) serves_stacks] by blast
  show ?thesis
  proof (cases "b = 0")
    case True
    then show ?thesis using a by (simp add: spawn_heap_def spawn_def out_of_memory_def)
  next
    case b: False
    note i1 = alloc_block_inv [OF live(1) serves_stacks a b] and sp = stack_spawnable [OF live(1) a b]
    have m1: "mset ((b, stack_layout) # live) = mset (table_blocks buf @ stack_blocks (bs @ [b]) @ rest)"
      using live(2) by (simp add: stack_blocks_def)
    have ok: "stacks_ok ((st0 # heap_stacks bs) @ [(b, STACK_SIZE)])"
      using stacks_of_blocks [OF inv_live_ok [OF i1] m1 heap_bound [OF i1]] T by (simp add: heap_stacks_def)
    consider "out_of_memory (push_reserve alloc dealloc (length (processes s)) (h1, buf))"
      | h2 buf' live' where "push_reserve alloc dealloc (length (processes s)) (h1, buf) = Inr (h2, buf')"
          "length (processes s) < buf_cap buf'" "inv lo hi h2 live'"
          "mset live' = mset (table_blocks buf' @ stack_blocks (bs @ [b]) @ rest)"
      using push_reserve_ok [OF i1 m1, of "length (processes s)"] T by blast
    then show ?thesis
    proof cases
      case 1
      then show ?thesis
        using a b spawn_ok [OF sp(1), of entry_point np s m]
        by (intro disjI1) (force simp: spawn_heap_def out_of_memory_def)
    next
      case 2
      from spawn_heap_runs [OF a b sp(1) 2(1) _ ok, of abi notify io depth k np pl "c\<lparr>mem := m\<rparr>" snap entry_point] T 2(2-4)
      show ?thesis by (force simp: table_ready_def kpc heap_stacks_def)
    qed
  qed
qed

lemma spawn_many_safe:
  assumes "table_ready inv lo hi rest abi notify io depth kpc st0 bs snap (heap, buf, np, s, m)"
  shows "out_of_memory (for_loop entries (spawn_heap alloc dealloc) (heap, buf, np, s, m)) \<or>
    spawned (table_ready inv lo hi rest abi notify io depth kpc st0) bs snap np s entries
      (for_loop entries (spawn_heap alloc dealloc) (heap, buf, np, s, m))"
  using assms
proof (induction entries arbitrary: heap buf bs s np m snap)
  case Nil
  then show ?case by (simp add: spawned_Nil)
next
  case (Cons e es)
  let ?T = "table_ready inv lo hi rest abi notify io depth kpc st0"
  consider "out_of_memory (spawn_heap alloc dealloc e (heap, buf, np, s, m))"
    | h1 buf1 b p m1 where "spawn_heap alloc dealloc e (heap, buf, np, s, m) =
        Inr (h1, buf1, np + 1, s\<lparr>processes := processes s @ [p]\<rparr>, m1)" "proc_id p = np" "proc_stack p = (b, STACK_SIZE)"
      "?T (bs @ [b]) (snap(Suc (length bs) := initial_frame e (b + of_nat STACK_SIZE))) (h1, buf1, np + 1, s\<lparr>processes := processes s @ [p]\<rparr>, m1)"
    using spawn_heap_safe [OF Cons.prems, of e] by blast
  then show ?case
  proof cases
    case 1
    then show ?thesis by (simp add: out_of_memory_and_then)
  next
    case 2
    have eq: "for_loop (e # es) (spawn_heap alloc dealloc) (heap, buf, np, s, m) =
        for_loop es (spawn_heap alloc dealloc) (h1, buf1, np + 1, s\<lparr>processes := processes s @ [p]\<rparr>, m1)" using 2(1) by simp
    show ?thesis unfolding eq using Cons.IH [OF 2(4)] spawned_Cons [OF 2(2,3), of ?T] by blast
  qed
qed

text \<open>From an empty table: either the heap is exhausted, or every process has its own stack and starting frame.\<close>

lemma spawn_all_safe:
  assumes heap: "inv lo hi heap rest" and st0: "stack_wf st0" "apart (stack_extent st0) (lo, hi - lo)"
    and room: "room depth st0 (regs c RSP)" and k: "\<not> held (SCHEDULER k)"
  shows "out_of_memory (spawn_all alloc dealloc entries (heap, buffer_new, 1, \<lparr>processes = [], current_index = 0\<rparr>, mem c)) \<or>
    (\<exists>heap' buf' bs s' m' snap'. spawn_all alloc dealloc entries (heap, buffer_new, 1, \<lparr>processes = [], current_index = 0\<rparr>, mem c) =
        Inr (heap', buf', of_nat (Suc (length entries)), s', m') \<and>
      map proc_id (processes s') = map of_nat [0..<Suc (length entries)] \<and> current_index s' = 0 \<and>
      map proc_stack (tl (processes s')) = heap_stacks bs \<and> length bs = length entries \<and>
      map snap' [1..<Suc (length entries)] = starts_at entries bs \<and>
      table_ready inv lo hi rest abi notify io depth (k, pl, c) st0 bs snap'
        (heap', buf', of_nat (Suc (length entries)), s', m'))"
proof -
  let ?e = "\<lparr>processes = [], current_index = 0\<rparr>"
  let ?root = "\<lparr>proc_id = 0, proc_state = Running, proc_context = context_zero, proc_stack = (1, 0)\<rparr>"
  let ?s0 = "\<lparr>processes = [?root], current_index = 0\<rparr>"
  have root: "spawn_root ?e = ?s0" by (simp add: spawn_root_def)
  have "mset rest = mset (table_blocks buffer_new @ rest)" by (simp add: table_blocks_def buffer_new_def)
  then consider "out_of_memory (push_reserve alloc dealloc 0 (heap, buffer_new))"
    | h1 buf1 live1 where "push_reserve alloc dealloc 0 (heap, buffer_new) = Inr (h1, buf1)" "0 < buf_cap buf1"
        "inv lo hi h1 live1" "mset live1 = mset (table_blocks buf1 @ rest)"
    using push_reserve_ok [OF heap _ le0] by blast
  then show ?thesis
  proof cases
    case 1
    then show ?thesis by (auto simp: spawn_all_def spawn_root_heap_def out_of_memory_def)
  next
    case 2
    have "runs abi notify io depth (locked_table k ?s0 1) pl (c\<lparr>mem := mem c\<rparr>) (\<lambda>_. []) [st0]"
      unfolding locked_table_def using st0(1) room k by (intro runs.lock runs.boot) (simp_all add: root)
    then have "table_ready inv lo hi rest abi notify io depth (k, pl, c) st0 [] (\<lambda>_. []) (h1, buf1, 1, ?s0, mem c)"
      using 2(2-4) st0 by (auto simp: table_ready_def stack_blocks_def heap_stacks_def)
    note many = spawn_many_safe [OF this, of entries]
    have eq: "spawn_all alloc dealloc entries (heap, buffer_new, 1, ?e, mem c) = for_loop entries (spawn_heap alloc dealloc) (h1, buf1, 1, ?s0, mem c)"
      using 2(1) by (simp add: spawn_all_def spawn_root_heap_def root)
    show ?thesis
      unfolding eq using many by (elim disjE) (rule disjI1, assumption, rule disjI2, rule spawned_first, assumption, simp)
  qed
qed

end

section \<open>Allocators of the repository\<close>

lemma stack_layout_ok: "ll_accepts stack_layout" "adj_size stack_layout = 16384" "adj_align stack_layout = 8"
proof -
  have p: "is_power_of_two 1" "is_power_of_two 8"
    unfolding is_power_of_two_iff by (rule exI [of _ 0], simp) (rule exI [of _ 3], simp)
  then show "ll_accepts stack_layout"
    by (simp add: ll_accepts_def stack_layout_def STACK_SIZE_def valid_layout_iff align_to_def from_size_align_def NODE_ALIGN_def max_def)
  show "adj_size stack_layout = 16384" "adj_align stack_layout = 8"
    by (simp_all add: adj_size_def adj_align_def stack_layout_def STACK_SIZE_def round_up_def)
qed

lemma buffer_layout_ok:
  assumes "0 < cap" and "PROCESS_SIZE * cap \<le> 2 ^ 63 - 8"
  shows "ll_accepts (buffer_layout cap)" "adj_size (buffer_layout cap) = PROCESS_SIZE * cap" "adj_align (buffer_layout cap) = 8"
proof -
  have p: "is_power_of_two 8" unfolding is_power_of_two_iff by (rule exI [of _ 3]) simp
  define n :: u64 where "n = of_nat (PROCESS_SIZE * cap)"
  have "PROCESS_SIZE * cap < 2 ^ LENGTH(64)" using assms(2) by simp
  then have u: "unat n = PROCESS_SIZE * cap" unfolding n_def unat_of_nat by (rule mod_less)
  have pos: "0 < PROCESS_SIZE * cap" using assms(1) by (simp add: PROCESS_SIZE_def)
  have l: "buffer_layout cap = \<lparr>l_size = n, l_align = 8\<rparr>" by (simp only: buffer_layout_def n_def)
  show "ll_accepts (buffer_layout cap)"
    unfolding l using assms(2) p u pos
    by (simp add: ll_accepts_def valid_layout_iff align_to_def from_size_align_def NODE_ALIGN_def)
  show "adj_align (buffer_layout cap) = 8" by (simp add: adj_align_def l)
  then show "adj_size (buffer_layout cap) = PROCESS_SIZE * cap"
    using assms(1) u unfolding adj_size_def by (simp add: l round_up_def PROCESS_SIZE_def)
qed

interpretation ll_stacks: stack_allocator ll_alloc ll_dealloc ll_accepts ll_touches ll_inv
proof
  show "ll_accepts stack_layout" by (rule stack_layout_ok)
  show "ll_accepts (buffer_layout cap)" if "0 < cap" "PROCESS_SIZE * cap \<le> 2 ^ 63 - 8" for cap
    using that by (rule buffer_layout_ok)
  show "8 dvd unat p" if "ll_inv lo hi s live" "ll_alloc s stack_layout = Inr (s', p)" for lo hi s live s' p
  proof (cases "p = 0")
    case False
    have "ll_inv lo hi s' ((p, stack_layout) # live)" by (rule ll.alloc_block_inv [OF that(1) stack_layout_ok(1) that(2) False])
    then show ?thesis by (auto simp: ll_inv_def ll_wf_def ll_live_def stack_layout_ok)
  qed simp
  show "hi < 2 ^ 64" if "ll_inv lo hi s live" for lo hi s live
    using that by (auto simp: ll_inv_def ll_wf_def)
qed

text \<open>The block allocator passes a stack on to its fallback heap, which is larger than any block.\<close>

lemma stack_layout_index: "list_index stack_layout = None"
  by (simp add: list_index_def stack_layout_def STACK_SIZE_def BLOCK_SIZES_def Let_def)

interpretation fsb_stacks: stack_allocator "fsb_alloc (non_null ll_alloc)" "fsb_dealloc ll_dealloc" ll_accepts
  "fsb_touches ll_touches" "fsb_inv ll_accepts ll_inv"
proof
  show "ll_accepts stack_layout" by (rule stack_layout_ok)
  show "ll_accepts (buffer_layout cap)" if "0 < cap" "PROCESS_SIZE * cap \<le> 2 ^ 63 - 8" for cap
    using that by (rule buffer_layout_ok)
  show "8 dvd unat p" if inv: "fsb_inv ll_accepts ll_inv lo hi s live"
    and a: "fsb_alloc (non_null ll_alloc) s stack_layout = Inr (s', p)" for lo hi s live s' p
  proof -
    obtain flive where f: "ll_inv lo hi (fallback_allocator (inner s)) flive" "\<not> held s" using inv by (auto simp: fsb_inv_def)
    obtain f' q where q: "ll_alloc (fallback_allocator (inner s)) stack_layout = Inr (f', q)"
      using ll.alloc_returns [OF f(1) stack_layout_ok(1)] by blast
    have "p = q" using a f(2) q
      by (auto simp: fsb_alloc_def locked_lock_def mutex_lock_def stack_layout_index fallback_alloc_def non_null_def)
    then show ?thesis using ll_stacks.stack_aligned [OF f(1) q] by simp
  qed
  show "hi < 2 ^ 64" if "fsb_inv ll_accepts ll_inv lo hi s live" for lo hi s live
    using that ll_stacks.heap_bound by (auto simp: fsb_inv_def)
qed

text \<open>An allocation from the front of a single aligned free region of the linked list allocator.\<close>

lemma ll_alloc_front:
  assumes m: "\<not> held m" "free_list (inner m) [(a, sz)]" and a: "8 dvd unat a" "0 < unat a" "unat a + unat sz < 2 ^ 63"
    and l: "ll_accepts l" "adj_size l = n" "adj_align l = 8" and n: "n + 16 \<le> unat sz"
  shows "\<exists>m'. ll_alloc m l = Inr (m', a) \<and> \<not> held m' \<and> free_list (inner m') [(a + of_nat n, sz - of_nat n)]"
proof -
  have ok: "list_all (region_ok (unat a) (unat a + unat sz)) [(a, sz)]"
    using a n by (simp add: region_ok_def within_def region_extent_def)
  have st: "fit_start 8 (a, sz) = unat a" using a(1) by (simp add: fit_start_def round_up_id)
  have "of_nat (unat a + n) = a + of_nat n" "of_nat (unat a + unat sz - (unat a + n)) = sz - of_nat n"
    using n by (simp_all add: of_nat_diff)
  then have sa: "spec_alloc n 8 [(a, sz)] = Some ([(a + of_nat n, sz - of_nat n)], unat a)"
    using n st by (simp add: spec_alloc_def suitable_def fit_excess_def Let_def)
  have "\<exists>m' p. ll_alloc m l = Inr (m', p) \<and> unat p = unat a \<and> \<not> held m' \<and>
      free_list (inner m') [(a + of_nat n, sz - of_nat n)]"
    using ll_alloc_refines_aux [of m "[(a, sz)]" "unat a" "unat a + unat sz", OF m _ ok a(3) l(1)] by (simp add: l(2,3) sa)
  then show ?thesis by (auto simp: word_unat_eq_iff [symmetric])
qed

lemma ll_buffer_ok: "ll_accepts (buffer_layout 4)" "adj_size (buffer_layout 4) = 416" "adj_align (buffer_layout 4) = 8"
  using buffer_layout_ok [of 4] by (simp_all add: PROCESS_SIZE_def)

text \<open>The heap of the kernel under the linked list allocator, as start-up finds it.\<close>

lemma ll_heap_ready:
  obtains h where "ll_init (ll_new store) HEAP_START HEAP_SIZE = Inr h" "free_list h [(HEAP_START, HEAP_SIZE)]"
    "ll_inv (unat HEAP_START) (unat HEAP_START + unat HEAP_SIZE) (locked_new h) []"
proof -
  have h: "8 dvd unat HEAP_START" "16 \<le> unat HEAP_SIZE" "0 < unat HEAP_START" "unat HEAP_START + unat HEAP_SIZE < 2 ^ 63"
    by (simp_all add: HEAP_START_def HEAP_SIZE_def)
  obtain h' where i: "ll_init (ll_new store) HEAP_START HEAP_SIZE = Inr h'"
      "ll_inv (unat HEAP_START) (unat HEAP_START + unat HEAP_SIZE) (locked_new h') []"
    using ll_inv_init [OF h, of store] by blast
  moreover have "free_list h' [(HEAP_START, HEAP_SIZE)]"
    using add_free_region_eq [of HEAP_START HEAP_SIZE "ll_new store"] i(1)
    by (auto simp: ll_init_def free_list_def ll_new_def list_node_new_def HEAP_START_def HEAP_SIZE_def)
  ultimately show thesis by (intro that)
qed

text \<open>
  What start-up asks of the heap: the buffer of the table with its first entry, then three stacks. On the linked list allocator
  they lie one behind the other from the start of the heap.
\<close>

definition boot_heap ::
  "('s \<Rightarrow> layout \<Rightarrow> ('s \<times> usize) result) \<Rightarrow> 's \<Rightarrow> usize \<Rightarrow> usize \<Rightarrow> usize \<Rightarrow> bool" where
  "boot_heap alloc heap b1 b2 b3 =
     (case alloc heap (buffer_layout 4) of Inl _ \<Rightarrow> False | Inr (h0, q) \<Rightarrow> q \<noteq> 0 \<and>
     (case alloc h0 stack_layout of Inl _ \<Rightarrow> False | Inr (h1, p1) \<Rightarrow> p1 = b1 \<and> p1 \<noteq> 0 \<and> spawnable p1 \<and>
     (case alloc h1 stack_layout of Inl _ \<Rightarrow> False | Inr (h2, p2) \<Rightarrow> p2 = b2 \<and> p2 \<noteq> 0 \<and> spawnable p2 \<and>
     (case alloc h2 stack_layout of Inl _ \<Rightarrow> False | Inr (h3, p3) \<Rightarrow> p3 = b3 \<and> p3 \<noteq> 0 \<and> spawnable p3))))"

lemma boot_heap_linked_list:
  assumes "ll_init (ll_new store) HEAP_START HEAP_SIZE = Inr h" and "\<not> held m" and "inner m = h"
  shows "boot_heap ll_alloc m (HEAP_START + 0x1A0) (HEAP_START + 0x41A0) (HEAP_START + 0x81A0)"
proof -
  have f: "free_list (inner m) [(HEAP_START, HEAP_SIZE)]" using assms(1,3) by (auto intro: ll_heap_ready [of store])
  note front = ll_alloc_front and num = HEAP_START_def HEAP_SIZE_def
  obtain m0 where m0: "ll_alloc m (buffer_layout 4) = Inr (m0, HEAP_START)" "\<not> held m0"
      "free_list (inner m0) [(HEAP_START + 0x1A0, HEAP_SIZE - 0x1A0)]"
    using front [OF assms(2) f _ _ _ ll_buffer_ok] by (auto simp: num)
  obtain m1 where m1: "ll_alloc m0 stack_layout = Inr (m1, HEAP_START + 0x1A0)" "\<not> held m1"
      "free_list (inner m1) [(HEAP_START + 0x41A0, HEAP_SIZE - 0x41A0)]"
    using front [OF m0(2,3) _ _ _ stack_layout_ok] by (auto simp: num)
  obtain m2 where m2: "ll_alloc m1 stack_layout = Inr (m2, HEAP_START + 0x41A0)" "\<not> held m2"
      "free_list (inner m2) [(HEAP_START + 0x81A0, HEAP_SIZE - 0x81A0)]"
    using front [OF m1(2,3) _ _ _ stack_layout_ok] by (auto simp: num)
  obtain m3 where "ll_alloc m2 stack_layout = Inr (m3, HEAP_START + 0x81A0)"
    using front [OF m2(2,3) _ _ _ stack_layout_ok] by (auto simp: num)
  then show ?thesis
    using m0(1) m1(1) m2(1) by (simp add: boot_heap_def spawnable_def num STACK_SIZE_def)
qed

section \<open>The three workloads\<close>

text \<open>The table after start-up.\<close>

definition workload_table :: "process \<Rightarrow> process \<Rightarrow> process \<Rightarrow> scheduler" where
  "workload_table p1 p2 p3 =
     (let s = spawn_root \<lparr>processes = [], current_index = 0\<rparr> in s\<lparr>processes := processes s @ [p1, p2, p3]\<rparr>)"

lemma push_reserve_first:
  assumes "alloc heap (buffer_layout 4) = Inr (h0, q)" and "q \<noteq> 0"
  shows "push_reserve alloc dealloc 0 (heap, buffer_new) = Inr (h0, \<lparr>buf_ptr = q, buf_cap = 4\<rparr>)"
  using assms by (simp add: push_reserve_def buffer_new_def grown_cap_def PROCESS_SIZE_def require_def)

lemma boot_spawns:
  assumes k: "\<not> held (SCHEDULER k)" and h: "boot_heap alloc heap b1 b2 b3"
    and sts: "sts = [st0, (b1, STACK_SIZE), (b2, STACK_SIZE), (b3, STACK_SIZE)]" "stacks_ok sts"
    and c: "room depth st0 (regs c RSP)"
    and snap: "snap = (\<lambda>_. [])(1 := initial_frame alpha (b1 + of_nat STACK_SIZE), 2 := initial_frame beta (b2 + of_nat STACK_SIZE),
      3 := initial_frame omega (b3 + of_nat STACK_SIZE))"
  shows "\<exists>heap' buf m' p1 p2 p3. spawn_all alloc dealloc [alpha, beta, omega]
        (heap, buffer_new, 1, \<lparr>processes = [], current_index = 0\<rparr>, mem c) = Inr (heap', buf, 4, workload_table p1 p2 p3, m') \<and>
    map proc_id [p1, p2, p3] = [1, 2, 3] \<and>
    runs abi notify io depth (locked_table k (workload_table p1 p2 p3) 4) pl (c\<lparr>mem := m'\<rparr>) snap sts"
proof -
  let ?s0 = "spawn_root \<lparr>processes = [], current_index = 0\<rparr>" and ?R = "runs abi notify io depth"
  have len: "length (processes ?s0) = 1" by (simp add: spawn_root_def)
  obtain h0 q h1 h2 h3 where b: "alloc heap (buffer_layout 4) = Inr (h0, q)" "q \<noteq> 0" "alloc h0 stack_layout = Inr (h1, b1)"
      "alloc h1 stack_layout = Inr (h2, b2)" "alloc h2 stack_layout = Inr (h3, b3)"
    and nz: "b1 \<noteq> 0" "spawnable b1" "b2 \<noteq> 0" "spawnable b2" "b3 \<noteq> 0" "spawnable b3"
    using h by (auto simp: boot_heap_def split: sum.splits prod.splits)
  let ?buf = "\<lparr>buf_ptr = q, buf_cap = 4\<rparr>"
  have pr: "push_reserve alloc dealloc n (x, ?buf) = Inr (x, ?buf)" if "n < 4" for n x
    using that by (simp add: push_reserve_def)
  have ok: "stacks_ok ([st0] @ [(b1, STACK_SIZE)])" "stacks_ok (([st0] @ [(b1, STACK_SIZE)]) @ [(b2, STACK_SIZE)])"
    "stacks_ok ((([st0] @ [(b1, STACK_SIZE)]) @ [(b2, STACK_SIZE)]) @ [(b3, STACK_SIZE)])" "stack_wf st0"
    using sts stacks_ok_append [of "[st0, (b1, STACK_SIZE)]" "[(b2, STACK_SIZE), (b3, STACK_SIZE)]"]
      stacks_ok_append [of "[st0, (b1, STACK_SIZE), (b2, STACK_SIZE)]" "[(b3, STACK_SIZE)]"]
    by (simp_all add: stacks_ok_def)
  have r0: "?R (locked_table k ?s0 1) pl c (\<lambda>_. []) [st0]"
    unfolding locked_table_def using ok(4) c k by (intro runs.lock runs.boot) simp_all
  let ?tab = "\<lambda>ps. ?s0\<lparr>processes := processes ?s0 @ ps\<rparr>"
  obtain p1 m1 where s1: "spawn_heap alloc dealloc alpha (h0, ?buf, 1, ?s0, mem c) = Inr (h1, ?buf, 2, ?tab [p1], m1)" "proc_id p1 = 1"
    and r1: "?R (locked_table k (?tab [p1]) 2) pl (c\<lparr>mem := m1\<rparr>)
      ((\<lambda>_. [])(length [st0] := initial_frame alpha (b1 + of_nat STACK_SIZE))) ([st0] @ [(b1, STACK_SIZE)])"
    using spawn_heap_runs [OF b(3) nz(1,2) pr r0 ok(1), of alpha] len by auto
  obtain p2 m2 where s2: "spawn_heap alloc dealloc beta (h1, ?buf, 2, ?tab [p1], m1) = Inr (h2, ?buf, 3, ?tab [p1, p2], m2)" "proc_id p2 = 2"
    and r2: "?R (locked_table k (?tab [p1, p2]) 3) pl (c\<lparr>mem := m2\<rparr>)
      ((\<lambda>_. [])(1 := initial_frame alpha (b1 + of_nat STACK_SIZE), 2 := initial_frame beta (b2 + of_nat STACK_SIZE)))
      (([st0] @ [(b1, STACK_SIZE)]) @ [(b2, STACK_SIZE)])"
    using spawn_heap_runs [OF b(4) nz(3,4) pr r1 ok(2), of beta] len by (auto simp: numeral_2_eq_2)
  obtain p3 m3 where s3: "spawn_heap alloc dealloc omega (h2, ?buf, 3, ?tab [p1, p2], m2) = Inr (h3, ?buf, 4, ?tab [p1, p2, p3], m3)" "proc_id p3 = 3"
    and r3: "?R (locked_table k (?tab [p1, p2, p3]) 4) pl (c\<lparr>mem := m3\<rparr>) snap sts"
    using spawn_heap_runs [OF b(5) nz(5,6) pr r2 ok(3), of omega] len
    by (auto simp: snap sts(1) numeral_3_eq_3 numeral_2_eq_2)
  have "spawn_all alloc dealloc [alpha, beta, omega] (heap, buffer_new, 1, \<lparr>processes = [], current_index = 0\<rparr>, mem c) =
      Inr (h3, ?buf, 4, ?tab [p1, p2, p3], m3)"
    using push_reserve_first [of alloc heap h0 q dealloc] b(1,2) s1(1) s2(1) s3(1) by (simp add: spawn_all_def spawn_root_heap_def)
  then show ?thesis using r3 s1(2) s2(2) s3(2) by (auto simp: workload_table_def Let_def)
qed

section \<open>Properties\<close>

text \<open>
  C8 (spawning_safe): creating any number of processes over any heap that keeps the allocator contract and
  aligns stacks either panics for lack of memory or gives process \<open>i\<close> the identifier \<open>i\<close> and a stack of its own: stacks,
  table buffer and the blocks others hold lie in the heap and do not overlap, the buffer is
  large enough, and the system can be preempted from then on, every new process waiting at its entry point.
\<close>

theorem spawning_safe:
  assumes "stack_allocator alloc dealloc accepts touches I" and "I lo hi heap rest"
    and "stack_wf st0" and "apart (stack_extent st0) (lo, hi - lo)" and "room depth st0 (regs c RSP)" and "\<not> held (SCHEDULER k)"
    and "r = spawn_all alloc dealloc entries (heap, buffer_new, 1, \<lparr>processes = [], current_index = 0\<rparr>, mem c)"
  shows "out_of_memory r \<or>
    (\<exists>heap' buf bs s m' snap live. r = Inr (heap', buf, of_nat (Suc (length entries)), s, m') \<and>
      map proc_id (processes s) = map of_nat [0..<Suc (length entries)] \<and>
      map proc_stack (tl (processes s)) = heap_stacks bs \<and> length (processes s) \<le> buf_cap buf \<and>
      I lo hi heap' live \<and> mset live = mset (table_blocks buf @ stack_blocks bs @ rest) \<and> live_ok lo hi live \<and>
      map snap [1..<Suc (length entries)] = starts_at entries bs \<and>
      runs abi notify io depth (locked_table k s (of_nat (Suc (length entries)))) pl (c\<lparr>mem := m'\<rparr>) snap (st0 # heap_stacks bs))"
proof -
  have live: "I lo hi h live \<Longrightarrow> live_ok lo hi live" for h live
    using assms(1) by (auto simp: stack_allocator_def dest: global_allocator.inv_live_ok)
  from stack_allocator.spawn_all_safe [OF assms(1-6), of entries abi notify io pl] show ?thesis
    unfolding assms(7) [symmetric] table_ready_def prod.case
  proof (elim disjE exE conjE)
    assume "out_of_memory r"
    then show ?thesis by (rule disjI1)
  qed (intro disjI2 exI conjI; (assumption | erule live))
qed

theorem spawning_safe_witness:
  "\<exists>h heap' buf s m'. ll_init (ll_new Map.empty) HEAP_START HEAP_SIZE = Inr h \<and>
     spawn_all ll_alloc ll_dealloc [0x2000, 0x3000, 0x4000]
       (locked_new h, buffer_new, 1, \<lparr>processes = [], current_index = 0\<rparr>, mem example_cpu) = Inr (heap', buf, 4, s, m') \<and>
     map proc_id (processes s) = [0, 1, 2, 3] \<and> 4 \<le> buf_cap buf"
proof -
  obtain h where h: "ll_init (ll_new Map.empty) HEAP_START HEAP_SIZE = Inr h"
    "ll_inv (unat HEAP_START) (unat HEAP_START + unat HEAP_SIZE) (locked_new h) []"
    by (rule ll_heap_ready)
  let ?st0 = "(0x80000, 0x10000) :: stack"
  let ?r = "spawn_all ll_alloc ll_dealloc [0x2000, 0x3000, 0x4000]
    (locked_new h, buffer_new, 1, \<lparr>processes = [], current_index = 0\<rparr>, mem example_cpu)"
  have sa: "stack_allocator ll_alloc ll_dealloc ll_accepts ll_touches ll_inv" by unfold_locales
  have st0: "stack_wf ?st0" "apart (stack_extent ?st0) (unat HEAP_START, unat HEAP_START + unat HEAP_SIZE - unat HEAP_START)"
    "room 1000 ?st0 (regs example_cpu RSP)" "\<not> held (SCHEDULER kernel_statics)"
    by (simp_all add: stack_wf_def apart_def stack_extent_def HEAP_START_def room_def example_cpu_def kernel_statics_def)
  have bh: "boot_heap ll_alloc (locked_new h) (HEAP_START + 0x1A0) (HEAP_START + 0x41A0) (HEAP_START + 0x81A0)"
    using boot_heap_linked_list [OF h(1)] by (simp add: locked_new_def)
  have so: "stacks_ok [?st0, (HEAP_START + 0x1A0, STACK_SIZE), (HEAP_START + 0x41A0, STACK_SIZE), (HEAP_START + 0x81A0, STACK_SIZE)]"
    by (simp add: stacks_ok_def stack_wf_def stack_extent_def apart_def HEAP_START_def STACK_SIZE_def)
  have "\<not> out_of_memory ?r"
    using boot_spawns [OF st0(4) bh refl so st0(3) refl, where dealloc = ll_dealloc and alpha = "0x2000" and beta = "0x3000"
        and omega = "0x4000" and abi = example_abi and notify = "(#)" and io = example_ports and pl = example_platform]
    by (elim exE conjE) (simp add: out_of_memory_def)
  with spawning_safe [OF sa h(2) st0 refl, of "[0x2000, 0x3000, 0x4000]" example_abi "(#)" example_ports example_platform]
  obtain heap' buf s m' where r: "?r = Inr (heap', buf, of_nat (Suc (length [0x2000, 0x3000, 0x4000 :: u64])), s, m')"
    "map proc_id (processes s) = map of_nat [0..<Suc (length [0x2000, 0x3000, 0x4000 :: u64])]" "length (processes s) \<le> buf_cap buf"
    by (elim disjE exE conjE) (erule notE, assumption, rule that)
  have "length (processes s) = 4" using arg_cong [OF r(2), of length] by simp
  with r(3) have "4 \<le> buf_cap buf" by simp
  moreover have "map proc_id (processes s) = [0, 1, 2, 3]" unfolding r(2) by (simp add: upt_rec)
  ultimately show ?thesis using h(1) r(1) by (intro exI conjI) simp_all
qed

end
