(* ===== verification/Networking.thy ===== *)
theory Networking
  imports Interrupts
begin

text \<open>
  The network card (\<^verbatim>\<open>networking/mod.rs\<close> and \<^verbatim>\<open>networking/rtl8139.rs\<close> of the networking kernel, and
  \<^verbatim>\<open>check_network_card\<close> of the other kernel's \<^verbatim>\<open>main.rs\<close>): the PCI scan, the start-up of the RTL8139 and
  the transmission of a packet. The devices behind the ports are an argument. The two polling
  loops may wait forever on a dead device: \<open>poll\<close> is then undefined, which the callers turn into the
  fault \<open>Diverges\<close>, and the theorems say exactly when they return.
\<close>

section \<open>Ports\<close>

definition write8 :: "'d ports \<Rightarrow> u16 \<Rightarrow> u8 \<Rightarrow> ('p, 'd) platform \<Rightarrow> ('p, 'd) platform" where
  "write8 io port v pl = pl\<lparr>devices := out8 io port v (devices pl)\<rparr>"

definition write16 :: "'d ports \<Rightarrow> u16 \<Rightarrow> u16 \<Rightarrow> ('p, 'd) platform \<Rightarrow> ('p, 'd) platform" where
  "write16 io port v pl = pl\<lparr>devices := out16 io port v (devices pl)\<rparr>"

definition write32 :: "'d ports \<Rightarrow> u16 \<Rightarrow> u32 \<Rightarrow> ('p, 'd) platform \<Rightarrow> ('p, 'd) platform" where
  "write32 io port v pl = pl\<lparr>devices := out32 io port v (devices pl)\<rparr>"

definition read32 :: "'d ports \<Rightarrow> u16 \<Rightarrow> ('p, 'd) platform \<Rightarrow> u32 \<times> ('p, 'd) platform" where
  "read32 io port pl = (let (v, d) = in32 io port (devices pl) in (v, pl\<lparr>devices := d\<rparr>))"

text \<open>\<^verbatim>\<open>while !done(port.read()) { spin_loop() }\<close>.\<close>

partial_function (option) poll :: "('d \<Rightarrow> 'v \<times> 'd) \<Rightarrow> ('v \<Rightarrow> bool) \<Rightarrow> 'd \<Rightarrow> 'd option" where
  "poll rd fin d = (if fin (fst (rd d)) then Some (snd (rd d)) else poll rd fin (snd (rd d)))"

definition wait_until :: "('d \<Rightarrow> 'v \<times> 'd) \<Rightarrow> ('v \<Rightarrow> bool) \<Rightarrow> ('p, 'd) platform \<Rightarrow> ('p, 'd) platform result" where
  "wait_until rd fin pl =
     (case poll rd fin (devices pl) of None \<Rightarrow> Inl Diverges | Some d \<Rightarrow> Inr (pl\<lparr>devices := d\<rparr>))"

section \<open>The driver\<close>

definition RX_BUFFER_SIZE :: nat where
  "RX_BUFFER_SIZE = 8192 + 16"

record Rtl8139Driver =
  io_base :: u16
  rx_buffer :: "u8 list"
  tx_index :: u8

definition rtl_new :: "u16 \<Rightarrow> Rtl8139Driver" where
  "rtl_new base = \<lparr>io_base = base, rx_buffer = replicate RX_BUFFER_SIZE 0, tx_index = 0\<rparr>"

definition send_packet ::
  "'d ports \<Rightarrow> u32 \<Rightarrow> u32 \<Rightarrow> Rtl8139Driver \<times> ('p, 'd) platform \<Rightarrow> (Rtl8139Driver \<times> ('p, 'd) platform) result" where
  "send_packet io phys_addr len = (\<lambda>(drv, pl).
     let tsad_offset = 0x20 + ucast (tx_index drv) * 4;
         tsd_offset = 0x10 + ucast (tx_index drv) * 4 in
     and_then (add_chk (io_base drv) tsad_offset) (\<lambda>port_tsad.
     and_then (add_chk (io_base drv) tsd_offset) (\<lambda>port_tsd.
     let pl = write32 io port_tsad phys_addr pl;
         pl = write32 io port_tsd (len AND 0x1FFF) pl in
     and_then (wait_until (in32 io port_tsd) (\<lambda>v. v AND push_bit 13 1 \<noteq> 0) pl) (\<lambda>pl.
     and_then (add_chk (tx_index drv) 1) (\<lambda>t.
     let drv = drv\<lparr>tx_index := t mod 4\<rparr> in
     and_then (println [bytes_of ''RTL8139: Real packet data successfully pushed over DMA!''] pl) (\<lambda>pl.
     Inr (drv, pl)))))))"

text \<open>\<open>rx_addr\<close> is the address of the driver's receive buffer while \<^verbatim>\<open>init\<close> runs.\<close>

definition rtl_init :: "'d ports \<Rightarrow> u64 \<Rightarrow> Rtl8139Driver \<Rightarrow> ('p, 'd) platform \<Rightarrow> ('p, 'd) platform result" where
  "rtl_init io rx_addr drv pl =
     and_then (add_chk (io_base drv) 0x37) (\<lambda>port_cr.
     and_then (add_chk (io_base drv) 0x30) (\<lambda>port_rbstart.
     and_then (add_chk (io_base drv) 0x3C) (\<lambda>port_imr.
     and_then (add_chk (io_base drv) 0x3E) (\<lambda>port_isr.
     and_then (add_chk (io_base drv) 0x44) (\<lambda>port_rcr.
     and_then (println [bytes_of ''RTL8139: Starting hardware initialization...''] pl) (\<lambda>pl.
     let pl = write8 io port_cr 0x10 pl in
     and_then (wait_until (in8 io port_cr) (\<lambda>v. \<not> (v AND 0x10 \<noteq> 0)) pl) (\<lambda>pl.
     and_then (println [bytes_of ''RTL8139: Reset complete.''] pl) (\<lambda>pl.
     let rx_buffer_phys_addr = ucast rx_addr;
         pl = write32 io port_rbstart rx_buffer_phys_addr pl;
         rcr_config = push_bit 7 1 OR push_bit 3 1 OR push_bit 2 1 OR push_bit 1 1 OR push_bit 0 1;
         pl = write32 io port_rcr rcr_config pl;
         pl = write16 io port_isr 0xFFFF pl;
         pl = write16 io port_imr 0x0005 pl;
         pl = write8 io port_cr 0x0C pl in
     println [bytes_of ''RTL8139: Driver successfully initialized and listening for packets.''] pl))))))))"

section \<open>The PCI bus\<close>

definition config_address :: "u32 \<Rightarrow> u32 \<Rightarrow> u32 \<Rightarrow> u32 \<Rightarrow> u32" where
  "config_address bus slot func offset =
     push_bit 31 1 OR push_bit 16 bus OR push_bit 11 slot OR push_bit 8 func OR offset"

text \<open>The static \<^verbatim>\<open>RTL8139\<close> beside the platform, and upper-case hexadecimal output (\<^verbatim>\<open>{:#X}\<close>).\<close>

type_synonym ('p, 'd) net_state = "Rtl8139Driver option mutex \<times> ('p, 'd) platform"

definition hex_digit :: "nat \<Rightarrow> u8" where
  "hex_digit n = (if n < 10 then 48 + of_nat n else 55 + of_nat n)"

fun hex_digits :: "nat \<Rightarrow> u8 list" where
  "hex_digits n = (if n < 16 then [hex_digit n] else hex_digits (n div 16) @ [hex_digit (n mod 16)])"

declare hex_digits.simps [simp del]

definition hex :: "nat \<Rightarrow> u8 list" where
  "hex n = bytes_of ''0x'' @ hex_digits n"

definition init_device ::
  "'d ports \<Rightarrow> u64 \<Rightarrow> u32 \<Rightarrow> u32 \<Rightarrow> u32 \<Rightarrow> ('p, 'd) net_state \<Rightarrow> ('p, 'd) net_state result" where
  "init_device io rx_addr bus slot func = (\<lambda>(RTL8139, pl).
     let cmd_address = config_address bus slot func 0x04;
         pl = write32 io 0xCF8 cmd_address pl;
         (cmd_status, pl) = read32 io 0xCFC pl;
         command = (ucast (cmd_status AND 0xFFFF) :: u16) OR push_bit 2 1 OR push_bit 0 1;
         pl = write32 io 0xCFC ((cmd_status AND 0xFFFF0000) OR ucast command) pl;
         bar0_address = config_address bus slot func 0x10;
         pl = write32 io 0xCF8 bar0_address pl;
         (bar0, pl) = read32 io 0xCFC pl in
     if bar0 AND 1 = 1 then
       let base = ucast (bar0 AND NOT 0x3) in
       and_then (println [bytes_of ''-> RTL8139 IO Base Address: '', hex (unat base)] pl) (\<lambda>pl.
       let drv = rtl_new base in
       and_then (rtl_init io rx_addr drv pl) (\<lambda>pl.
       and_then (mutex_lock RTL8139) (\<lambda>_.
       let RTL8139 = RTL8139\<lparr>inner := Some drv\<rparr> in
       and_then (println [bytes_of ''-> RTL8139 Driver initialized successfully!''] pl) (\<lambda>pl.
       Inr (RTL8139, pl)))))
     else
       and_then (println [bytes_of ''-> Error: RTL8139 is using Memory Mapping, expected I/O Mapping.''] pl) (\<lambda>pl.
       Inr (RTL8139, pl)))"

definition at_slot :: "string \<Rightarrow> u32 \<Rightarrow> u32 \<Rightarrow> u8 list list" where
  "at_slot name bus slot = [bytes_of ''Success: Found '', bytes_of name, bytes_of '' Network Card at Bus '',
     decimal (unat bus), bytes_of '', Slot '', decimal (unat slot)]"

text \<open>The scan of the networking kernel: it starts the driver of an RTL8139 it finds.\<close>

definition net_check_slot ::
  "'d ports \<Rightarrow> u64 \<Rightarrow> u32 \<Rightarrow> u32 \<Rightarrow> ('p, 'd) net_state \<Rightarrow> ('p, 'd) net_state result" where
  "net_check_slot io rx_addr bus slot = (\<lambda>(RTL8139, pl).
     let func = 0;
         address = push_bit 31 1 OR push_bit 16 bus OR push_bit 11 slot OR 0x00;
         pl = write32 io 0xCF8 address pl;
         (id_data, pl) = read32 io 0xCFC pl;
         vendor_id = ucast (id_data AND 0xFFFF) :: u16;
         device_id = ucast (drop_bit 16 id_data) :: u16 in
     if vendor_id \<noteq> 0xFFFF then
       if vendor_id = 0x10EC \<and> device_id = 0x8139 then
         and_then (println (at_slot ''Realtek RTL8139'' bus slot) pl) (\<lambda>pl.
         init_device io rx_addr bus slot func (RTL8139, pl))
       else if vendor_id = 0x8086 \<and> (device_id = 0x100E \<or> device_id = 0x100F) then
         and_then (println (at_slot ''Intel e1000'' bus slot) pl) (\<lambda>pl. Inr (RTL8139, pl))
       else Inr (RTL8139, pl)
     else Inr (RTL8139, pl))"

definition net_check_network_card :: "'d ports \<Rightarrow> u64 \<Rightarrow> ('p, 'd) net_state \<Rightarrow> ('p, 'd) net_state result" where
  "net_check_network_card io rx_addr = (\<lambda>(RTL8139, pl).
     and_then (println [bytes_of ''Scanning PCI buses for Network Cards...''] pl) (\<lambda>pl.
     for_loop [0..<255] (\<lambda>bus. for_loop [0..<32] (\<lambda>slot. net_check_slot io rx_addr (of_nat bus) (of_nat slot)))
       (RTL8139, pl)))"

text \<open>The scan of the other kernel only reports.\<close>

definition check_slot :: "'d ports \<Rightarrow> u32 \<Rightarrow> u32 \<Rightarrow> ('p, 'd) platform \<Rightarrow> ('p, 'd) platform result" where
  "check_slot io bus slot pl =
     (let address = push_bit 31 1 OR push_bit 16 bus OR push_bit 11 slot OR 0x00;
          pl = write32 io 0xCF8 address pl;
          (id_data, pl) = read32 io 0xCFC pl;
          vendor_id = ucast (id_data AND 0xFFFF) :: u16;
          device_id = ucast (drop_bit 16 id_data) :: u16 in
      if vendor_id \<noteq> 0xFFFF then
        if vendor_id = 0x10EC \<and> device_id = 0x8139 then println (at_slot ''Realtek RTL8139'' bus slot) pl
        else if vendor_id = 0x8086 \<and> (device_id = 0x100E \<or> device_id = 0x100F) then
          println (at_slot ''Intel e1000'' bus slot) pl
        else Inr pl
      else Inr pl)"

definition check_network_card :: "'d ports \<Rightarrow> ('p, 'd) platform \<Rightarrow> ('p, 'd) platform result" where
  "check_network_card io pl =
     and_then (println [bytes_of ''Scanning PCI buses for Network Cards...''] pl) (\<lambda>pl.
     for_loop [0..<255] (\<lambda>bus. for_loop [0..<32] (\<lambda>slot. check_slot io (of_nat bus) (of_nat slot))) pl)"

section \<open>Polling\<close>

text \<open>The state in which the \<open>n\<close>-th read happens.\<close>

definition nth_state :: "('d \<Rightarrow> 'v \<times> 'd) \<Rightarrow> nat \<Rightarrow> 'd \<Rightarrow> 'd" where
  "nth_state rd n d = ((snd \<circ> rd) ^^ n) d"

lemma nth_state_Suc: "nth_state rd (Suc n) d = nth_state rd n (snd (rd d))"
  by (simp add: nth_state_def funpow_swap1)

lemma nth_state_0 [simp]: "nth_state rd 0 d = d"
  by (simp add: nth_state_def)

lemma poll_returns:
  "fin (fst (rd (nth_state rd n d))) \<Longrightarrow> (\<And>i. i < n \<Longrightarrow> \<not> fin (fst (rd (nth_state rd i d)))) \<Longrightarrow>
   poll rd fin d = Some (nth_state rd (Suc n) d)"
proof (induction n arbitrary: d)
  case 0
  then show ?case by (simp add: poll.simps [of rd fin d] nth_state_Suc)
next
  case (Suc n)
  have "\<not> fin (fst (rd d))" using Suc.prems(2) [of 0] by simp
  moreover have "poll rd fin (snd (rd d)) = Some (nth_state rd (Suc n) (snd (rd d)))"
  proof (rule Suc.IH)
    show "\<not> fin (fst (rd (nth_state rd i (snd (rd d)))))" if "i < n" for i
      using Suc.prems(2) [of "Suc i"] that by (simp add: nth_state_Suc)
  qed (use Suc.prems(1) in \<open>simp add: nth_state_Suc\<close>)
  ultimately show ?case by (simp add: poll.simps [of rd fin d] nth_state_Suc)
qed

lemma poll_only_if:
  assumes "poll rd fin d = Some d'"
  shows "\<exists>n. fin (fst (rd (nth_state rd n d)))"
proof (rule poll.raw_induct [OF _ assms])
  fix p :: "('d \<Rightarrow> 'v \<times> 'd) \<Rightarrow> ('v \<Rightarrow> bool) \<Rightarrow> 'd \<Rightarrow> 'd option" and rd :: "'d \<Rightarrow> 'v \<times> 'd" and fin d d'
  assume ih: "\<And>rd fin d d'. p rd fin d = Some d' \<Longrightarrow> \<exists>n. fin (fst (rd (nth_state rd n d)))"
    and eq: "(if fin (fst (rd d)) then Some (snd (rd d)) else p rd fin (snd (rd d))) = Some d'"
  show "\<exists>n. fin (fst (rd (nth_state rd n d)))"
  proof (cases "fin (fst (rd d))")
    case True
    then show ?thesis by (intro exI [of _ 0]) simp
  next
    case False
    then have "p rd fin (snd (rd d)) = Some d'" using eq by simp
    then obtain n where "fin (fst (rd (nth_state rd n (snd (rd d)))))" using ih by blast
    then show ?thesis by (intro exI [of _ "Suc n"]) (simp add: nth_state_Suc)
  qed
qed

text \<open>The first read that satisfies the condition ends the loop; without one it never ends.\<close>

lemma poll_eq:
  "poll rd fin d =
   (if \<exists>n. fin (fst (rd (nth_state rd n d)))
    then Some (nth_state rd (Suc (LEAST n. fin (fst (rd (nth_state rd n d))))) d) else None)"
proof (cases "\<exists>n. fin (fst (rd (nth_state rd n d)))")
  case True
  then have "poll rd fin d = Some (nth_state rd (Suc (LEAST n. fin (fst (rd (nth_state rd n d))))) d)"
    by (intro poll_returns) (auto intro: LeastI dest: not_less_Least)
  then show ?thesis using True by simp
next
  case False
  then show ?thesis using poll_only_if by (metis not_Some_eq)
qed

section \<open>Properties\<close>

lemma bit_bound: "w < 2 ^ k \<Longrightarrow> k < LENGTH('a) \<Longrightarrow> bit w n \<Longrightarrow> n < k" for w :: "'a::len word"
proof -
  assume "w < 2 ^ k" "k < LENGTH('a)" and b: "bit w n"
  then have "w AND mask k = w" by (intro less_mask_eq)
  with b show "n < k" by (metis bit_and_iff bit_mask_iff)
qed

lemma and_masks:
  "(w::u32) AND 0xFF = take_bit 8 w" "w AND 0x1F = take_bit 5 w" "w AND 7 = take_bit 3 w"
  by (simp_all add: take_bit_eq_mask mask_eq_exp_minus_1)

lemma config_address_fields:
  assumes "bus < 256" and "slot < 32" and "func < 8" and "offset < 256"
  shows "drop_bit 16 (config_address bus slot func offset) AND 0xFF = bus \<and>
    drop_bit 11 (config_address bus slot func offset) AND 0x1F = slot \<and>
    drop_bit 8 (config_address bus slot func offset) AND 7 = func \<and>
    config_address bus slot func offset AND 0xFF = offset \<and> bit (config_address bus slot func offset) 31"
proof -
  have b: "bit bus n \<Longrightarrow> n < 8" "bit slot n \<Longrightarrow> n < 5" "bit func n \<Longrightarrow> n < 3" "bit offset n \<Longrightarrow> n < 8" for n
    using assms bit_bound [of bus 8 n] bit_bound [of slot 5 n] bit_bound [of func 3 n] bit_bound [of offset 8 n]
    by simp_all
  note bits = bit_take_bit_iff bit_drop_bit_eq bit_or_iff bit_push_bit_iff bit_1_iff
  let ?a = "config_address bus slot func offset"
  have "take_bit 8 (drop_bit 16 ?a) = bus"
    by (rule bit_eqI) (auto simp: config_address_def bits dest: b)
  moreover have "take_bit 5 (drop_bit 11 ?a) = slot"
    by (rule bit_eqI) (auto simp: config_address_def bits dest: b)
  moreover have "take_bit 3 (drop_bit 8 ?a) = func"
    by (rule bit_eqI) (auto simp: config_address_def bits dest: b)
  moreover have "take_bit 8 ?a = offset"
    by (rule bit_eqI) (auto simp: config_address_def bits dest: b)
  moreover have "bit ?a 31" by (simp add: config_address_def bits)
  ultimately show ?thesis by (simp only: and_masks)
qed

lemma config_address_bus:
  assumes "config_address bus slot 0 0 = config_address bus' slot' 0 0"
    and "bus < 256" "slot < 32" "bus' < 256" "slot' < 32"
  shows "bus = bus'"
proof -
  have "drop_bit 16 (config_address bus slot 0 0) AND 0xFF = bus"
    using assms(2,3) by (intro config_address_fields [THEN conjunct1]) simp_all
  moreover have "drop_bit 16 (config_address bus' slot' 0 0) AND 0xFF = bus'"
    using assms(4,5) by (intro config_address_fields [THEN conjunct1]) simp_all
  ultimately show ?thesis using assms(1) by metis
qed

text \<open>
  For a bus below 256, a slot below 32, a function below 8 and a register
  offset below 256, every field can be read back from the address sent to the bus, the enable bit is
  set, and no field disturbs another.
\<close>

theorem config_address_decode:
  assumes "bus < 256" and "slot < 32" and "func < 8" and "offset < 256"
  shows "drop_bit 16 (config_address bus slot func offset) AND 0xFF = bus \<and>
    drop_bit 11 (config_address bus slot func offset) AND 0x1F = slot \<and>
    drop_bit 8 (config_address bus slot func offset) AND 7 = func \<and>
    config_address bus slot func offset AND 0xFF = offset \<and> bit (config_address bus slot func offset) 31"
  using assms by (rule config_address_fields)

theorem config_address_decode_witness:
  "drop_bit 16 (config_address 3 17 0 0x10) AND 0xFF = 3 \<and> config_address 3 17 0 0x10 AND 0xFF = 0x10"
  using config_address_decode [of 3 17 0 "0x10"] by simp

lemma wait_until_eq:
  "wait_until rd fin pl =
   (if \<exists>n. fin (fst (rd (nth_state rd n (devices pl))))
    then Inr (pl\<lparr>devices := nth_state rd (Suc (LEAST n. fin (fst (rd (nth_state rd n (devices pl)))))) (devices pl)\<rparr>)
    else Inl Diverges)"
  by (simp add: wait_until_def poll_eq)

text \<open>The console after a printed line.\<close>

definition with_line :: "string \<Rightarrow> ('p, 'd) platform \<Rightarrow> ('p, 'd) platform" where
  "with_line t pl = pl\<lparr>WRITER := (WRITER pl)\<lparr>inner := shown [bytes_of t] (inner (WRITER pl))\<rparr>\<rparr>"

lemma println_line:
  "console_ok (WRITER pl) \<Longrightarrow> println [bytes_of t] pl = Inr (with_line t pl)"
  "console_ok (WRITER pl) \<Longrightarrow> console_ok (WRITER (with_line t pl))"
  "devices (with_line t pl) = devices pl"
  using println_ok [of pl "[bytes_of t]"] by (simp_all add: with_line_def console_ok_def)

lemma add_chk_16: "unat (a::u16) + unat b < 0x10000 \<Longrightarrow> add_chk a b = Inr (a + b)"
  by (simp add: add_chk_def)

lemma send_packet_eq:
  assumes "console_ok (WRITER pl)" and "unat (tx_index drv) = i" "i < 4" and "unat (io_base drv) + 0x2C < 0x10000"
    and "tsad = io_base drv + of_nat (0x20 + 4 * i)" and "tsd = io_base drv + of_nat (0x10 + 4 * i)"
    and "d = out32 io tsd (len AND 0x1FFF) (out32 io tsad phys_addr (devices pl))"
  shows "send_packet io phys_addr len (drv, pl) =
    (if \<exists>n. bit (fst (in32 io tsd (nth_state (in32 io tsd) n d))) 13
     then Inr (drv\<lparr>tx_index := of_nat ((i + 1) mod 4)\<rparr>,
       with_line ''RTL8139: Real packet data successfully pushed over DMA!'' (pl\<lparr>devices := nth_state (in32 io tsd)
         (Suc (LEAST n. bit (fst (in32 io tsd (nth_state (in32 io tsd) n d))) 13)) d\<rparr>))
     else Inl Diverges)"
proof -
  have tx: "tx_index drv = of_nat i" using assms(2) by auto
  have i: "i = 0 \<or> i = 1 \<or> i = 2 \<or> i = 3" using assms(3) by (auto simp: less_Suc_eq numeral_eq_Suc)
  have bit13: "(\<lambda>v::u32. v AND push_bit 13 1 \<noteq> 0) = (\<lambda>v. bit v 13)"
    by (simp only: bit_iff_and_push_bit_not_eq_0)
  have ports: "add_chk (io_base drv) (0x20 + ucast (tx_index drv) * 4) = Inr tsad"
    "add_chk (io_base drv) (0x10 + ucast (tx_index drv) * 4) = Inr tsd"
    using i assms(4) by (auto simp: tx assms(5,6) intro!: add_chk_16)
  have t: "and_then (add_chk (tx_index drv) 1) f = f (of_nat (i + 1))"
    "(of_nat (i + 1) :: u8) mod 4 = of_nat ((i + 1) mod 4)" for f :: "u8 \<Rightarrow> 'x result"
    using i by (auto simp: tx add_chk_def)
  show ?thesis
    using assms(1) unfolding send_packet_def bit13 Let_def prod.case t
    by (simp add: ports wait_until_eq write32_def assms(7) [symmetric] println_line t(2) [simplified])
qed

text \<open>
  C31 (send_packet_effect): sending through descriptor \<open>i\<close> writes the physical address to that
  descriptor's address register, then the length cut to 13 bits to its status register, and waits. It
  returns exactly if the device sometime reports bit 13, after the first read that shows it, and the
  next packet uses descriptor \<open>(i + 1) mod 4\<close>; if the device never reports, it never returns.
\<close>

theorem send_packet_effect:
  assumes "console_ok (WRITER pl)" and "unat (tx_index drv) = i" "i < 4" and "unat (io_base drv) + 0x2C < 0x10000"
    and "tsad = io_base drv + of_nat (0x20 + 4 * i)" and "tsd = io_base drv + of_nat (0x10 + 4 * i)"
    and "d = out32 io tsd (len AND 0x1FFF) (out32 io tsad phys_addr (devices pl))"
  shows "send_packet io phys_addr len (drv, pl) =
    (if \<exists>n. bit (fst (in32 io tsd (nth_state (in32 io tsd) n d))) 13
     then Inr (drv\<lparr>tx_index := of_nat ((i + 1) mod 4)\<rparr>,
       with_line ''RTL8139: Real packet data successfully pushed over DMA!'' (pl\<lparr>devices := nth_state (in32 io tsd)
         (Suc (LEAST n. bit (fst (in32 io tsd (nth_state (in32 io tsd) n d))) 13)) d\<rparr>))
     else Inl Diverges)"
  using assms by (rule send_packet_eq)

text \<open>Sending several packets in a row.\<close>

definition send_all ::
  "'d ports \<Rightarrow> (u32 \<times> u32) list \<Rightarrow> Rtl8139Driver \<times> ('p, 'd) platform \<Rightarrow> (Rtl8139Driver \<times> ('p, 'd) platform) result" where
  "send_all io packets = for_loop packets (\<lambda>(phys_addr, len). send_packet io phys_addr len)"

lemma send_all_ok:
  assumes live: "\<And>p d. \<exists>n. bit (fst (in32 io p (nth_state (in32 io p) n d))) 13"
  shows "console_ok (WRITER pl) \<Longrightarrow> unat (tx_index drv) < 4 \<Longrightarrow> unat (io_base drv) + 0x2C < 0x10000 \<Longrightarrow>
    \<exists>drv' pl'. send_all io packets (drv, pl) = Inr (drv', pl') \<and> console_ok (WRITER pl') \<and>
      io_base drv' = io_base drv \<and> unat (tx_index drv') = (unat (tx_index drv) + length packets) mod 4"
proof (induction packets arbitrary: drv pl)
  case Nil
  then show ?case by (simp add: send_all_def)
next
  case (Cons p packets)
  obtain a l where p: "p = (a, l)" by (cases p)
  let ?i = "unat (tx_index drv)"
  obtain d where "send_packet io a l (drv, pl) = Inr (drv\<lparr>tx_index := of_nat ((?i + 1) mod 4)\<rparr>,
      with_line ''RTL8139: Real packet data successfully pushed over DMA!'' (pl\<lparr>devices := d\<rparr>))"
    using send_packet_eq [OF Cons.prems(1) refl Cons.prems(2,3) refl refl refl, of io a l] live by auto
  moreover have u: "unat (of_nat ((?i + 1) mod 4) :: u8) = (?i + 1) mod 4"
    by (simp add: unat_of_nat take_bit_nat_eq_self)
  moreover have "console_ok (WRITER (with_line t (pl\<lparr>devices := d\<rparr>)))" for t
    using Cons.prems(1) println_line(2) [of "pl\<lparr>devices := d\<rparr>"] by simp
  ultimately show ?case
    using Cons.IH [of "with_line ''RTL8139: Real packet data successfully pushed over DMA!'' (pl\<lparr>devices := d\<rparr>)"
        "drv\<lparr>tx_index := of_nat ((?i + 1) mod 4)\<rparr>"] Cons.prems(3)
    by (simp add: send_all_def p mod_simps)
qed

text \<open>
  On a device that sooner or later completes every transmission, any number of
  packets is sent, one after the other, through the four descriptors in turn.
\<close>

theorem send_rotates:
  assumes "\<And>p d. \<exists>n. bit (fst (in32 io p (nth_state (in32 io p) n d))) 13"
    and "console_ok (WRITER pl)" and "unat (tx_index drv) < 4" and "unat (io_base drv) + 0x2C < 0x10000"
  shows "\<exists>drv' pl'. send_all io packets (drv, pl) = Inr (drv', pl') \<and> console_ok (WRITER pl') \<and>
    io_base drv' = io_base drv \<and> unat (tx_index drv') = (unat (tx_index drv) + length packets) mod 4"
  using assms by (rule send_all_ok)

lemma nth_state_const: "nth_state (\<lambda>d. (v, d)) n d = d"
  by (induction n) (simp_all add: nth_state_Suc)

definition done_ports :: "unit ports" where
  "done_ports = example_ports\<lparr>in32 := \<lambda>_ d. (0x2000, d)\<rparr>"

lemma done_ports_live: "\<exists>n. bit (fst (in32 done_ports p (nth_state (in32 done_ports p) n d))) 13"
  by (simp add: done_ports_def nth_state_const bit_numeral_rec)

theorem send_packet_effect_witness:
  "\<exists>pl'. send_packet done_ports 0x1000 60 ((rtl_new 0xC000)\<lparr>tx_index := 3\<rparr>, example_platform) =
     Inr ((rtl_new 0xC000)\<lparr>tx_index := 0\<rparr>, pl')"
  using send_packet_effect [OF example_platform_ok(2), of "(rtl_new 0xC000)\<lparr>tx_index := 3\<rparr>" 3, OF _ _ _ refl refl refl,
      of done_ports "0x1000" 60] done_ports_live
  by (simp add: rtl_new_def)

theorem send_rotates_witness:
  "\<exists>drv' pl'. send_all done_ports (replicate 6 (0x1000, 60)) (rtl_new 0xC000, example_platform) = Inr (drv', pl') \<and>
     unat (tx_index drv') = 2"
  using send_rotates [OF done_ports_live example_platform_ok(2), of "rtl_new 0xC000" "replicate 6 (0x1000, 60)"]
  by (auto simp: rtl_new_def)

lemma rtl_init_eq:
  assumes "console_ok (WRITER pl)" and "b = io_base drv"
    and "d1 = out8 io (b + 0x37) 0x10 (devices pl)"
    and "d2 = nth_state (in8 io (b + 0x37)) (Suc (LEAST n. \<not> bit (fst (in8 io (b + 0x37) (nth_state (in8 io (b + 0x37)) n d1))) 4)) d1"
  shows "rtl_init io rx_addr drv pl =
    (if 0x10000 \<le> unat b + 0x44 then Inl (Panic ArithmeticOverflow)
     else if \<exists>n. \<not> bit (fst (in8 io (b + 0x37) (nth_state (in8 io (b + 0x37)) n d1))) 4
     then Inr ((with_line ''RTL8139: Driver successfully initialized and listening for packets.''
         (with_line ''RTL8139: Reset complete.'' (with_line ''RTL8139: Starting hardware initialization...'' pl)))
         \<lparr>devices := out8 io (b + 0x37) 0x0C (out16 io (b + 0x3C) 0x0005 (out16 io (b + 0x3E) 0xFFFF
            (out32 io (b + 0x44) 0x8F (out32 io (b + 0x30) (ucast rx_addr) d2))))\<rparr>)
     else Inl Diverges)"
proof (cases "0x10000 \<le> unat b + 0x44")
  case True
  then show ?thesis by (simp add: rtl_init_def assms(2) [symmetric] add_chk_def)
next
  case False
  have bit4: "(\<lambda>v::u8. \<not> (v AND 0x10 \<noteq> 0)) = (\<lambda>v. \<not> bit v 4)"
    using bit_iff_and_push_bit_not_eq_0 [where 'a = u8 and n = 4] by simp
  have ports: "add_chk b 0x37 = Inr (b + 0x37)" "add_chk b 0x30 = Inr (b + 0x30)" "add_chk b 0x3C = Inr (b + 0x3C)"
    "add_chk b 0x3E = Inr (b + 0x3E)" "add_chk b 0x44 = Inr (b + 0x44)"
    using False by (simp_all add: add_chk_def)
  have w: "with_line t (pl\<lparr>devices := d\<rparr>) = (with_line t pl)\<lparr>devices := d\<rparr>" for t d and pl :: "('p, 'd) platform"
    by (simp add: with_line_def)
  note con = assms(1) println_line(2) [OF assms(1)]
  show ?thesis
    using False con println_line(2) [OF con(2)]
    unfolding rtl_init_def bit4 Let_def
    by (simp add: assms(2) [symmetric] ports println_line w wait_until_eq write8_def write16_def write32_def
        assms(3) [symmetric] assms(4) [symmetric])
qed

text \<open>
  Start-up panics when a register lies beyond the port space. Otherwise it
  returns exactly if the device sometime clears its reset bit, and then it has, in this order: programmed
  the receive buffer with the low 32 bits of the buffer's present address, the receive filter, cleared
  pending interrupts, enabled two of them, and enabled transmitter and receiver last.
\<close>

theorem rtl_init_effect:
  assumes "console_ok (WRITER pl)" and "b = io_base drv"
    and "d1 = out8 io (b + 0x37) 0x10 (devices pl)"
    and "d2 = nth_state (in8 io (b + 0x37)) (Suc (LEAST n. \<not> bit (fst (in8 io (b + 0x37) (nth_state (in8 io (b + 0x37)) n d1))) 4)) d1"
  shows "rtl_init io rx_addr drv pl =
    (if 0x10000 \<le> unat b + 0x44 then Inl (Panic ArithmeticOverflow)
     else if \<exists>n. \<not> bit (fst (in8 io (b + 0x37) (nth_state (in8 io (b + 0x37)) n d1))) 4
     then Inr ((with_line ''RTL8139: Driver successfully initialized and listening for packets.''
         (with_line ''RTL8139: Reset complete.'' (with_line ''RTL8139: Starting hardware initialization...'' pl)))
         \<lparr>devices := out8 io (b + 0x37) 0x0C (out16 io (b + 0x3C) 0x0005 (out16 io (b + 0x3E) 0xFFFF
            (out32 io (b + 0x44) 0x8F (out32 io (b + 0x30) (ucast rx_addr) d2))))\<rparr>)
     else Inl Diverges)"
  using assms by (rule rtl_init_eq)

theorem rtl_init_effect_witness:
  "\<exists>pl'. rtl_init (example_ports\<lparr>in8 := \<lambda>_ d. (0, d)\<rparr>) 0x123456789 (rtl_new 0xC000) example_platform = Inr pl'"
  using rtl_init_effect [OF example_platform_ok(2) refl refl refl, of "example_ports\<lparr>in8 := \<lambda>_ d. (0, d)\<rparr>" "0x123456789"
      "rtl_new 0xC000"]
  by (simp add: rtl_new_def)

lemma command_bits:
  "(w AND 0xFFFF0000) OR ucast ((ucast (w AND 0xFFFF) :: u16) OR push_bit 2 1 OR push_bit 0 1) = w OR (5::u32)"
proof (rule bit_eqI)
  fix n
  assume "possible_bit TYPE(32 word) n"
  then have n: "n < 32" by simp
  have hi: "(0xFFFF0000 :: u32) = push_bit 16 (mask 16)" and lo: "(0xFFFF :: u32) = mask 16"
    by (simp_all add: mask_eq_exp_minus_1)
  have f32: "(5::u32) = push_bit 2 1 OR push_bit 0 1" and f16: "(5::u16) = push_bit 2 1 OR push_bit 0 1" by simp_all
  have five: "bit (5::u32) n \<longleftrightarrow> n = 0 \<or> n = 2" "bit (5::u16) n \<longleftrightarrow> n = 0 \<or> n = 2" for n
    unfolding f32 f16 bit_or_iff bit_push_bit_iff bit_1_iff by auto
  show "bit ((w AND 0xFFFF0000) OR ucast ((ucast (w AND 0xFFFF) :: u16) OR push_bit 2 1 OR push_bit 0 1)) n =
        bit (w OR 5) n"
    unfolding hi lo bit_or_iff five bit_and_iff bit_push_bit_iff bit_mask_iff bit_ucast_iff bit_1_iff
    using n by auto
qed

lemma init_device_eq:
  assumes "console_ok (WRITER pl)" and "\<not> held rtl"
    and "(cmd, d1) = in32 io 0xCFC (out32 io 0xCF8 (config_address bus slot func 0x04) (devices pl))"
    and "(bar0, d2) = in32 io 0xCFC (out32 io 0xCF8 (config_address bus slot func 0x10) (out32 io 0xCFC (cmd OR 5) d1))"
    and "base = ucast (bar0 AND NOT 0x3)"
    and "pl1 = (pl\<lparr>devices := d2\<rparr>)\<lparr>WRITER := (WRITER pl)\<lparr>inner :=
           shown [bytes_of ''-> RTL8139 IO Base Address: '', hex (unat base)] (inner (WRITER pl))\<rparr>\<rparr>"
  shows "init_device io rx_addr bus slot func (rtl, pl) =
    (if bit bar0 0 then
       and_then (rtl_init io rx_addr (rtl_new base) pl1) (\<lambda>pl2.
       and_then (println [bytes_of ''-> RTL8139 Driver initialized successfully!''] pl2) (\<lambda>pl3.
       Inr (rtl\<lparr>inner := Some (rtl_new base)\<rparr>, pl3)))
     else Inr (rtl, with_line ''-> Error: RTL8139 is using Memory Mapping, expected I/O Mapping.'' (pl\<lparr>devices := d2\<rparr>)))"
proof -
  have b0: "(bar0 AND 1 = 1) = bit bar0 0" by (simp add: and_one_eq odd_iff_mod_2_eq_one bit_0)
  have r1: "read32 io 0xCFC (write32 io 0xCF8 (config_address bus slot func 0x04) pl) = (cmd, pl\<lparr>devices := d1\<rparr>)"
    using assms(3) [symmetric] by (simp add: read32_def write32_def)
  have r2: "read32 io 0xCFC (write32 io 0xCF8 (config_address bus slot func 0x10)
      (write32 io 0xCFC (cmd OR 5) (pl\<lparr>devices := d1\<rparr>))) = (bar0, pl\<lparr>devices := d2\<rparr>)"
    using assms(4) [symmetric] by (simp add: read32_def write32_def)
  have c: "console_ok (WRITER (pl\<lparr>devices := d2\<rparr>))" using assms(1) by simp
  have pr: "println [bytes_of ''-> RTL8139 IO Base Address: '', hex (unat base)] (pl\<lparr>devices := d2\<rparr>) = Inr pl1"
    using println_ok(1) [OF c] by (simp add: assms(6))
  have lk: "and_then (mutex_lock rtl) (\<lambda>_. x) = x" for x :: "'x result"
    using assms(2) by (simp add: mutex_lock_def)
  show ?thesis
    unfolding init_device_def prod.case Let_def r1 command_bits r2 b0 assms(5) [symmetric] pr lk println_line(1) [OF c]
    by simp
qed

section \<open>The scan\<close>

text \<open>
  A PCI bus that remembers the configuration addresses it is sent and answers with the identification
  registers \<open>cfg\<close>.
\<close>

definition config_ports :: "(u32 \<Rightarrow> u32) \<Rightarrow> u32 list ports" where
  "config_ports cfg = \<lparr>out8 = \<lambda>_ _ d. d, out16 = \<lambda>_ _ d. d,
     out32 = \<lambda>port v d. if port = 0xCF8 then d @ [v] else d,
     in8 = \<lambda>_ d. (0xFF, d), in32 = \<lambda>port d. (if port = 0xCFC then cfg (last d) else 0, d)\<rparr>"

text \<open>The line printed for a slot, by the card found there.\<close>

definition report :: "(u32 \<Rightarrow> u32) \<Rightarrow> nat \<times> nat \<Rightarrow> u8 list list list" where
  "report cfg = (\<lambda>(bus, slot).
     let ids = cfg (config_address (of_nat bus) (of_nat slot) 0 0) in
     if ids = 0x813910EC then [at_slot ''Realtek RTL8139'' (of_nat bus) (of_nat slot)]
     else if ids = 0x100E8086 \<or> ids = 0x100F8086 then [at_slot ''Intel e1000'' (of_nat bus) (of_nat slot)]
     else [])"

definition slots :: "(nat \<times> nat) list" where
  "slots = List.product [0..<255] [0..<32]"

lemma ids_split:
  "(ucast (w AND 0xFFFF) :: u16) = v \<and> (ucast (drop_bit 16 w) :: u16) = d \<longleftrightarrow> w = (push_bit 16 (ucast d) OR ucast v :: u32)"
proof
  assume a: "(ucast (w AND 0xFFFF) :: u16) = v \<and> (ucast (drop_bit 16 w) :: u16) = d"
  have lo: "(0xFFFF :: u32) = mask 16" by (simp add: mask_eq_exp_minus_1)
  show "w = push_bit 16 (ucast d) OR ucast v"
  proof (rule bit_eqI)
    fix n
    assume "possible_bit TYPE(32 word) n"
    then have n: "n < 32" by simp
    show "bit w n = bit (push_bit 16 (ucast d) OR ucast v :: u32) n"
      using n unfolding conjunct1 [OF a, symmetric] conjunct2 [OF a, symmetric] lo
      by (cases "n < 16") (auto simp: bit_or_iff bit_push_bit_iff bit_ucast_iff bit_drop_bit_eq bit_and_iff bit_mask_iff)
  qed
next
  assume w: "w = push_bit 16 (ucast d) OR ucast v"
  have lo: "(0xFFFF :: u32) = mask 16" by (simp add: mask_eq_exp_minus_1)
  show "(ucast (w AND 0xFFFF) :: u16) = v \<and> (ucast (drop_bit 16 w) :: u16) = d"
    unfolding w lo
    by (intro conjI; rule bit_eqI)
       (auto simp: bit_or_iff bit_push_bit_iff bit_ucast_iff bit_drop_bit_eq bit_and_iff bit_mask_iff
          dest: bit_imp_le_length)
qed

definition slot_address :: "nat \<times> nat \<Rightarrow> u32" where
  "slot_address = (\<lambda>(bus, slot). config_address (of_nat bus) (of_nat slot) 0 0)"

definition slot_step :: "(u32 \<Rightarrow> u32) \<Rightarrow> nat \<times> nat \<Rightarrow> ('p, u32 list) platform \<Rightarrow> ('p, u32 list) platform" where
  "slot_step cfg x pl = pl\<lparr>devices := devices pl @ [slot_address x],
     WRITER := (WRITER pl)\<lparr>inner := fold shown (report cfg x) (inner (WRITER pl))\<rparr>\<rparr>"

lemma check_slot_eq:
  assumes con: "console_ok (WRITER pl)"
  shows "check_slot (config_ports cfg) (of_nat bus) (of_nat slot) pl = Inr (slot_step cfg (bus, slot) pl) \<and>
    console_ok (WRITER (slot_step cfg (bus, slot) pl))"
proof -
  let ?a = "config_address (of_nat bus) (of_nat slot) 0 0"
  let ?pl = "pl\<lparr>devices := devices pl @ [?a]\<rparr>"
  have a: "push_bit 31 1 OR push_bit 16 (of_nat bus) OR push_bit 11 (of_nat slot) OR 0x00 = ?a"
    by (simp add: config_address_def)
  have r: "read32 (config_ports cfg) 0xCFC (write32 (config_ports cfg) 0xCF8 ?a pl) = (cfg ?a, ?pl)"
    by (simp add: read32_def write32_def config_ports_def)
  have ids: "(ucast (w AND 0xFFFF) :: u16) = 0x10EC \<and> (ucast (drop_bit 16 w) :: u16) = 0x8139 \<longleftrightarrow> w = 0x813910EC"
    "(ucast (w AND 0xFFFF) :: u16) = 0x8086 \<and> (ucast (drop_bit 16 w) :: u16) = 0x100E \<longleftrightarrow> w = 0x100E8086"
    "(ucast (w AND 0xFFFF) :: u16) = 0x8086 \<and> (ucast (drop_bit 16 w) :: u16) = 0x100F \<longleftrightarrow> w = 0x100F8086" for w :: u32
    unfolding ids_split by simp_all
  have con': "console_ok (WRITER ?pl)" using con by simp
  note pr = println_ok [OF con']
  have e: "check_slot (config_ports cfg) (of_nat bus) (of_nat slot) pl =
      (if cfg ?a = 0x813910EC then println (at_slot ''Realtek RTL8139'' (of_nat bus) (of_nat slot)) ?pl
       else if cfg ?a = 0x100E8086 \<or> cfg ?a = 0x100F8086
       then println (at_slot ''Intel e1000'' (of_nat bus) (of_nat slot)) ?pl else Inr ?pl)"
    unfolding check_slot_def Let_def a r prod.case conj_disj_distribL ids by auto
  show ?thesis
    unfolding e using con pr
    by (simp add: slot_step_def slot_address_def report_def Let_def console_ok_def)
qed

lemma fold_slot_step:
  "fold (slot_step cfg) xs pl = pl\<lparr>devices := devices pl @ map slot_address xs,
     WRITER := (WRITER pl)\<lparr>inner := fold shown (concat (map (report cfg) xs)) (inner (WRITER pl))\<rparr>\<rparr>"
  by (induction xs arbitrary: pl) (simp_all add: slot_step_def)

text \<open>
  C36 (scan_reports): on a bus that answers with the identification registers \<open>cfg\<close>, the scan of the
  first kernel asks for the slots 0 to 31 of the buses 0 to 254, once each and in this order, and prints,
  after its heading, one line for every RTL8139 and every e1000 in the order of the scan. Bus 255 is
  never asked.
\<close>

theorem scan_reports:
  assumes "console_ok (WRITER pl)"
  shows "check_network_card (config_ports cfg) pl =
      Inr (pl\<lparr>devices := devices pl @ map slot_address slots,
              WRITER := (WRITER pl)\<lparr>inner := fold shown ([bytes_of ''Scanning PCI buses for Network Cards...'']
                # concat (map (report cfg) slots)) (inner (WRITER pl))\<rparr>\<rparr>) \<and>
    (\<forall>slot<32. slot_address (255, slot) \<notin> set (map slot_address slots))"
proof -
  let ?t = "''Scanning PCI buses for Network Cards...''"
  have "for_loop slots (\<lambda>(bus, slot). check_slot (config_ports cfg) (of_nat bus) (of_nat slot)) (with_line ?t pl) =
      Inr (fold (slot_step cfg) slots (with_line ?t pl)) \<and> console_ok (WRITER (fold (slot_step cfg) slots (with_line ?t pl)))"
    using check_slot_eq println_line(2) [OF assms] by (intro for_loop_fold) (auto split: prod.splits)
  then have "check_network_card (config_ports cfg) pl = Inr (fold (slot_step cfg) slots (with_line ?t pl))"
    unfolding check_network_card_def println_line(1) [OF assms] for_loop_nested slots_def by simp
  moreover have "slot_address (255, slot) \<notin> set (map slot_address slots)" if "slot < 32" for slot
  proof
    assume "slot_address (255, slot) \<in> set (map slot_address slots)"
    then obtain b s where bs: "b < 255" "s < 32" "slot_address (255, slot) = slot_address (b, s)"
      by (auto simp: slots_def)
    have lt: "(255 :: u32) < 256" "(of_nat slot :: u32) < 32" "(of_nat b :: u32) < 256" "(of_nat s :: u32) < 32"
      using bs(1,2) that by (simp_all add: word_less_nat_alt unat_of_nat take_bit_nat_eq_self)
    have "config_address 255 (of_nat slot) 0 0 = config_address (of_nat b) (of_nat s) 0 0"
      using bs(3) by (simp add: slot_address_def)
    then have "(255 :: u32) = of_nat b" by (rule config_address_bus [OF _ lt])
    then have "unat (255 :: u32) = unat (of_nat b :: u32)" by (rule arg_cong)
    then show False using bs(1) by (simp add: unat_of_nat take_bit_nat_eq_self)
  qed
  moreover have "fold (slot_step cfg) slots (with_line ?t pl) = pl\<lparr>devices := devices pl @ map slot_address slots,
      WRITER := (WRITER pl)\<lparr>inner := fold shown ([bytes_of ?t] # concat (map (report cfg) slots)) (inner (WRITER pl))\<rparr>\<rparr>"
    unfolding fold_slot_step with_line_def by simp
  ultimately show ?thesis by auto
qed

definition empty_bus_platform :: "(u8 list, u32 list) platform" where
  "empty_bus_platform = \<lparr>PICS = \<lparr>held = False, inner = []\<rparr>, WRITER = empty_screen, devices = [],
     idt_loaded = None, irq_enabled = False\<rparr>"

theorem scan_reports_witness:
  "\<exists>pl'. check_network_card (config_ports (\<lambda>_. 0xFFFFFFFF)) empty_bus_platform = Inr pl' \<and>
     devices pl' = map slot_address slots \<and> row_position (inner (WRITER pl')) = 1"
proof -
  have con: "console_ok (WRITER empty_bus_platform)"
    using empty_screen_wf by (simp add: empty_bus_platform_def console_ok_def)
  have none: "concat (map (report (\<lambda>_. 0xFFFFFFFF)) xs) = []" for xs
    by (induction xs) (auto simp: report_def Let_def)
  show ?thesis
    using scan_reports [OF con, of "\<lambda>_. 0xFFFFFFFF"] none [of slots]
    by (simp add: empty_bus_platform_def shown_def bytes_of_def spec_byte_def spec_put_def spec_new_line_def
        sanitize_def empty_screen_def WRITER_init_def of_char_def)
qed

end
