(* ===== verification/Gdt.thy ===== *)
theory Gdt
  imports Interrupts
begin

text \<open>
  Segmentation (\<^verbatim>\<open>gdt/mod.rs\<close>): the task state segment with the double-fault stack, the descriptor
  table and the selectors. The table itself and \<^verbatim>\<open>add_entry\<close> belong to the \<^verbatim>\<open>x86_64\<close> crate and are
  parameters; what the crate documents of them is \<open>add_entry_ok\<close>.
\<close>

record task_state_segment =
  interrupt_stack_table :: "u64 list"
  privilege_stack_table :: "u64 list"

text \<open>\<open>stack_start\<close> is the address of the static double-fault stack, \<open>virt_add\<close> the crate's address addition.\<close>

definition TSS :: "(u64 \<Rightarrow> u64 \<Rightarrow> u64 result) \<Rightarrow> task_state_segment \<Rightarrow> u64 \<Rightarrow> task_state_segment result" where
  "TSS virt_add tss_new stack_start =
     and_then (virt_add stack_start (4096 * 5)) (\<lambda>stack_end.
     and_then (index_set (interrupt_stack_table tss_new) (unat DOUBLE_FAULT_IST_INDEX) stack_end) (\<lambda>ist.
     and_then (index_set (privilege_stack_table tss_new) 0 0) (\<lambda>pst.
     Inr (tss_new\<lparr>interrupt_stack_table := ist, privilege_stack_table := pst\<rparr>))))"

datatype descriptor = KernelCode | KernelData | UserData | UserCode | TssSegment task_state_segment

record selectors =
  kernel_code_selector :: u16
  kernel_data_selector :: u16
  user_data_selector :: u16
  user_code_selector :: u16
  tss_selector :: u16

definition GDT :: "'g \<Rightarrow> ('g \<Rightarrow> descriptor \<Rightarrow> 'g \<times> u16) \<Rightarrow> task_state_segment \<Rightarrow> 'g \<times> selectors" where
  "GDT gdt_new add_entry tss =
     (let gdt = gdt_new;
          (gdt, kernel_code) = add_entry gdt KernelCode;
          (gdt, kernel_data) = add_entry gdt KernelData;
          (gdt, user_data) = add_entry gdt UserData;
          (gdt, user_code) = add_entry gdt UserCode;
          (gdt, tss_sel) = add_entry gdt (TssSegment tss)
      in (gdt, \<lparr>kernel_code_selector = kernel_code, kernel_data_selector = kernel_data,
                user_data_selector = user_data, user_code_selector = user_code, tss_selector = tss_sel\<rparr>))"

record 'g segmentation =
  gdt_register :: "'g option"
  cs_register :: u16
  ds_register :: u16
  task_register :: u16

definition gdt_init :: "'g \<times> selectors \<Rightarrow> 'g segmentation \<Rightarrow> 'g segmentation" where
  "gdt_init gdt seg =
     (let seg = seg\<lparr>gdt_register := Some (fst gdt)\<rparr>;
          seg = seg\<lparr>cs_register := kernel_code_selector (snd gdt)\<rparr>;
          seg = seg\<lparr>ds_register := kernel_data_selector (snd gdt)\<rparr>
      in seg\<lparr>task_register := tss_selector (snd gdt)\<rparr>)"

text \<open>
  The crate's documented behaviour: entries take the next free slot, the first being 1; a system
  segment takes two; a selector is eight times the slot with the privilege level of the segment.
\<close>

fun descriptor_slots :: "descriptor \<Rightarrow> nat" where
  "descriptor_slots (TssSegment tss) = 2"
| "descriptor_slots d = 1"

fun descriptor_rpl :: "descriptor \<Rightarrow> nat" where
  "descriptor_rpl UserData = 3"
| "descriptor_rpl UserCode = 3"
| "descriptor_rpl d = 0"

definition add_entry_ok :: "('g \<Rightarrow> nat) \<Rightarrow> 'g \<Rightarrow> ('g \<Rightarrow> descriptor \<Rightarrow> 'g \<times> u16) \<Rightarrow> bool" where
  "add_entry_ok next_free gdt_new add_entry =
     (next_free gdt_new = 1 \<and>
      (\<forall>g d. next_free g + descriptor_slots d \<le> 8 \<longrightarrow>
         next_free (fst (add_entry g d)) = next_free g + descriptor_slots d \<and>
         snd (add_entry g d) = of_nat (8 * next_free g + descriptor_rpl d)))"

text \<open>
  C37 (gdt_matches_spawn): with the crate's table, the selectors loaded into the code and data segment
  registers are exactly the code and stack segments that a spawned process is started with, the user
  segments carry privilege level 3, all five selectors are distinct and the entries fit the table's
  eight slots.
\<close>

theorem gdt_matches_spawn:
  assumes "add_entry_ok next_free gdt_new add_entry"
  shows "let gdt = GDT gdt_new add_entry tss; s = snd gdt; seg' = gdt_init gdt seg in
    ucast (cs_register seg') = initial_frame entry_point stk ! 16 \<and>
    ucast (ds_register seg') = initial_frame entry_point stk ! 19 \<and>
    [kernel_code_selector s, kernel_data_selector s, user_data_selector s, user_code_selector s, tss_selector s] =
      [0x08, 0x10, 0x1B, 0x23, 0x28] \<and>
    task_register seg' = tss_selector s \<and> next_free (fst gdt) = 7"
proof -
  have new: "next_free gdt_new = 1" using assms by (simp add: add_entry_ok_def)
  have step: "next_free (fst (add_entry g d)) = next_free g + descriptor_slots d"
    "snd (add_entry g d) = of_nat (8 * next_free g + descriptor_rpl d)"
    if "next_free g + descriptor_slots d \<le> 8" for g d
    using assms that by (simp_all add: add_entry_ok_def)
  show ?thesis
    by (simp add: GDT_def gdt_init_def Let_def case_prod_beta step new initial_frame_def nth_append)
qed

text \<open>
  The stack pointer of a double fault is the end of its own five-page stack,
  stored where the descriptor table's double-fault gate looks it up, and nothing else of the segment changes
  but the zeroed privilege-0 entry.
\<close>

theorem double_fault_stack:
  assumes "virt_add stack_start (4096 * 5) = Inr stack_end"
    and "length (interrupt_stack_table tss_new) = 7" and "length (privilege_stack_table tss_new) = 3"
  shows "\<exists>tss g i. TSS virt_add tss_new stack_start = Inr tss \<and> IDT 8 = Some g \<and> gate_stack_index g = Some i \<and>
    interrupt_stack_table tss ! unat i = stack_end \<and> privilege_stack_table tss ! 0 = 0 \<and>
    (\<forall>j<7. j \<noteq> unat i \<longrightarrow> interrupt_stack_table tss ! j = interrupt_stack_table tss_new ! j)"
proof -
  have i: "IDT 8 = Some ((set_handler_fn DoubleFaultHandler)\<lparr>gate_stack_index := Some DOUBLE_FAULT_IST_INDEX\<rparr>)"
    by (simp add: IDT_def as_usize_def PIC_1_OFFSET_def)
  have t: "TSS virt_add tss_new stack_start = Inr (tss_new\<lparr>
      interrupt_stack_table := (interrupt_stack_table tss_new)[0 := stack_end],
      privilege_stack_table := (privilege_stack_table tss_new)[0 := 0]\<rparr>)"
    using assms by (simp add: TSS_def DOUBLE_FAULT_IST_INDEX_def)
  show ?thesis using assms(2,3) unfolding t i by (simp add: DOUBLE_FAULT_IST_INDEX_def)
qed

definition example_add_entry :: "nat \<Rightarrow> descriptor \<Rightarrow> nat \<times> u16" where
  "example_add_entry g d = (g + descriptor_slots d, of_nat (8 * g + descriptor_rpl d))"

definition example_tss :: task_state_segment where
  "example_tss = \<lparr>interrupt_stack_table = replicate 7 0, privilege_stack_table = replicate 3 0\<rparr>"

theorem gdt_matches_spawn_witness:
  "add_entry_ok (\<lambda>g. g) 1 example_add_entry \<and>
   kernel_data_selector (snd (GDT 1 example_add_entry example_tss)) = 0x10"
proof -
  have ok: "add_entry_ok (\<lambda>g. g) 1 example_add_entry" by (simp add: add_entry_ok_def example_add_entry_def)
  show ?thesis using gdt_matches_spawn [OF ok, of example_tss] ok by (simp add: Let_def)
qed

theorem double_fault_stack_witness:
  "\<exists>tss. TSS add_chk example_tss 0x8000 = Inr tss \<and> interrupt_stack_table tss ! 0 = 0xD000"
proof -
  have "add_chk 0x8000 (4096 * 5) = Inr (0xD000 :: u64)" by (simp add: add_chk_def)
  from double_fault_stack [of add_chk "0x8000", OF this, of example_tss]
  show ?thesis by (auto simp: example_tss_def IDT_def as_usize_def PIC_1_OFFSET_def DOUBLE_FAULT_IST_INDEX_def)
qed

end
