(* ===== verification/Kernel_Main.thy ===== *)
theory Kernel_Main
  imports Process_Heap Page_Faults Networking Gdt
begin

text \<open>
  The entry point of \<^verbatim>\<open>something_os\<close> (\<^verbatim>\<open>main.rs\<close>): the start-up sequence up to the idle loop, the globals it fills and
  the processes it spawns. \<open>world\<close> collects the globals of all components of both kernels; \<open>env\<close> collects what the
  crates, the boot loader and the hardware contribute, the global allocator among them. Start-up is one thread of control here;
  \<^verbatim>\<open>Interrupted_Boot\<close> shows that the interrupts that arrive in it are not noticed before the processes exist and while they are
  being created under the lock.
\<close>

record ('p, 'd, 'h, 'm, 'page, 'g) world =
  w_kernel :: kernel
  w_platform :: "('p, 'd) platform"
  w_paging :: "('m, 'page) paging"
  w_heap :: "'h mutex"
  w_segments :: "'g segmentation"
  w_memory :: memory
  w_rtl8139 :: "Rtl8139Driver option mutex"

record ('p, 'd, 'h, 'm, 'va, 'g) env =
  e_io :: "'d ports"
  e_gdt :: "'g \<times> selectors"
  e_pics_initialize :: "'p \<Rightarrow> 'p"
  e_frame_text :: "u8 list list"
  e_virt_new :: "u64 \<Rightarrow> 'va result"
  e_cr3 :: u64
  e_virt_add :: "'va \<Rightarrow> u64 \<Rightarrow> 'va result"
  e_page_table_new :: "'va \<Rightarrow> 'va \<Rightarrow> 'm"
  e_heap_init :: "'h \<Rightarrow> usize \<Rightarrow> usize \<Rightarrow> 'h result"
  e_alloc :: "'h mutex \<Rightarrow> layout \<Rightarrow> ('h mutex \<times> usize) result"
  e_dealloc :: "'h mutex \<Rightarrow> usize \<Rightarrow> layout \<Rightarrow> 'h mutex result"
  e_rx_addr :: u64

record boot_info =
  physical_memory_offset :: u64
  memory_map :: memory_map

definition init_global_memory ::
  "('p, 'd, 'h, 'm, 'va, 'g) env \<Rightarrow> 'va \<Rightarrow> memory_map \<Rightarrow> ('m, 'page) paging \<Rightarrow> ('m, 'page) paging result" where
  "init_global_memory e phys_mem_offset m pg =
     and_then (memory_init (e_cr3 e) (e_virt_add e) (e_page_table_new e) phys_mem_offset) (\<lambda>mapper.
     let frame_allocator = boot_info_init m in
     and_then (mutex_lock (MAPPER pg)) (\<lambda>_.
     let pg = pg\<lparr>MAPPER := (MAPPER pg)\<lparr>inner := Some mapper\<rparr>\<rparr> in
     and_then (mutex_lock (FRAME_ALLOCATOR pg)) (\<lambda>_.
     Inr (pg\<lparr>FRAME_ALLOCATOR := (FRAME_ALLOCATOR pg)\<lparr>inner := Some frame_allocator\<rparr>\<rparr>))))"

text \<open>
  The block under \<^verbatim>\<open>SCHEDULER.lock()\<close>; \<open>entries\<close> are the three process functions. The table is the empty one that
  \<^verbatim>\<open>Scheduler::init\<close> has just stored, so that its buffer is that of a new \<^verbatim>\<open>VecDeque\<close>.
\<close>

definition spawn_workloads ::
  "('s \<Rightarrow> layout \<Rightarrow> ('s \<times> usize) result) \<Rightarrow> ('s \<Rightarrow> usize \<Rightarrow> layout \<Rightarrow> 's result) \<Rightarrow> u64 \<times> u64 \<times> u64 \<Rightarrow>
   kernel \<Rightarrow> 's \<Rightarrow> memory \<Rightarrow> (kernel \<times> 's \<times> memory) result" where
  "spawn_workloads alloc dealloc entries k heap m =
     (let (process_alpha, process_beta, process_omega) = entries in
      and_then (mutex_lock (SCHEDULER k)) (\<lambda>guard.
      case guard of
        None \<Rightarrow> Inr (k, heap, m)
      | Some sched \<Rightarrow>
          and_then (spawn_root_heap alloc dealloc (heap, buffer_new, NEXT_PID k, sched, m)) (\<lambda>st.
          and_then (spawn_heap alloc dealloc process_alpha st) (\<lambda>st.
          and_then (spawn_heap alloc dealloc process_beta st) (\<lambda>st.
          and_then (spawn_heap alloc dealloc process_omega st) (\<lambda>(heap, buf, next_pid, sched, m).
          Inr ((set_sched sched k)\<lparr>NEXT_PID := next_pid\<rparr>, heap, m)))))))"

text \<open>\<^verbatim>\<open>kernel_main\<close> of \<^verbatim>\<open>something_os\<close>, up to its idle loop.\<close>

definition kernel_main ::
  "('p, 'd, 'h, 'm, 'va, 'g) env \<Rightarrow> u64 \<times> u64 \<times> u64 \<Rightarrow> boot_info \<Rightarrow> ('p, 'd, 'h, 'm, 'page, 'g) world \<Rightarrow>
   ('p, 'd, 'h, 'm, 'page, 'g) world result" where
  "kernel_main e entries boot_info w =
     (let w = w\<lparr>w_segments := gdt_init (e_gdt e) (w_segments w)\<rparr> in
      and_then (init_idt (e_io e) (e_pics_initialize e) (w_platform w)) (\<lambda>pl.
      and_then (check_network_card (e_io e) pl) (\<lambda>pl.
      and_then (breakpoint_handler (e_frame_text e) pl) (\<lambda>pl.
      and_then (e_virt_new e (physical_memory_offset boot_info)) (\<lambda>phys_mem_offset.
      and_then (init_global_memory e phys_mem_offset (memory_map boot_info) (w_paging w)) (\<lambda>pg.
      and_then (init_heap (e_heap_init e) (w_heap w)) (\<lambda>heap.
      and_then (println [bytes_of ''Initializing Process Scheduler...''] pl) (\<lambda>pl.
      and_then (scheduler_init (physical_memory_offset boot_info) (w_kernel w)) (\<lambda>k.
      and_then (spawn_workloads (e_alloc e) (e_dealloc e) entries k heap (w_memory w)) (\<lambda>(k, heap, m).
      and_then (println [bytes_of ''Starting multi-process testing execution loop!'' @ [0x0A]] pl) (\<lambda>pl.
      Inr (w\<lparr>w_kernel := k, w_platform := pl, w_paging := pg, w_heap := heap, w_memory := m\<rparr>))))))))))))"

section \<open>Start-up succeeds\<close>

text \<open>Interrupts are set up and the console is usable.\<close>

definition ready :: "('p, 'd) platform \<Rightarrow> bool" where
  "ready pl = (console_ok (WRITER pl) \<and> \<not> held (PICS pl) \<and> idt_loaded pl = Some IDT \<and> irq_enabled pl)"

lemma ready_devices [simp]: "ready (pl\<lparr>devices := d\<rparr>) = ready pl"
  by (simp add: ready_def)

lemma println_ready: "ready pl \<Longrightarrow> \<exists>pl'. println args pl = Inr pl' \<and> ready pl'"
  using println_ok [of pl args] by (simp add: ready_def console_ok_def)

lemma check_slot_ready: "ready pl \<Longrightarrow> \<exists>pl'. check_slot io bus slot pl = Inr pl' \<and> ready pl'"
proof -
  assume r: "ready pl"
  obtain v pl1 where v: "read32 io 0xCFC (write32 io 0xCF8 (push_bit 31 1 OR push_bit 16 bus OR push_bit 11 slot OR 0x00) pl) = (v, pl1)"
    by (cases "read32 io 0xCFC (write32 io 0xCF8 (push_bit 31 1 OR push_bit 16 bus OR push_bit 11 slot OR 0x00) pl)")
  then have "ready pl1" using r by (auto simp: read32_def write32_def split: prod.splits)
  then show ?thesis
    unfolding check_slot_def Let_def v prod.case using println_ready [of pl1] by auto
qed

lemma check_network_card_ready: "ready pl \<Longrightarrow> \<exists>pl'. check_network_card io pl = Inr pl' \<and> ready pl'"
proof -
  assume "ready pl"
  then obtain p1 where p1: "println [bytes_of ''Scanning PCI buses for Network Cards...''] pl = Inr p1" "ready p1"
    using println_ready by blast
  have "\<exists>pl'. for_loop [0..<255] (\<lambda>bus. for_loop [0..<32] (\<lambda>slot. check_slot io (of_nat bus) (of_nat slot))) p1 = Inr pl' \<and> ready pl'"
    using p1(2) check_slot_ready by (intro for_loop_total) blast+
  then show ?thesis by (simp add: check_network_card_def p1(1))
qed

lemma init_idt_ok:
  "\<not> held (PICS pl) \<Longrightarrow> console_ok (WRITER pl) \<Longrightarrow> \<exists>pl'. init_idt io pics_initialize pl = Inr pl' \<and> ready pl'"
  by (simp add: init_idt_def mutex_lock_def Let_def ready_def)

lemma init_global_memory_ok:
  assumes "e_virt_add e off (e_cr3 e) = Inr va" and "\<not> held (MAPPER pg)" "\<not> held (FRAME_ALLOCATOR pg)"
  shows "init_global_memory e off mm pg =
    Inr (pg\<lparr>MAPPER := (MAPPER pg)\<lparr>inner := Some (e_page_table_new e va off)\<rparr>,
            FRAME_ALLOCATOR := (FRAME_ALLOCATOR pg)\<lparr>inner := Some (boot_info_init mm)\<rparr>\<rparr>)"
  using assms by (simp add: init_global_memory_def memory_init_def active_level_4_table_def mutex_lock_def)

lemma kernel_eqI:
  "held (SCHEDULER k) = held (SCHEDULER k') \<Longrightarrow> inner (SCHEDULER k) = inner (SCHEDULER k') \<Longrightarrow>
   NEXT_PID k = NEXT_PID k' \<Longrightarrow> k = (k' :: kernel)"
  by (cases k; cases k') (auto intro: mutex.equality)

lemma spawn_workloads_eq:
  assumes "\<not> held (SCHEDULER k)" "inner (SCHEDULER k) = Some \<lparr>processes = [], current_index = 0\<rparr>" "NEXT_PID k = 1"
  shows "spawn_workloads alloc dealloc (alpha, beta, omega) k heap m =
    and_then (spawn_all alloc dealloc [alpha, beta, omega] (heap, buffer_new, 1, \<lparr>processes = [], current_index = 0\<rparr>, m))
      (\<lambda>(heap, buf, next_pid, sched, m). Inr ((set_sched sched k)\<lparr>NEXT_PID := next_pid\<rparr>, heap, m))"
  using assms by (simp add: spawn_workloads_def spawn_all_def mutex_lock_def and_then_assoc)

text \<open>Leaving the critical section.\<close>

lemma unlocked_runs:
  assumes "runs abi notify io depth (locked_table k s np) pl c snap sts" and "\<not> held (SCHEDULER k)"
  shows "runs abi notify io depth ((set_sched s k)\<lparr>NEXT_PID := np\<rparr>) pl c snap sts"
proof -
  have "set_held False (locked_table k s np) = (set_sched s k)\<lparr>NEXT_PID := np\<rparr>"
    using assms(2) by (intro kernel_eqI) (simp_all add: locked_table_def set_held_def)
  then show ?thesis using runs.unlock [OF assms(1) locked_table_facts(4)] by simp
qed

text \<open>
  What start-up needs of its surroundings: nobody holds a lock yet, the screen is well-formed, the
  addresses the boot loader passes are accepted, and the heap accepts its range, which leaves it in state \<open>h\<close>.
\<close>

definition boot_ready ::
  "('p, 'd, 'h, 'm, 'va, 'g) env \<Rightarrow> boot_info \<Rightarrow> ('p, 'd, 'h, 'm, 'page, 'g) world \<Rightarrow> 'va \<Rightarrow> 'va \<Rightarrow> 'h \<Rightarrow> bool" where
  "boot_ready e bi w off va h =
     (\<not> held (PICS (w_platform w)) \<and> console_ok (WRITER (w_platform w)) \<and>
      \<not> held (MAPPER (w_paging w)) \<and> \<not> held (FRAME_ALLOCATOR (w_paging w)) \<and> \<not> held (w_heap w) \<and>
      \<not> held (SCHEDULER (w_kernel w)) \<and> NEXT_PID (w_kernel w) = 1 \<and>
      e_virt_new e (physical_memory_offset bi) = Inr off \<and> e_virt_add e off (e_cr3 e) = Inr va \<and>
      e_heap_init e (inner (w_heap w)) HEAP_START HEAP_SIZE = Inr h)"

text \<open>The heap, the paging globals and the scheduler when the processes are spawned.\<close>

definition boot_heap_state :: "('p, 'd, 'h, 'm, 'page, 'g) world \<Rightarrow> 'h \<Rightarrow> 'h mutex" where
  "boot_heap_state w h = (w_heap w)\<lparr>inner := h\<rparr>"

definition boot_paging ::
  "('p, 'd, 'h, 'm, 'va, 'g) env \<Rightarrow> boot_info \<Rightarrow> ('p, 'd, 'h, 'm, 'page, 'g) world \<Rightarrow> 'va \<Rightarrow> 'va \<Rightarrow> ('m, 'page) paging" where
  "boot_paging e bi w off va = (w_paging w)\<lparr>MAPPER := (MAPPER (w_paging w))\<lparr>inner := Some (e_page_table_new e va off)\<rparr>,
     FRAME_ALLOCATOR := (FRAME_ALLOCATOR (w_paging w))\<lparr>inner := Some (boot_info_init (memory_map bi))\<rparr>\<rparr>"

definition boot_kernel :: "kernel \<Rightarrow> kernel" where
  "boot_kernel k = k\<lparr>SCHEDULER := (SCHEDULER k)\<lparr>inner := Some \<lparr>processes = [], current_index = 0\<rparr>\<rparr>\<rparr>"

lemma breakpoint_ready: "ready pl \<Longrightarrow> \<exists>pl'. breakpoint_handler t pl = Inr pl' \<and> ready pl'"
  unfolding breakpoint_handler_def by (rule println_ready)

text \<open>All of start-up but the spawning of processes succeeds.\<close>

lemma kernel_main_eq:
  fixes w :: "('p, 'd, 'h, 'm, 'page, 'g) world"
  assumes "boot_ready e bi w off va h"
  shows "\<exists>pl. ready pl \<and> kernel_main e entries bi w =
    and_then (spawn_workloads (e_alloc e) (e_dealloc e) entries (boot_kernel (w_kernel w)) (boot_heap_state w h) (w_memory w))
      (\<lambda>(k, heap, m). Inr (w\<lparr>w_segments := gdt_init (e_gdt e) (w_segments w), w_kernel := k, w_platform := pl,
         w_paging := boot_paging e bi w off va, w_heap := heap, w_memory := m\<rparr>))"
proof -
  note B = assms [unfolded boot_ready_def]
  obtain p1 where p1: "init_idt (e_io e) (e_pics_initialize e) (w_platform w) = Inr p1" "ready p1"
    using init_idt_ok B by blast
  obtain p2 where p2: "check_network_card (e_io e) p1 = Inr p2" "ready p2" using check_network_card_ready [OF p1(2)] by blast
  obtain p3 where p3: "breakpoint_handler (e_frame_text e) p2 = Inr p3" "ready p3" using breakpoint_ready [OF p2(2)] by blast
  obtain p4 where p4: "println [bytes_of ''Initializing Process Scheduler...''] p3 = Inr p4" "ready p4"
    using println_ready [OF p3(2)] by blast
  obtain p5 where p5: "println [bytes_of ''Starting multi-process testing execution loop!'' @ [0x0A]] p4 = Inr p5" "ready p5"
    using println_ready [OF p4(2)] by blast
  have pg: "init_global_memory e off (memory_map bi) (w_paging w) = Inr (boot_paging e bi w off va)"
    unfolding boot_paging_def using B by (intro init_global_memory_ok) simp_all
  have heap: "init_heap (e_heap_init e) (w_heap w) = Inr (boot_heap_state w h)"
    using B by (simp add: init_heap_def boot_heap_state_def mutex_lock_def)
  have k: "scheduler_init (physical_memory_offset bi) (w_kernel w) = Inr (boot_kernel (w_kernel w))"
    using B by (simp add: scheduler_init_def boot_kernel_def mutex_lock_def)
  have off: "e_virt_new e (physical_memory_offset bi) = Inr off" using B by simp
  show ?thesis
    unfolding kernel_main_def Let_def
    using p1(1) p2(1) p3(1) p4(1) p5 pg heap k off by (intro exI [of _ p5]) simp
qed

lemma boot_kernel_facts:
  "\<not> held (SCHEDULER k) \<Longrightarrow> \<not> held (SCHEDULER (boot_kernel k))"
  "inner (SCHEDULER (boot_kernel k)) = Some \<lparr>processes = [], current_index = 0\<rparr>" "NEXT_PID (boot_kernel k) = NEXT_PID k"
  by (simp_all add: boot_kernel_def)

text \<open>
  C17 (kernel_main_boots): with any global allocator that keeps the allocator contract and aligns stacks, start-up either
  panics for lack of memory while it creates the processes, or reaches the idle loop. Interrupts and
  console are ready, the mapper and the frame allocator are filled in (they are before the heap is touched),
  the table holds the root process and three workloads numbered 0 to 3 with the root running, and
  the whole system is in a state from which the preemption theorems apply, each workload waiting at its entry
  point on its own stack.
\<close>

theorem kernel_main_boots:
  fixes w :: "('p, 'd, 'h, 'm, 'page, 'g) world"
  assumes "boot_ready e bi w off va h"
    and "stack_allocator (e_alloc e) (e_dealloc e) accepts touches I" and "I lo hi (boot_heap_state w h) []"
    and "stack_wf st0" and "apart (stack_extent st0) (lo, hi - lo)" and "room depth st0 (regs c RSP)" and "w_memory w = mem c"
  shows "out_of_memory (kernel_main e (alpha, beta, omega) bi w) \<or>
    (\<exists>w' bs snap. kernel_main e (alpha, beta, omega) bi w = Inr w' \<and> ready (w_platform w') \<and>
      inner (MAPPER (w_paging w')) = Some (e_page_table_new e va off) \<and>
      inner (FRAME_ALLOCATOR (w_paging w')) = Some (boot_info_init (memory_map bi)) \<and>
      w_segments w' = gdt_init (e_gdt e) (w_segments w) \<and>
      \<not> held (SCHEDULER (w_kernel w')) \<and> NEXT_PID (w_kernel w') = 4 \<and> cur (w_kernel w') = 0 \<and>
      map proc_id (processes (sched_of (w_kernel w'))) = [0, 1, 2, 3] \<and>
      length bs = 3 \<and> map snap [1, 2, 3] = starts_at [alpha, beta, omega] bs \<and>
      runs abi notify io depth (w_kernel w') (w_platform w') (c\<lparr>mem := w_memory w'\<rparr>) snap (st0 # heap_stacks bs))"
proof -
  let ?k = "boot_kernel (w_kernel w)" and ?e = "\<lparr>processes = [], current_index = 0\<rparr>"
  let ?spawn = "spawn_all (e_alloc e) (e_dealloc e) [alpha, beta, omega] (boot_heap_state w h, buffer_new, 1, ?e, mem c)"
  have free: "\<not> held (SCHEDULER ?k)" and np: "NEXT_PID ?k = 1"
    using assms(1) by (simp_all add: boot_ready_def boot_kernel_facts)
  obtain pl where pl: "ready pl" "kernel_main e (alpha, beta, omega) bi w =
    and_then ?spawn (\<lambda>(heap, buf, next_pid, sched, m). Inr (w\<lparr>w_segments := gdt_init (e_gdt e) (w_segments w),
      w_kernel := (set_sched sched ?k)\<lparr>NEXT_PID := next_pid\<rparr>, w_platform := pl,
      w_paging := boot_paging e bi w off va, w_heap := heap, w_memory := m\<rparr>))"
    using kernel_main_eq [OF assms(1), of "(alpha, beta, omega)"]
    unfolding spawn_workloads_eq [OF free boot_kernel_facts(2) np] assms(7) by (auto simp: and_then_assoc split_def)
  from stack_allocator.spawn_all_safe [OF assms(2-6) free, of "[alpha, beta, omega]" abi notify io pl] show ?thesis
  proof (elim disjE exE conjE)
    assume "out_of_memory ?spawn"
    then show ?thesis unfolding pl(2) by (intro disjI1 out_of_memory_and_then)
  next
    fix heap' buf bs s m' snap
    assume r: "?spawn = Inr (heap', buf, of_nat (Suc (length [alpha, beta, omega])), s, m')"
      "map proc_id (processes s) = map of_nat [0..<Suc (length [alpha, beta, omega])]" "current_index s = 0"
      "length bs = length [alpha, beta, omega]" "map snap [1..<Suc (length [alpha, beta, omega])] = starts_at [alpha, beta, omega] bs"
      "table_ready I lo hi [] abi notify io depth (?k, pl, c) st0 bs snap (heap', buf, of_nat (Suc (length [alpha, beta, omega])), s, m')"
    have num: "of_nat (Suc (length [alpha, beta, omega])) = (4 :: u64)" "[1..<Suc (length [alpha, beta, omega])] = [1, 2, 3]"
      "map of_nat [0..<Suc (length [alpha, beta, omega])] = [0, 1, 2, 3 :: u64]"
      by (simp_all add: upt_rec)
    note r = r [unfolded num]
    have "runs abi notify io depth ((set_sched s ?k)\<lparr>NEXT_PID := 4\<rparr>) pl (c\<lparr>mem := m'\<rparr>) snap (st0 # heap_stacks bs)"
      using r(6) by (intro unlocked_runs free) (simp add: table_ready_def)
    moreover let ?w = "w\<lparr>w_segments := gdt_init (e_gdt e) (w_segments w), w_kernel := (set_sched s ?k)\<lparr>NEXT_PID := 4\<rparr>,
      w_platform := pl, w_paging := boot_paging e bi w off va, w_heap := heap', w_memory := m'\<rparr>"
    have "kernel_main e (alpha, beta, omega) bi w = Inr ?w" unfolding pl(2) r(1) by simp
    ultimately show ?thesis
      using r(2-5) pl(1) free
      by (intro disjI2 exI [of _ ?w] exI [of _ bs] exI [of _ snap] conjI) (simp_all add: boot_paging_def cur_def)
  qed
qed

text \<open>The same with the answers of the heap known.\<close>

definition bootable ::
  "('p, 'd, 'h, 'm, 'va, 'g) env \<Rightarrow> boot_info \<Rightarrow> ('p, 'd, 'h, 'm, 'page, 'g) world \<Rightarrow> 'va \<Rightarrow> 'va \<Rightarrow> stack list \<Rightarrow> bool" where
  "bootable e bi w off va sts =
     (case e_heap_init e (inner (w_heap w)) HEAP_START HEAP_SIZE of Inl _ \<Rightarrow> False | Inr h \<Rightarrow>
        boot_ready e bi w off va h \<and> stacks_ok sts \<and> length sts = 4 \<and>
        snd (sts ! 1) = STACK_SIZE \<and> snd (sts ! 2) = STACK_SIZE \<and> snd (sts ! 3) = STACK_SIZE \<and>
        boot_heap (e_alloc e) (boot_heap_state w h) (fst (sts ! 1)) (fst (sts ! 2)) (fst (sts ! 3)))"

lemma four_elems: "length xs = 4 \<Longrightarrow> xs = [xs ! 0, xs ! 1, xs ! 2, xs ! 3]"
  by (auto simp: list_eq_iff_nth_eq less_Suc_eq numeral_eq_Suc)

text \<open>The frames the three workloads start from.\<close>

definition workload_frames :: "u64 \<Rightarrow> u64 \<Rightarrow> u64 \<Rightarrow> stack list \<Rightarrow> nat \<Rightarrow> u64 list" where
  "workload_frames alpha beta omega sts = (\<lambda>_. [])
     (1 := initial_frame alpha (fst (sts ! 1) + of_nat STACK_SIZE),
      2 := initial_frame beta (fst (sts ! 2) + of_nat STACK_SIZE),
      3 := initial_frame omega (fst (sts ! 3) + of_nat STACK_SIZE))"

lemma kernel_main_ok:
  fixes w :: "('p, 'd, 'h, 'm, 'page, 'g) world"
  assumes "bootable e bi w off va sts" and "w_memory w = mem c" and "room depth (sts ! 0) (regs c RSP)"
  shows "\<exists>w'. kernel_main e (alpha, beta, omega) bi w = Inr w' \<and> ready (w_platform w') \<and>
    \<not> held (SCHEDULER (w_kernel w')) \<and> cur (w_kernel w') = 0 \<and>
    map proc_id (processes (sched_of (w_kernel w'))) = [0, 1, 2, 3] \<and>
    runs abi notify io depth (w_kernel w') (w_platform w') (c\<lparr>mem := w_memory w'\<rparr>)
      (workload_frames alpha beta omega sts) sts"
proof -
  obtain h where B: "boot_ready e bi w off va h" "stacks_ok sts" "length sts = 4"
      "snd (sts ! 1) = STACK_SIZE" "snd (sts ! 2) = STACK_SIZE" "snd (sts ! 3) = STACK_SIZE"
      "boot_heap (e_alloc e) (boot_heap_state w h) (fst (sts ! 1)) (fst (sts ! 2)) (fst (sts ! 3))"
    using assms(1) by (auto simp: bootable_def split: sum.splits)
  let ?k = "boot_kernel (w_kernel w)"
  have free: "\<not> held (SCHEDULER ?k)" and np: "NEXT_PID ?k = 1"
    using B(1) by (simp_all add: boot_ready_def boot_kernel_facts)
  obtain pl where pl: "ready pl" "kernel_main e (alpha, beta, omega) bi w =
    and_then (spawn_workloads (e_alloc e) (e_dealloc e) (alpha, beta, omega) ?k (boot_heap_state w h) (mem c))
      (\<lambda>(k, heap, m). Inr (w\<lparr>w_segments := gdt_init (e_gdt e) (w_segments w), w_kernel := k, w_platform := pl,
         w_paging := boot_paging e bi w off va, w_heap := heap, w_memory := m\<rparr>))"
    using kernel_main_eq [OF B(1), of "(alpha, beta, omega)"] assms(2) by auto
  have "sts ! 1 = (fst (sts ! 1), STACK_SIZE)" "sts ! 2 = (fst (sts ! 2), STACK_SIZE)" "sts ! 3 = (fst (sts ! 3), STACK_SIZE)"
    using B(4-6) by (simp_all add: prod_eq_iff)
  then have sts: "sts = [sts ! 0, (fst (sts ! 1), STACK_SIZE), (fst (sts ! 2), STACK_SIZE), (fst (sts ! 3), STACK_SIZE)]"
    using four_elems [OF B(3)] by metis
  obtain heap' buf m' q1 q2 q3 where
    sp: "spawn_all (e_alloc e) (e_dealloc e) [alpha, beta, omega] (boot_heap_state w h, buffer_new, 1, \<lparr>processes = [], current_index = 0\<rparr>, mem c) =
        Inr (heap', buf, 4, workload_table q1 q2 q3, m')" "map proc_id [q1, q2, q3] = [1, 2, 3]"
      "runs abi notify io depth (locked_table ?k (workload_table q1 q2 q3) 4) pl (c\<lparr>mem := m'\<rparr>) (workload_frames alpha beta omega sts) sts"
    using boot_spawns [OF free B(7) sts B(2) assms(3) workload_frames_def, of "e_dealloc e" alpha beta omega abi notify io pl]
    by (elim exE conjE) (rule that)
  have "map proc_id (processes (workload_table q1 q2 q3)) = [0, 1, 2, 3]" "current_index (workload_table q1 q2 q3) = 0"
    using sp(2) by (simp_all add: workload_table_def spawn_root_def Let_def)
  then show ?thesis
    using pl free unlocked_runs [OF sp(3) free]
    by (simp add: spawn_workloads_eq [OF free boot_kernel_facts(2) np] sp(1) cur_def)
qed

section \<open>A complete example\<close>

text \<open>A machine without devices whose kernel uses the repository's linked list allocator.\<close>

definition example_env :: "(u8 list, unit, linked_list_allocator, unit, u64, nat) env" where
  "example_env = \<lparr>e_io = example_ports, e_gdt = GDT 1 example_add_entry example_tss, e_pics_initialize = (\<lambda>p. p),
     e_frame_text = [], e_virt_new = Inr, e_cr3 = 0x1000, e_virt_add = (\<lambda>a b. Inr (a + b)),
     e_page_table_new = (\<lambda>_ _. ()), e_heap_init = ll_init, e_alloc = ll_alloc, e_dealloc = ll_dealloc, e_rx_addr = 0\<rparr>"

definition example_world :: "(u8 list, unit, linked_list_allocator, unit, u64, nat) world" where
  "example_world = \<lparr>w_kernel = kernel_statics, w_platform = example_platform,
     w_paging = \<lparr>MAPPER = \<lparr>held = False, inner = None\<rparr>, FRAME_ALLOCATOR = \<lparr>held = False, inner = None\<rparr>, flushed = []\<rparr>,
     w_heap = \<lparr>held = False, inner = ll_new Map.empty\<rparr>,
     w_segments = \<lparr>gdt_register = None, cs_register = 0, ds_register = 0, task_register = 0\<rparr>,
     w_memory = (\<lambda>_. 0), w_rtl8139 = \<lparr>held = False, inner = None\<rparr>\<rparr>"

definition example_boot_info :: boot_info where
  "example_boot_info = \<lparr>physical_memory_offset = 0x40000000, memory_map = demo_map\<rparr>"

definition boot_stacks :: "stack \<Rightarrow> stack list" where
  "boot_stacks st0 = [st0, (HEAP_START + 0x1A0, STACK_SIZE), (HEAP_START + 0x41A0, STACK_SIZE), (HEAP_START + 0x81A0, STACK_SIZE)]"

definition example_stacks :: "stack list" where
  "example_stacks = boot_stacks (0x80000, 0x10000)"

lemma boot_stacks_ok:
  assumes "stack_wf st0" and "apart (stack_extent st0) (unat HEAP_START, 0xC1A0)"
  shows "stacks_ok (boot_stacks st0)"
  using assms
  by (auto simp: stacks_ok_def boot_stacks_def stack_wf_def stack_extent_def apart_def HEAP_START_def STACK_SIZE_def)

lemma example_ready:
  "ll_init (ll_new Map.empty) HEAP_START HEAP_SIZE = Inr h \<Longrightarrow> boot_ready example_env example_boot_info example_world 0x40000000 0x40001000 h"
  using example_platform_ok by (simp add: boot_ready_def example_env_def example_world_def example_boot_info_def kernel_statics_def)

lemma example_bootable:
  "bootable example_env example_boot_info example_world 0x40000000 0x40001000 example_stacks"
proof -
  obtain h where h: "ll_init (ll_new Map.empty) HEAP_START HEAP_SIZE = Inr h" by (rule ll_heap_ready)
  have "stacks_ok example_stacks"
    unfolding example_stacks_def
    by (rule boot_stacks_ok) (simp_all add: stack_wf_def stack_extent_def apart_def HEAP_START_def)
  moreover have "e_heap_init example_env (inner (w_heap example_world)) HEAP_START HEAP_SIZE = Inr h"
    using h by (simp add: example_env_def example_world_def)
  moreover have "boot_heap (e_alloc example_env) (boot_heap_state example_world h)
      (HEAP_START + 0x1A0) (HEAP_START + 0x41A0) (HEAP_START + 0x81A0)"
    using boot_heap_linked_list [OF h, of "boot_heap_state example_world h"]
    by (simp add: example_env_def example_world_def boot_heap_state_def)
  ultimately show ?thesis
    using example_ready [OF h] by (simp add: bootable_def example_stacks_def boot_stacks_def numeral_2_eq_2 numeral_3_eq_3)
qed

lemma example_room: "room 1000 (example_stacks ! 0) (regs example_cpu RSP)" "w_memory example_world = mem example_cpu"
  by (simp_all add: room_def example_stacks_def boot_stacks_def example_cpu_def example_world_def)

theorem kernel_main_boots_witness:
  "\<exists>w'. kernel_main example_env (0x2000, 0x3000, 0x4000) example_boot_info example_world = Inr w' \<and>
     map proc_id (processes (sched_of (w_kernel w'))) = [0, 1, 2, 3] \<and> ready (w_platform w')"
proof -
  let ?r = "kernel_main example_env (0x2000, 0x3000, 0x4000) example_boot_info example_world"
  obtain h where h: "ll_init (ll_new Map.empty) HEAP_START HEAP_SIZE = Inr h"
    "ll_inv (unat HEAP_START) (unat HEAP_START + unat HEAP_SIZE) (locked_new h) []"
    by (rule ll_heap_ready)
  have inv: "ll_inv (unat HEAP_START) (unat HEAP_START + unat HEAP_SIZE) (boot_heap_state example_world h) []"
    using h(2) by (simp add: boot_heap_state_def example_world_def locked_new_def)
  have sa: "stack_allocator (e_alloc example_env) (e_dealloc example_env) ll_accepts ll_touches ll_inv"
    unfolding example_env_def env.simps by unfold_locales
  have st0: "stack_wf (0x80000, 0x10000)"
    "apart (stack_extent (0x80000, 0x10000)) (unat HEAP_START, unat HEAP_START + unat HEAP_SIZE - unat HEAP_START)"
    "room 1000 (0x80000, 0x10000) (regs example_cpu RSP)"
    by (simp_all add: stack_wf_def apart_def stack_extent_def HEAP_START_def room_def example_cpu_def)
  have "\<not> out_of_memory ?r"
    using kernel_main_ok [OF example_bootable example_room(2,1), of "0x2000" "0x3000" "0x4000" example_abi "(#)" example_ports]
    by (auto simp: out_of_memory_def)
  with kernel_main_boots [OF example_ready [OF h(1)] sa inv st0 example_room(2), of "0x2000" "0x3000" "0x4000" example_abi "(#)" example_ports]
  show ?thesis by (elim disjE exE conjE) (erule notE, assumption, intro exI conjI)
qed

end
