(* ===== verification/Interrupted_Boot.thy ===== *)
theory Interrupted_Boot
  imports Kernel_Main "HOL-Library.Sublist"
begin

text \<open>
  Start-up with interrupts in it. From \<^verbatim>\<open>init_idt\<close> on the timer and the keyboard interrupt \<^verbatim>\<open>kernel_main\<close> wherever
  it is. \<open>boot_stages\<close> is \<^verbatim>\<open>kernel_main\<close> as a sequence of steps, the slots of the PCI scan one by one, with the lock of the
  scheduler taken and given back explicitly; \<open>boot_disturbed\<close> is what may happen between two steps. The
  locale \<open>undisturbed\<close> carries the simulation: if steps and disturbances respect an equivalence, then what follows a
  disturbance ends equivalently.
\<close>

section \<open>Sequences of steps with disturbances between them\<close>

type_synonym 's stage = "'s \<Rightarrow> 's result"

definition run_stages :: "'s stage list \<Rightarrow> 's \<Rightarrow> 's result" where
  "run_stages fs = for_loop fs (\<lambda>f. f)"

lemma run_stages_simps [simp]:
  "run_stages [] s = Inr s" "run_stages (f # fs) s = and_then (f s) (run_stages fs)"
  by (simp_all add: run_stages_def)

lemma run_stages_Cons: "run_stages (f # fs) = (\<lambda>s. and_then (f s) (run_stages fs))"
  by (rule ext) simp

lemma run_stages_append: "run_stages (fs @ gs) s = and_then (run_stages fs s) (run_stages gs)"
  by (simp add: run_stages_def for_loop_append)

inductive interleaved ::
  "('s stage list \<Rightarrow> 's \<Rightarrow> 's \<Rightarrow> bool) \<Rightarrow> 's stage list \<Rightarrow> 's \<Rightarrow> 's stage list \<Rightarrow> 's \<Rightarrow> bool"
  for disturbed fs0 s0 where
  start: "interleaved disturbed fs0 s0 fs0 s0"
| stage: "interleaved disturbed fs0 s0 (f # fs) s \<Longrightarrow> f s = Inr s' \<Longrightarrow> interleaved disturbed fs0 s0 fs s'"
| disturb: "interleaved disturbed fs0 s0 fs s \<Longrightarrow> disturbed fs s s' \<Longrightarrow> interleaved disturbed fs0 s0 fs s'"

text \<open>Two outcomes: the same failure, or equivalent states.\<close>

definition same_outcome :: "('a \<Rightarrow> 'a \<Rightarrow> bool) \<Rightarrow> 'a result \<Rightarrow> 'a result \<Rightarrow> bool" where
  "same_outcome R = rel_sum (=) R"

lemma same_outcome_simps [simp]:
  "same_outcome R (Inr s) r \<longleftrightarrow> (\<exists>t. r = Inr t \<and> R s t)" "same_outcome R (Inl x) r \<longleftrightarrow> r = Inl x"
  "same_outcome R r (Inr t) \<longleftrightarrow> (\<exists>s. r = Inr s \<and> R s t)"
  by (auto simp: same_outcome_def rel_sum.simps)

lemma same_outcome_bind:
  assumes "same_outcome R r r'" and "\<And>s t. R s t \<Longrightarrow> same_outcome Q (f s) (g t)"
  shows "same_outcome Q (and_then r f) (and_then r' g)"
  using assms by (cases r) auto

lemma same_outcome_refl: "(\<And>s. r = Inr s \<Longrightarrow> R s s) \<Longrightarrow> same_outcome R r r"
  by (cases r) auto

lemma same_outcome_trans:
  "same_outcome R r r' \<Longrightarrow> same_outcome R r' r'' \<Longrightarrow> (\<And>s t u. R s t \<Longrightarrow> R t u \<Longrightarrow> R s u) \<Longrightarrow> same_outcome R r r''"
  by (cases r) auto

locale undisturbed =
  fixes same :: "'s \<Rightarrow> 's \<Rightarrow> bool"
    and inv :: "'s stage list \<Rightarrow> 's \<Rightarrow> bool"
    and disturbed :: "'s stage list \<Rightarrow> 's \<Rightarrow> 's \<Rightarrow> bool"
  assumes same_trans: "same s t \<Longrightarrow> same t u \<Longrightarrow> same s u"
    and inv_same: "inv fs s \<Longrightarrow> same s s"
    and stage_inv: "inv (f # fs) s \<Longrightarrow> f s = Inr s' \<Longrightarrow> inv fs s'"
    and stage_same: "inv (f # fs) s \<Longrightarrow> same t s \<Longrightarrow> same_outcome same (f t) (f s)"
    and disturbed_inv: "inv fs s \<Longrightarrow> disturbed fs s s' \<Longrightarrow> inv fs s'"
    and disturbed_same: "inv fs s \<Longrightarrow> disturbed fs s s' \<Longrightarrow> same s' s"
begin

lemma rest_same: "inv fs s \<Longrightarrow> same t s \<Longrightarrow> same_outcome same (run_stages fs t) (run_stages fs s)"
proof (induction fs arbitrary: s t)
  case Nil
  then show ?case by simp
next
  case (Cons f fs)
  note st = stage_same [OF Cons.prems]
  show ?case
  proof (cases "f s")
    case (Inl x)
    with st have "f t = Inl x" by (cases "f t") auto
    with Inl show ?thesis by simp
  next
    case (Inr s')
    with st obtain t' where "f t = Inr t'" "same t' s'" by auto
    with Inr Cons.IH [OF stage_inv [OF Cons.prems(1) Inr]] show ?thesis by simp
  qed
qed

lemma interleaved_inv: "interleaved disturbed fs0 s0 fs s \<Longrightarrow> inv fs0 s0 \<Longrightarrow> inv fs s"
  by (induction rule: interleaved.induct) (auto intro: stage_inv disturbed_inv)

lemma interleaved_same:
  assumes "interleaved disturbed fs0 s0 fs s" and "inv fs0 s0"
  shows "same_outcome same (run_stages fs s) (run_stages fs0 s0)"
  using assms
proof (induction rule: interleaved.induct)
  case start
  then show ?case using rest_same inv_same by blast
next
  case (stage f fs s s')
  then show ?case by simp
next
  case (disturb fs s s')
  have i: "inv fs s" using disturb.hyps(1) disturb.prems by (rule interleaved_inv)
  show ?case
    using rest_same [OF i disturbed_same [OF i disturb.hyps(2)]] disturb.IH [OF disturb.prems] same_trans
    by (rule same_outcome_trans)
qed

end

section \<open>The steps of start-up\<close>

type_synonym ('p, 'd, 'h, 'm, 'page, 'g) boot_state = "('p, 'd, 'h, 'm, 'page, 'g) world \<times> table_buffer"

definition on_platform ::
  "(('p, 'd) platform \<Rightarrow> ('p, 'd) platform result) \<Rightarrow> ('p, 'd, 'h, 'm, 'page, 'g) boot_state stage" where
  "on_platform f = (\<lambda>(w, buf). and_then (f (w_platform w)) (\<lambda>pl. Inr (w\<lparr>w_platform := pl\<rparr>, buf)))"

definition segments_stage :: "('p, 'd, 'h, 'm, 'va, 'g) env \<Rightarrow> ('p, 'd, 'h, 'm, 'page, 'g) boot_state stage" where
  "segments_stage e = (\<lambda>(w, buf). Inr (w\<lparr>w_segments := gdt_init (e_gdt e) (w_segments w)\<rparr>, buf))"

definition memory_stage ::
  "('p, 'd, 'h, 'm, 'va, 'g) env \<Rightarrow> boot_info \<Rightarrow> ('p, 'd, 'h, 'm, 'page, 'g) boot_state stage" where
  "memory_stage e boot_info = (\<lambda>(w, buf).
     and_then (e_virt_new e (physical_memory_offset boot_info)) (\<lambda>phys_mem_offset.
     and_then (init_global_memory e phys_mem_offset (memory_map boot_info) (w_paging w)) (\<lambda>pg.
     Inr (w\<lparr>w_paging := pg\<rparr>, buf))))"

definition heap_stage :: "('p, 'd, 'h, 'm, 'va, 'g) env \<Rightarrow> ('p, 'd, 'h, 'm, 'page, 'g) boot_state stage" where
  "heap_stage e = (\<lambda>(w, buf). and_then (init_heap (e_heap_init e) (w_heap w)) (\<lambda>heap. Inr (w\<lparr>w_heap := heap\<rparr>, buf)))"

definition on_kernel :: "(kernel \<Rightarrow> kernel result) \<Rightarrow> ('p, 'd, 'h, 'm, 'page, 'g) boot_state stage" where
  "on_kernel f = (\<lambda>(w, buf). and_then (f (w_kernel w)) (\<lambda>k. Inr (w\<lparr>w_kernel := k\<rparr>, buf)))"

text \<open>\<^verbatim>\<open>process::SCHEDULER.lock()\<close>, and the end of its guard.\<close>

definition lock_scheduler :: "kernel \<Rightarrow> kernel result" where
  "lock_scheduler k = and_then (mutex_lock (SCHEDULER k)) (\<lambda>_. Inr (set_held True k))"

definition unlock_scheduler :: "kernel \<Rightarrow> kernel result" where
  "unlock_scheduler k = Inr (set_held False k)"

text \<open>A call on the scheduler behind the guard.\<close>

definition spawn_stage ::
  "('h mutex spawn_state \<Rightarrow> 'h mutex spawn_state result) \<Rightarrow> ('p, 'd, 'h, 'm, 'page, 'g) boot_state stage" where
  "spawn_stage f = (\<lambda>(w, buf).
     and_then (f (w_heap w, buf, NEXT_PID (w_kernel w), sched_of (w_kernel w), w_memory w)) (\<lambda>(heap, buf, next_pid, sched, m).
     Inr (w\<lparr>w_kernel := (set_sched sched (w_kernel w))\<lparr>NEXT_PID := next_pid\<rparr>, w_heap := heap, w_memory := m\<rparr>, buf)))"

definition scan_stages :: "('p, 'd, 'h, 'm, 'va, 'g) env \<Rightarrow> ('p, 'd, 'h, 'm, 'page, 'g) boot_state stage list" where
  "scan_stages e = on_platform (println [bytes_of ''Scanning PCI buses for Network Cards...'']) #
     map (\<lambda>x. on_platform (case x of (bus, slot) \<Rightarrow> check_slot (e_io e) (of_nat bus) (of_nat slot)))
       (List.product [0..<255] [0..<32])"

definition setup_stages ::
  "('p, 'd, 'h, 'm, 'va, 'g) env \<Rightarrow> boot_info \<Rightarrow> ('p, 'd, 'h, 'm, 'page, 'g) boot_state stage list" where
  "setup_stages e boot_info =
     [segments_stage e, on_platform (init_idt (e_io e) (e_pics_initialize e))] @ scan_stages e @
     [on_platform (breakpoint_handler (e_frame_text e)), memory_stage e boot_info, heap_stage e,
      on_platform (println [bytes_of ''Initializing Process Scheduler...''])]"

definition process_stages ::
  "('p, 'd, 'h, 'm, 'va, 'g) env \<Rightarrow> u64 \<times> u64 \<times> u64 \<Rightarrow> boot_info \<Rightarrow> ('p, 'd, 'h, 'm, 'page, 'g) boot_state stage list" where
  "process_stages e = (\<lambda>(process_alpha, process_beta, process_omega) boot_info.
     [on_kernel (scheduler_init (physical_memory_offset boot_info)), on_kernel lock_scheduler,
      spawn_stage (spawn_root_heap (e_alloc e) (e_dealloc e)), spawn_stage (spawn_heap (e_alloc e) (e_dealloc e) process_alpha),
      spawn_stage (spawn_heap (e_alloc e) (e_dealloc e) process_beta), spawn_stage (spawn_heap (e_alloc e) (e_dealloc e) process_omega),
      on_kernel unlock_scheduler,
      on_platform (println [bytes_of ''Starting multi-process testing execution loop!'' @ [0x0A]])])"

definition boot_stages ::
  "('p, 'd, 'h, 'm, 'va, 'g) env \<Rightarrow> u64 \<times> u64 \<times> u64 \<Rightarrow> boot_info \<Rightarrow> ('p, 'd, 'h, 'm, 'page, 'g) boot_state stage list" where
  "boot_stages e entries boot_info = setup_stages e boot_info @ process_stages e entries boot_info"

text \<open>Run one after the other, the steps are \<^verbatim>\<open>kernel_main\<close>.\<close>

lemma stage_simps [simp]:
  "on_platform f (w, buf) = and_then (f (w_platform w)) (\<lambda>pl. Inr (w\<lparr>w_platform := pl\<rparr>, buf))"
  "on_kernel g (w, buf) = and_then (g (w_kernel w)) (\<lambda>k. Inr (w\<lparr>w_kernel := k\<rparr>, buf))"
  by (simp_all add: on_platform_def on_kernel_def)

lemma run_on_platform:
  "run_stages (map (\<lambda>x. on_platform (g x)) xs) (w, buf) =
     and_then (for_loop xs g (w_platform w)) (\<lambda>pl. Inr (w\<lparr>w_platform := pl\<rparr>, buf))"
proof (induction xs arbitrary: w)
  case Nil
  then show ?case by simp
next
  case (Cons x xs)
  then show ?case by (cases "g x (w_platform w)") simp_all
qed

lemma run_scan:
  "run_stages (scan_stages e) (w, buf) =
     and_then (check_network_card (e_io e) (w_platform w)) (\<lambda>pl. Inr (w\<lparr>w_platform := pl\<rparr>, buf))"
  by (cases "println [bytes_of ''Scanning PCI buses for Network Cards...''] (w_platform w)")
     (simp_all add: scan_stages_def check_network_card_def for_loop_nested run_on_platform)

lemma run_spawn_stages:
  "and_then (spawn_stage f s) (spawn_stage g) = spawn_stage (\<lambda>st. and_then (f st) g) s"
proof -
  obtain w buf where s: "s = (w, buf)" by (cases s)
  show ?thesis
    by (cases "f (w_heap w, buf, NEXT_PID (w_kernel w), sched_of (w_kernel w), w_memory w)")
       (auto simp: s spawn_stage_def set_sched_def sched_of_def)
qed

lemma locked_kernel:
  "(set_sched sched (set_held True k))\<lparr>NEXT_PID := next_pid\<rparr> = locked_table k sched next_pid"
  "\<not> held (SCHEDULER k) \<Longrightarrow> set_held False (locked_table k sched next_pid) = (set_sched sched k)\<lparr>NEXT_PID := next_pid\<rparr>"
  by (rule kernel_eqI; simp add: locked_table_def set_held_def)+

lemma boot_table:
  "sched_of (boot_kernel k) = \<lparr>processes = [], current_index = 0\<rparr>" "NEXT_PID (set_held b k) = NEXT_PID k"
  by (simp_all add: sched_of_def boot_kernel_def set_held_def)

text \<open>Fields in the order of the record.\<close>

lemma world_swap:
  "(w\<lparr>w_paging := pg, w_kernel := k\<rparr> :: ('p, 'd, 'h, 'm, 'page, 'g) world) = w\<lparr>w_kernel := k, w_paging := pg\<rparr>"
  "(w\<lparr>w_paging := pg, w_platform := pl\<rparr> :: ('p, 'd, 'h, 'm, 'page, 'g) world) = w\<lparr>w_platform := pl, w_paging := pg\<rparr>"
  "(w\<lparr>w_heap := hp, w_kernel := k\<rparr> :: ('p, 'd, 'h, 'm, 'page, 'g) world) = w\<lparr>w_kernel := k, w_heap := hp\<rparr>"
  "(w\<lparr>w_heap := hp, w_platform := pl\<rparr> :: ('p, 'd, 'h, 'm, 'page, 'g) world) = w\<lparr>w_platform := pl, w_heap := hp\<rparr>"
  "(w\<lparr>w_memory := m, w_kernel := k\<rparr> :: ('p, 'd, 'h, 'm, 'page, 'g) world) = w\<lparr>w_kernel := k, w_memory := m\<rparr>"
  "(w\<lparr>w_memory := m, w_platform := pl\<rparr> :: ('p, 'd, 'h, 'm, 'page, 'g) world) = w\<lparr>w_platform := pl, w_memory := m\<rparr>"
  by simp_all

lemma run_process_stages:
  "and_then (run_stages (process_stages e entries bi) (w, buffer_new)) (\<lambda>(w, _). Inr w) =
     and_then (scheduler_init (physical_memory_offset bi) (w_kernel w)) (\<lambda>k.
     and_then (spawn_workloads (e_alloc e) (e_dealloc e) entries k (w_heap w) (w_memory w)) (\<lambda>(k, heap, m).
     and_then (println [bytes_of ''Starting multi-process testing execution loop!'' @ [0x0A]] (w_platform w)) (\<lambda>pl.
     Inr (w\<lparr>w_kernel := k, w_platform := pl, w_heap := heap, w_memory := m\<rparr>))))"
proof -
  obtain alpha beta omega where en: "entries = (alpha, beta, omega)" by (cases entries)
  let ?k = "boot_kernel (w_kernel w)" and ?root = "spawn_root_heap (e_alloc e) (e_dealloc e)"
    and ?sp = "spawn_heap (e_alloc e) (e_dealloc e)"
  let ?all = "\<lambda>st. and_then (?root st) (\<lambda>st. and_then (?sp alpha st) (\<lambda>st. and_then (?sp beta st) (?sp omega)))"
  show ?thesis
  proof (cases "held (SCHEDULER (w_kernel w))")
    case True
    then show ?thesis by (simp add: en process_stages_def scheduler_init_def mutex_lock_def)
  next
    case False
    then have init: "scheduler_init (physical_memory_offset bi) (w_kernel w) = Inr ?k"
      by (simp add: scheduler_init_def mutex_lock_def boot_kernel_def)
    have lock: "lock_scheduler ?k = Inr (set_held True ?k)"
      using False by (simp add: lock_scheduler_def mutex_lock_def boot_kernel_facts)
    let ?s = "(w\<lparr>w_kernel := set_held True ?k\<rparr>, buffer_new)"
    define r where "r = ?all (w_heap w, buffer_new, NEXT_PID ?k, \<lparr>processes = [], current_index = 0\<rparr>, w_memory w)"
    have "and_then (spawn_stage ?root ?s) (\<lambda>s. and_then (spawn_stage (?sp alpha) s) (\<lambda>s.
        and_then (spawn_stage (?sp beta) s) (spawn_stage (?sp omega)))) = spawn_stage ?all ?s"
      by (simp add: run_spawn_stages and_then_assoc [symmetric])
    also have "\<dots> = and_then r (\<lambda>(heap, buf, next_pid, sched, m).
        Inr (w\<lparr>w_kernel := locked_table ?k sched next_pid, w_heap := heap, w_memory := m\<rparr>, buf))"
      by (simp add: spawn_stage_def r_def locked_kernel boot_table)
    finally have sp: "and_then (spawn_stage ?root ?s) (\<lambda>s. and_then (spawn_stage (?sp alpha) s) (\<lambda>s.
        and_then (spawn_stage (?sp beta) s) (spawn_stage (?sp omega)))) = \<dots>" .
    have wl: "spawn_workloads (e_alloc e) (e_dealloc e) entries ?k (w_heap w) (w_memory w) =
        and_then r (\<lambda>(heap, buf, next_pid, sched, m). Inr ((set_sched sched ?k)\<lparr>NEXT_PID := next_pid\<rparr>, heap, m))"
      using False by (simp add: spawn_workloads_def en r_def mutex_lock_def boot_kernel_facts and_then_assoc)
    have "run_stages (process_stages e entries bi) (w, buffer_new) =
        and_then (and_then (spawn_stage ?root ?s) (\<lambda>s. and_then (spawn_stage (?sp alpha) s) (\<lambda>s.
          and_then (spawn_stage (?sp beta) s) (spawn_stage (?sp omega)))))
        (run_stages [on_kernel unlock_scheduler,
           on_platform (println [bytes_of ''Starting multi-process testing execution loop!'' @ [0x0A]])])"
      by (simp add: en process_stages_def init lock and_then_assoc run_stages_Cons)
    then show ?thesis unfolding sp
      by (cases r) (auto simp: init wl unlock_scheduler_def locked_kernel boot_kernel_facts False and_then_assoc world_swap)
  qed
qed

lemma kernel_main_stages:
  "and_then (run_stages (boot_stages e entries bi) (w, buffer_new)) (\<lambda>(w, _). Inr w) = kernel_main e entries bi w"
proof -
  have "and_then (run_stages (boot_stages e entries bi) (w, buffer_new)) (\<lambda>(w, _). Inr w) =
     and_then (run_stages (setup_stages e bi) (w, buffer_new)) (\<lambda>s. and_then (run_stages (process_stages e entries bi) s) (\<lambda>(w, _). Inr w))"
    by (simp add: boot_stages_def run_stages_append and_then_assoc)
  also have "\<dots> = kernel_main e entries bi w"
    by (simp add: setup_stages_def segments_stage_def memory_stage_def heap_stage_def run_stages_append run_scan and_then_assoc
        run_process_stages kernel_main_def Let_def world_swap)
  finally show ?thesis .
qed

section \<open>What interrupts can change\<close>

definition calm :: "('p, 'd) platform \<Rightarrow> bool" where
  "calm pl = (\<not> held (PICS pl) \<and> console_ok (WRITER pl))"

definition flags :: "('p, 'd) platform \<Rightarrow> (nat \<rightharpoonup> gate) option \<times> bool" where
  "flags pl = (idt_loaded pl, irq_enabled pl)"

definition agree :: "stack \<Rightarrow> memory \<Rightarrow> memory \<Rightarrow> bool" where
  "agree st m m' = (\<forall>x. \<not> stack_has st x \<longrightarrow> m x = m' x)"

text \<open>
  Two states of start-up that differ at most in the screen, the controllers and devices, and the stack \<open>st\<close> start-up
  runs on.
\<close>

definition same_boot :: "stack \<Rightarrow> ('p, 'd, 'h, 'm, 'page, 'g) world \<Rightarrow> ('p, 'd, 'h, 'm, 'page, 'g) world \<Rightarrow> bool" where
  "same_boot st w v =
     (w_kernel w = w_kernel v \<and> w_paging w = w_paging v \<and> w_heap w = w_heap v \<and> w_segments w = w_segments v \<and>
      w_rtl8139 w = w_rtl8139 v \<and> agree st (w_memory w) (w_memory v) \<and>
      calm (w_platform w) \<and> calm (w_platform v) \<and> flags (w_platform w) = flags (w_platform v))"

definition same_state ::
  "stack \<Rightarrow> ('p, 'd, 'h, 'm, 'page, 'g) boot_state \<Rightarrow> ('p, 'd, 'h, 'm, 'page, 'g) boot_state \<Rightarrow> bool" where
  "same_state st s t = (same_boot st (fst s) (fst t) \<and> snd s = snd t)"

definition insensitive :: "stack \<Rightarrow> ('p, 'd, 'h, 'm, 'page, 'g) boot_state stage \<Rightarrow> bool" where
  "insensitive st f = (\<forall>s t. same_state st s t \<longrightarrow> same_outcome (same_state st) (f s) (f t))"

lemma agree_refl [simp]: "agree st m m" by (simp add: agree_def)

lemma agree_trans: "agree st m m' \<Longrightarrow> agree st m' m'' \<Longrightarrow> agree st m m''" by (simp add: agree_def)

lemma same_state_trans: "same_state st s t \<Longrightarrow> same_state st t u \<Longrightarrow> same_state st s u"
  by (auto simp: same_state_def same_boot_def intro: agree_trans)

lemma same_state_refl: "calm (w_platform w) \<Longrightarrow> same_state st (w, buf) (w, buf)"
  by (simp add: same_state_def same_boot_def)

lemma insensitiveI:
  assumes "\<And>w v buf. same_boot st w v \<Longrightarrow> same_outcome (same_state st) (f (w, buf)) (f (v, buf))"
  shows "insensitive st f"
  using assms by (auto simp: insensitive_def same_state_def)

lemma insensitive_platform:
  assumes "\<And>pl. calm pl \<Longrightarrow> \<exists>pl'. f pl = Inr pl' \<and> calm pl' \<and> flags pl' = g (flags pl)"
  shows "insensitive st (on_platform f)"
proof (rule insensitiveI)
  fix w v :: "('a, 'b, 'c, 'd, 'e, 'f) world" and buf :: table_buffer
  assume s: "same_boot st w v"
  obtain p q where "f (w_platform w) = Inr p" "calm p" "flags p = g (flags (w_platform w))"
    "f (w_platform v) = Inr q" "calm q" "flags q = g (flags (w_platform v))"
    using assms [of "w_platform w"] assms [of "w_platform v"] s by (auto simp: same_boot_def)
  with s show "same_outcome (same_state st) (on_platform f (w, buf)) (on_platform f (v, buf))"
    by (simp add: same_state_def same_boot_def)
qed

lemma insensitive_kernel: "insensitive st (on_kernel f)"
proof (rule insensitiveI)
  fix w v :: "('a, 'b, 'c, 'd, 'e, 'f) world" and buf
  assume "same_boot st w v"
  then show "same_outcome (same_state st) (on_kernel f (w, buf)) (on_kernel f (v, buf))"
    by (cases "f (w_kernel v)") (auto simp: same_state_def same_boot_def)
qed

text \<open>Steps that neither read nor write what interrupts change.\<close>

lemma insensitive_segments: "insensitive st (segments_stage e)"
  by (rule insensitiveI) (auto simp: segments_stage_def same_state_def same_boot_def)

lemma insensitive_heap: "insensitive st (heap_stage e)"
proof (rule insensitiveI, goal_cases)
  case (1 w v buf)
  then show ?case
    by (cases "init_heap (e_heap_init e) (w_heap v)") (auto simp: heap_stage_def same_state_def same_boot_def)
qed

lemma insensitive_memory: "insensitive st (memory_stage e bi)"
proof (rule insensitiveI, goal_cases)
  case (1 w v buf)
  then have v: "w_paging w = w_paging v" by (simp add: same_boot_def)
  show ?case
  proof (cases "e_virt_new e (physical_memory_offset bi)")
    case (Inl x)
    then show ?thesis by (simp add: memory_stage_def)
  next
    case (Inr off)
    with 1 v show ?thesis
      by (cases "init_global_memory e off (memory_map bi) (w_paging v)") (auto simp: memory_stage_def same_state_def same_boot_def)
  qed
qed

lemma println_calm: "calm pl \<Longrightarrow> \<exists>pl'. println args pl = Inr pl' \<and> calm pl' \<and> flags pl' = flags pl"
  using println_ok [of pl args] by (simp add: calm_def console_ok_def flags_def)

lemma check_slot_calm: "calm pl \<Longrightarrow> \<exists>pl'. check_slot io bus slot pl = Inr pl' \<and> calm pl' \<and> flags pl' = flags pl"
proof -
  assume c: "calm pl"
  obtain v pl1 where v: "read32 io 0xCFC (write32 io 0xCF8 (push_bit 31 1 OR push_bit 16 bus OR push_bit 11 slot OR 0x00) pl) = (v, pl1)"
    by (cases "read32 io 0xCFC (write32 io 0xCF8 (push_bit 31 1 OR push_bit 16 bus OR push_bit 11 slot OR 0x00) pl)")
  then have "calm pl1" "flags pl1 = flags pl"
    using c by (auto simp: read32_def write32_def calm_def flags_def split: prod.splits)
  then show ?thesis
    unfolding check_slot_def Let_def v prod.case using println_calm [of pl1] by auto
qed

lemma init_idt_calm:
  "calm pl \<Longrightarrow> \<exists>pl'. init_idt io pics_initialize pl = Inr pl' \<and> calm pl' \<and> flags pl' = (Some IDT, True)"
  by (simp add: init_idt_def mutex_lock_def Let_def calm_def flags_def)

text \<open>Creating a process writes the same bytes to its stack whatever the memory holds elsewhere.\<close>

definition same_spawn :: "stack \<Rightarrow> 's spawn_state \<Rightarrow> 's spawn_state \<Rightarrow> bool" where
  "same_spawn st = (\<lambda>(heap, buf, next_pid, sched, m) (heap', buf', next_pid', sched', m').
     heap = heap' \<and> buf = buf' \<and> next_pid = next_pid' \<and> sched = sched' \<and> agree st m m')"

lemma poke_agree:
  "agree st m m' \<Longrightarrow> fst (poke v (p, m)) = fst (poke v (p, m')) \<and> agree st (snd (poke v (p, m))) (snd (poke v (p, m')))"
  by (simp add: poke_def agree_def store64_def)

lemma pokes_agree:
  "agree st m m' \<Longrightarrow> fst (fold poke vs (p, m)) = fst (fold poke vs (p, m')) \<and>
     agree st (snd (fold poke vs (p, m))) (snd (fold poke vs (p, m')))"
proof (induction vs arbitrary: p m m')
  case Nil
  then show ?case by simp
next
  case (Cons v vs)
  then show ?case using poke_agree [OF Cons.prems, of v p] by (cases "poke v (p, m)"; cases "poke v (p, m')") simp
qed

lemma forge_stack_pokes:
  "forge_stack entry_point (p, m) = and_then (add_chk (p - 16) 16) (\<lambda>stk.
     Inr (fold poke ([0x10, stk, 0x200, 0x08, entry_point] @ replicate 15 0) (p, m)))"
  by (simp add: forge_stack_def Let_def poke_def numeral_eq_Suc)

lemma forge_stack_agree:
  assumes "agree st m m'"
  shows "same_outcome (\<lambda>a b. fst a = fst b \<and> agree st (snd a) (snd b)) (forge_stack entry_point (p, m)) (forge_stack entry_point (p, m'))"
  unfolding forge_stack_pokes
  by (cases "add_chk (p - 16) 16") (simp_all only: and_then_simps same_outcome_simps, use pokes_agree [OF assms] in blast)

lemma spawn_agree:
  assumes "agree st m m'"
  shows "same_outcome (\<lambda>(pid, np, s, m) (pid', np', s', m'). pid = pid' \<and> np = np' \<and> s = s' \<and> agree st m m')
    (spawn b entry_point (next_pid, sched, m)) (spawn b entry_point (next_pid, sched, m'))"
proof (cases b)
  case None
  then show ?thesis by (simp add: spawn_def)
next
  case (Some base)
  have "agree st (zero_fill base STACK_SIZE m) (zero_fill base STACK_SIZE m')" using assms by (simp add: agree_def zero_fill_def)
  from forge_stack_agree [OF this, of entry_point "base + of_nat STACK_SIZE"] Some show ?thesis
    by (cases "forge_stack entry_point (base + of_nat STACK_SIZE, zero_fill base STACK_SIZE m)")
       (auto simp: spawn_def Let_def require_def)
qed

lemma spawn_heap_same:
  assumes "agree st m m'"
  shows "same_outcome (same_spawn st) (spawn_heap alloc dealloc entry_point (heap, buf, np, s, m))
    (spawn_heap alloc dealloc entry_point (heap, buf, np, s, m'))"
proof (cases "alloc heap stack_layout")
  case (Inl x)
  then show ?thesis by (simp add: spawn_heap_def)
next
  case (Inr q)
  obtain heap1 p where q: "q = (heap1, p)" by (cases q)
  let ?P = "push_reserve alloc dealloc (length (processes s)) (heap1, buf)"
  have "same_outcome (same_spawn st)
      (and_then (spawn (if p = 0 then None else Some p) entry_point (np, s, m)) (\<lambda>(pid, np, s', m). and_then ?P (\<lambda>(heap, buf). Inr (heap, buf, np, s', m))))
      (and_then (spawn (if p = 0 then None else Some p) entry_point (np, s, m')) (\<lambda>(pid, np, s', m). and_then ?P (\<lambda>(heap, buf). Inr (heap, buf, np, s', m))))"
    by (rule same_outcome_bind [OF spawn_agree [OF assms]]) (cases ?P; auto simp: same_spawn_def)
  then show ?thesis using Inr q by (simp add: spawn_heap_def)
qed

lemma spawn_root_heap_same:
  assumes "agree st m m'"
  shows "same_outcome (same_spawn st) (spawn_root_heap alloc dealloc (heap, buf, np, s, m)) (spawn_root_heap alloc dealloc (heap, buf, np, s, m'))"
  using assms by (cases "push_reserve alloc dealloc (length (processes s)) (heap, buf)") (auto simp: spawn_root_heap_def same_spawn_def)

lemma insensitive_spawn:
  assumes "\<And>heap buf np s m m'. agree st m m' \<Longrightarrow> same_outcome (same_spawn st) (f (heap, buf, np, s, m)) (f (heap, buf, np, s, m'))"
  shows "insensitive st (spawn_stage f)"
proof (rule insensitiveI, goal_cases)
  case (1 w v buf)
  then have v: "w_heap w = w_heap v" "w_kernel w = w_kernel v" and a: "agree st (w_memory w) (w_memory v)"
    by (simp_all add: same_boot_def)
  show ?case
    unfolding spawn_stage_def prod.case v
    by (rule same_outcome_bind [OF assms [OF a]]) (use 1 in \<open>auto simp: same_spawn_def same_state_def same_boot_def\<close>)
qed

lemma insensitive_stages:
  assumes "f \<in> set (boot_stages e entries bi)"
  shows "insensitive st f"
proof -
  have p: "insensitive st (on_platform (println args))" for args
    using println_calm by (rule insensitive_platform [where g = "\<lambda>x. x"])
  have s: "insensitive st (on_platform (check_slot io bus slot))" for io bus slot
    using check_slot_calm by (rule insensitive_platform [where g = "\<lambda>x. x"])
  have i: "insensitive st (on_platform (init_idt io pics_initialize))" for io pics_initialize
    using init_idt_calm by (rule insensitive_platform [where g = "\<lambda>_. (Some IDT, True)"])
  have b: "insensitive st (on_platform (breakpoint_handler t))" for t
    using p [of "(bytes_of ''EXCEPTION: BREAKPOINT'' @ [0x0A]) # t"] by (simp add: on_platform_def breakpoint_handler_def)
  obtain alpha beta omega where en: "entries = (alpha, beta, omega)" by (cases entries)
  have "\<forall>f\<in>set (setup_stages e bi). insensitive st f"
    by (auto simp: setup_stages_def scan_stages_def p s i b insensitive_segments insensitive_memory insensitive_heap)
  moreover have "\<forall>f\<in>set (process_stages e entries bi). insensitive st f"
    by (simp add: process_stages_def en p insensitive_kernel insensitive_spawn spawn_heap_same spawn_root_heap_same)
  ultimately show ?thesis using assms by (auto simp: boot_stages_def)
qed

section \<open>Interrupts during start-up\<close>

text \<open>No process but the one that starts the kernel can be chosen.\<close>

definition quiet :: "kernel \<Rightarrow> bool" where
  "quiet k = (held (SCHEDULER k) \<or> inner (SCHEDULER k) = None \<or> length (processes (sched_of k)) < 2)"

datatype irq = Tick | Key

definition interrupt ::
  "abi \<Rightarrow> 'd ports \<Rightarrow> (u8 \<Rightarrow> 'p \<Rightarrow> 'p) \<Rightarrow> irq \<Rightarrow> kernel \<times> ('p, 'd) platform \<times> cpu \<Rightarrow> (kernel \<times> ('p, 'd) platform \<times> cpu) result" where
  "interrupt abi io notify i = (case i of Tick \<Rightarrow> timer_interrupt_handler abi notify | Key \<Rightarrow> keyboard_interrupt_handler abi io notify)"

lemma quiet_irq:
  assumes "abi_ok depth abi" and "quiet k" and "calm pl" and "stack_wf st" "room depth st (regs c RSP)"
  shows "\<exists>pl' c'. interrupt abi io notify i (k, pl, deliver h c) = Inr (k, pl', c') \<and> arch c' = arch c \<and>
    agree st (mem c') (mem c) \<and> calm pl' \<and> flags pl' = flags pl"
proof -
  have d: "depth + 160 \<le> 2 ^ 64" using assms(5) unat_lt_usize [of "regs c RSP"] by (simp add: room_def)
  have area: "interrupt_area depth c x \<Longrightarrow> stack_has st x" for x by (rule room_area(2) [OF assms(4,5)])
  have sw: "\<exists>c'. switch_frames f abi k (deliver h c) = Inr (k, c') \<and> arch c' = arch c \<and> agree st (mem c') (mem c)" for f
    using switch_frames_stay [OF assms(1) d assms(2) [unfolded quiet_def], of f h c] area unfolding agree_def by metis
  obtain scancode d where d: "in8 io 0x60 (devices pl) = (scancode, d)" by (cases "in8 io 0x60 (devices pl)")
  show ?thesis
  proof (cases i)
    case Tick
    then show ?thesis using sw [of SignalEoi] assms(3)
      by (auto simp: interrupt_def timer_interrupt_handler_eq signal_eoi_def end_of_interrupt_def mutex_lock_def calm_def flags_def)
  next
    case Key
    then show ?thesis using sw [of HandleKeyboardIoAndEoi] assms(3) keyboard_io [OF _ _ d, of notify] println_ok(2) [of pl]
      by (auto simp: interrupt_def keyboard_interrupt_handler_eq calm_def flags_def console_ok_def)
  qed
qed

text \<open>
  Between two steps the code of start-up may have used its own stack, and an interrupt may have come in, with any contents
  of the registers that leave room on that stack, once interrupts are enabled and until the scheduler's lock is given
  back: two steps are left then.
\<close>

inductive boot_disturbed ::
  "abi \<Rightarrow> (u8 \<Rightarrow> 'p \<Rightarrow> 'p) \<Rightarrow> 'd ports \<Rightarrow> nat \<Rightarrow> stack \<Rightarrow> ('p, 'd, 'h, 'm, 'page, 'g) boot_state stage list \<Rightarrow>
   ('p, 'd, 'h, 'm, 'page, 'g) boot_state \<Rightarrow> ('p, 'd, 'h, 'm, 'page, 'g) boot_state \<Rightarrow> bool"
  for abi notify io depth st fs where
  own_stack: "agree st m (w_memory w) \<Longrightarrow>
    boot_disturbed abi notify io depth st fs (w, buf) (w\<lparr>w_memory := m\<rparr>, buf)"
| interrupt: "2 \<le> length fs \<Longrightarrow> irq_enabled (w_platform w) \<Longrightarrow> mem c = w_memory w \<Longrightarrow> room depth st (regs c RSP) \<Longrightarrow>
    interrupt abi io notify i (w_kernel w, w_platform w, deliver h c) = Inr (k, pl, c') \<Longrightarrow>
    boot_disturbed abi notify io depth st fs (w, buf) (w\<lparr>w_kernel := k, w_platform := pl, w_memory := mem c'\<rparr>, buf)"

text \<open>The state of the scheduler when \<open>n\<close> steps are left.\<close>

definition scheduler_at :: "nat \<Rightarrow> kernel \<Rightarrow> bool" where
  "scheduler_at n k =
     (if 8 \<le> n then inner (SCHEDULER k) = None
      else if n = 7 then processes (sched_of k) = []
      else if 2 \<le> n then held (SCHEDULER k) else True)"

definition boot_inv ::
  "abi \<Rightarrow> nat \<Rightarrow> stack \<Rightarrow> ('p, 'd, 'h, 'm, 'va, 'g) env \<Rightarrow> u64 \<times> u64 \<times> u64 \<Rightarrow> boot_info \<Rightarrow>
   ('p, 'd, 'h, 'm, 'page, 'g) boot_state stage list \<Rightarrow> ('p, 'd, 'h, 'm, 'page, 'g) boot_state \<Rightarrow> bool" where
  "boot_inv abi depth st e entries bi fs s =
     (abi_ok depth abi \<and> stack_wf st \<and> suffix fs (boot_stages e entries bi) \<and> calm (w_platform (fst s)) \<and>
      scheduler_at (length fs) (w_kernel (fst s)))"

lemma scheduler_at_quiet: "scheduler_at n k \<Longrightarrow> 2 \<le> n \<Longrightarrow> quiet k"
  by (auto simp: scheduler_at_def quiet_def split: if_splits)

lemma length_process_stages [simp]: "length (process_stages e entries bi) = 8"
  by (simp add: process_stages_def split_def)

lemma setup_keeps_kernel:
  assumes "f \<in> set (setup_stages e bi)" and "f s = Inr s'"
  shows "w_kernel (fst s') = w_kernel (fst s)"
proof -
  obtain w buf where s: "s = (w, buf)" by (cases s)
  show ?thesis
    using assms unfolding s
    by (auto simp: setup_stages_def scan_stages_def segments_stage_def memory_stage_def heap_stage_def and_then_eq_Inr)
qed

lemma process_stages_scheduler:
  assumes "suffix (f # fs) (process_stages e entries bi)" and "scheduler_at (length (f # fs)) (w_kernel (fst s))" and "f s = Inr s'"
  shows "scheduler_at (length fs) (w_kernel (fst s'))"
proof -
  obtain w buf where s: "s = (w, buf)" by (cases s)
  obtain alpha beta omega where en: "entries = (alpha, beta, omega)" by (cases entries)
  show ?thesis
    using assms unfolding s
    by (auto simp: en process_stages_def suffix_Cons scheduler_at_def and_then_eq_Inr scheduler_init_def lock_scheduler_def
        unlock_scheduler_def spawn_stage_def sched_of_def)
qed

lemma stage_scheduler:
  assumes "suffix (f # fs) (boot_stages e entries bi)" and "scheduler_at (length (f # fs)) (w_kernel (fst s))" and "f s = Inr s'"
  shows "scheduler_at (length fs) (w_kernel (fst s'))"
proof -
  from assms(1) consider "suffix (f # fs) (process_stages e entries bi)"
    | us where "f # fs = us @ process_stages e entries bi" "suffix us (setup_stages e bi)" "us \<noteq> []"
    unfolding boot_stages_def suffix_append by (metis append_Nil suffix_order.order_refl)
  then show ?thesis
  proof cases
    case 1
    then show ?thesis using assms(2,3) by (rule process_stages_scheduler)
  next
    case 2
    then obtain vs where us: "us = f # vs" "fs = vs @ process_stages e entries bi" by (cases us) auto
    then have "f \<in> set (setup_stages e bi)" using 2(2) set_mono_suffix by fastforce
    from setup_keeps_kernel [OF this assms(3)] show ?thesis using assms(2) us by (simp add: scheduler_at_def)
  qed
qed

lemma boot_inv_stage:
  assumes "boot_inv abi depth st e entries bi (f # fs) s"
  shows "insensitive st f" and "f s = Inr s' \<Longrightarrow> boot_inv abi depth st e entries bi fs s'"
proof -
  have "f \<in> set (boot_stages e entries bi)" using assms set_mono_suffix by (fastforce simp: boot_inv_def)
  then show i: "insensitive st f" by (rule insensitive_stages)
  assume s': "f s = Inr s'"
  have "same_state st s s" using assms by (cases s) (simp add: boot_inv_def same_state_refl)
  then have "same_outcome (same_state st) (f s) (f s)" using i unfolding insensitive_def by blast
  then have "calm (w_platform (fst s'))" using s' by (simp add: same_state_def same_boot_def)
  moreover have "suffix fs (boot_stages e entries bi)" using assms by (auto simp: boot_inv_def dest: suffix_ConsD)
  ultimately show "boot_inv abi depth st e entries bi fs s'" using assms stage_scheduler [of f fs e entries bi s s'] s' by (simp add: boot_inv_def)
qed

lemma boot_inv_disturbed:
  assumes "boot_inv abi depth st e entries bi fs s" and "boot_disturbed abi notify io depth st fs s s'"
  shows "w_kernel (fst s') = w_kernel (fst s) \<and> same_state st s' s"
  using assms(2,1)
proof cases
  case (own_stack m w buf)
  then show ?thesis using assms(1) by (simp add: boot_inv_def same_state_def same_boot_def)
next
  case (interrupt w c i h k pl c' buf)
  have ok: "abi_ok depth abi" "quiet (w_kernel w)" "calm (w_platform w)" "stack_wf st"
    using assms(1) interrupt(1,3) scheduler_at_quiet by (auto simp: boot_inv_def)
  from quiet_irq [OF this interrupt(6), of io notify i h] show ?thesis
    using interrupt ok(3) by (auto simp: same_state_def same_boot_def)
qed

interpretation boot: undisturbed "same_state st" "boot_inv abi depth st e entries bi" "boot_disturbed abi notify io depth st"
  for abi notify io depth st e entries bi
proof
  show "same_state st s t \<Longrightarrow> same_state st t u \<Longrightarrow> same_state st s u" for s t u by (rule same_state_trans)
  show "boot_inv abi depth st e entries bi fs s \<Longrightarrow> same_state st s s" for fs s
    by (cases s) (simp add: boot_inv_def same_state_refl)
  show "boot_inv abi depth st e entries bi (f # fs) s \<Longrightarrow> f s = Inr s' \<Longrightarrow> boot_inv abi depth st e entries bi fs s'" for f fs s s'
    by (rule boot_inv_stage(2))
  show "boot_inv abi depth st e entries bi (f # fs) s \<Longrightarrow> same_state st t s \<Longrightarrow> same_outcome (same_state st) (f t) (f s)" for f fs s t
    using boot_inv_stage(1) unfolding insensitive_def by blast
  show "boot_inv abi depth st e entries bi fs s \<Longrightarrow> boot_disturbed abi notify io depth st fs s s' \<Longrightarrow>
      boot_inv abi depth st e entries bi fs s'" for fs s s'
    using boot_inv_disturbed [of abi depth st e entries bi fs s notify io s'] by (auto simp: boot_inv_def same_state_def same_boot_def)
  show "boot_inv abi depth st e entries bi fs s \<Longrightarrow> boot_disturbed abi notify io depth st fs s s' \<Longrightarrow> same_state st s' s" for fs s s'
    using boot_inv_disturbed by blast
qed

text \<open>Finishing start-up from any point.\<close>

lemma boot_inv_start:
  assumes "abi_ok depth abi" and "stack_wf st" and "inner (SCHEDULER (w_kernel w0)) = None"
    and "\<not> held (PICS (w_platform w0))" and "console_ok (WRITER (w_platform w0))"
  shows "boot_inv abi depth st e entries bi (boot_stages e entries bi) (w0, buffer_new)"
  using assms by (simp add: boot_inv_def calm_def scheduler_at_def boot_stages_def)

lemma interleaved_outcome:
  assumes "interleaved (boot_disturbed abi notify io depth st) (boot_stages e entries bi) (w0, buffer_new) fs s"
    and "boot_inv abi depth st e entries bi (boot_stages e entries bi) (w0, buffer_new)"
  shows "same_outcome (same_boot st) (and_then (run_stages fs s) (\<lambda>(w, _). Inr w)) (kernel_main e entries bi w0)"
  unfolding kernel_main_stages [symmetric]
  by (rule same_outcome_bind [OF boot.interleaved_same [OF assms]]) (auto simp: same_state_def)

text \<open>What an interrupted start-up leaves is as good a start for the processes.\<close>

lemma same_boot_runs:
  assumes r: "runs abi notify io depth (w_kernel v) (w_platform v) (c\<lparr>mem := w_memory v\<rparr>) snap sts"
    and same: "same_boot (sts ! 0) w v" and cur: "cur (w_kernel v) = 0" and abi: "abi_ok depth abi" "depth + 176 \<le> STACK_SIZE"
  shows "runs abi notify io depth (w_kernel w) (w_platform w) (c\<lparr>mem := w_memory w\<rparr>) snap sts"
proof -
  note K = system_okD [OF runs_system_ok [OF r abi]]
  have k: "w_kernel w = w_kernel v" and m: "agree (sts ! 0) (w_memory w) (w_memory v)" using same by (simp_all add: same_boot_def)
  have "w_memory w x = w_memory v x" if "j < length sts" "j \<noteq> 0" "stack_has (sts ! j) x" for j x
    using stacks_disjoint [OF K(4) that(1) K(6) [unfolded cur] that(2,3)] m by (simp add: agree_def)
  then show ?thesis
    unfolding k using K(5) cur by (intro runs.compute [OF r]) auto
qed

lemma interrupted_boot_ok:
  fixes w0 :: "('p, 'd, 'h, 'm, 'page, 'g) world"
  assumes boot: "bootable e bi w0 off va sts" and none: "inner (SCHEDULER (w_kernel w0)) = None"
    and room: "room depth (sts ! 0) (regs c RSP)" and abi: "abi_ok depth abi" "depth + 176 \<le> STACK_SIZE"
    and il: "interleaved (boot_disturbed abi notify io depth (sts ! 0)) (boot_stages e (alpha, beta, omega) bi) (w0, buffer_new) fs s"
  shows "\<exists>w' buf. run_stages fs s = Inr (w', buf) \<and> ready (w_platform w') \<and>
    \<not> held (SCHEDULER (w_kernel w')) \<and> cur (w_kernel w') = 0 \<and> map proc_id (processes (sched_of (w_kernel w'))) = [0, 1, 2, 3] \<and>
    runs abi notify io depth (w_kernel w') (w_platform w') (c\<lparr>mem := w_memory w'\<rparr>) (workload_frames alpha beta omega sts) sts"
proof -
  have mem: "w_memory w0 = mem (c\<lparr>mem := w_memory w0\<rparr>)" and room': "room depth (sts ! 0) (regs (c\<lparr>mem := w_memory w0\<rparr>) RSP)"
    using room by simp_all
  obtain v where v: "kernel_main e (alpha, beta, omega) bi w0 = Inr v" "ready (w_platform v)" "\<not> held (SCHEDULER (w_kernel v))"
    "cur (w_kernel v) = 0" "map proc_id (processes (sched_of (w_kernel v))) = [0, 1, 2, 3]"
    "runs abi notify io depth (w_kernel v) (w_platform v) (c\<lparr>mem := w_memory v\<rparr>) (workload_frames alpha beta omega sts) sts"
    using kernel_main_ok [OF boot mem room', of alpha beta omega abi notify io] by (elim exE conjE) (rule that, simp_all)
  have st: "stack_wf (sts ! 0)" "\<not> held (PICS (w_platform w0))" "console_ok (WRITER (w_platform w0))"
    using boot by (auto simp: bootable_def boot_ready_def stacks_ok_def list_all_length split: sum.splits)
  from interleaved_outcome [OF il boot_inv_start [OF abi(1) st(1) none st(2,3)]] obtain w' buf where
    w': "run_stages fs s = Inr (w', buf)" "same_boot (sts ! 0) w' v"
    unfolding v(1) by (auto simp: and_then_eq_Inr)
  moreover have "ready (w_platform w')" using v(2) w'(2) by (simp add: ready_def same_boot_def calm_def flags_def)
  moreover note same_boot_runs [OF v(6) w'(2) v(4) abi]
  ultimately show ?thesis using v(3-5) by (auto simp: same_boot_def)
qed

text \<open>
  C7 (interrupted_boot): timer and keyboard interrupts during start-up, at any of its steps and any number of times, do not
  change its outcome. Wherever start-up has got to, with whatever interrupts so far, every interrupt returns to the interrupted
  code with all registers as they were and the scheduler untouched, as long as the lock under which the processes are created is
  not given back yet, and going on from there ends as \<^verbatim>\<open>kernel_main\<close> ends without any interrupt: with the same failure, or
  with the same scheduler, page tables, heap and segments and the same memory outside the stack start-up runs on; only
  what is on the screen and the state of the controllers and devices may differ.
\<close>

theorem interrupted_boot:
  fixes w0 :: "('p, 'd, 'h, 'm, 'page, 'g) world"
  assumes "abi_ok depth abi" and "stack_wf st" and "inner (SCHEDULER (w_kernel w0)) = None"
    and "\<not> held (PICS (w_platform w0))" and "console_ok (WRITER (w_platform w0))"
    and "interleaved (boot_disturbed abi notify io depth st) (boot_stages e entries bi) (w0, buffer_new) fs (w, buf)"
  shows "same_outcome (same_boot st) (and_then (run_stages fs (w, buf)) (\<lambda>(w, _). Inr w)) (kernel_main e entries bi w0) \<and>
    (2 \<le> length fs \<longrightarrow> (\<forall>i h c. mem c = w_memory w \<longrightarrow> room depth st (regs c RSP) \<longrightarrow>
      (\<exists>pl c'. interrupt abi io notify i (w_kernel w, w_platform w, deliver h c) = Inr (w_kernel w, pl, c') \<and>
        arch c' = arch c \<and> agree st (mem c') (w_memory w))))"
proof -
  note start = boot_inv_start [OF assms(1-5), of e entries bi]
  have "boot_inv abi depth st e entries bi fs (w, buf)" using assms(6) start by (rule boot.interleaved_inv)
  then have "2 \<le> length fs \<Longrightarrow> quiet (w_kernel w)" "calm (w_platform w)"
    using scheduler_at_quiet by (auto simp: boot_inv_def)
  then show ?thesis
    using interleaved_outcome [OF assms(6) start] quiet_irq [OF assms(1) _ _ assms(2)] by metis
qed

text \<open>An example: a tick right behind \<^verbatim>\<open>init_idt\<close>.\<close>

abbreviation example_stages :: "(u8 list, unit, linked_list_allocator, unit, u64, nat) boot_state stage list" where
  "example_stages \<equiv> boot_stages example_env (0x2000, 0x3000, 0x4000) example_boot_info"

definition example_ticked ::
  "(u8 list, unit) platform \<Rightarrow> memory \<Rightarrow> (u8 list, unit, linked_list_allocator, unit, u64, nat) world" where
  "example_ticked pl m = example_world\<lparr>w_segments := gdt_init (e_gdt example_env) (w_segments example_world),
     w_kernel := kernel_statics, w_platform := pl, w_memory := m\<rparr>"

lemma example_world_facts:
  "w_kernel example_world = kernel_statics" "inner (SCHEDULER (w_kernel example_world)) = None"
  "\<not> held (PICS (w_platform example_world))" "console_ok (WRITER (w_platform example_world))"
  using example_platform_ok by (simp_all add: example_world_def kernel_statics_def)

lemma example_tick:
  "\<exists>pl1 pl2 c'. init_idt (e_io example_env) (e_pics_initialize example_env) (w_platform example_world) = Inr pl1 \<and>
     timer_interrupt_handler example_abi (#) (kernel_statics, pl1, deliver 0x5000 example_cpu) = Inr (kernel_statics, pl2, c') \<and>
     interleaved (boot_disturbed example_abi (#) example_ports 1000 (0x80000, 0x10000)) example_stages (example_world, buffer_new)
       (drop 2 example_stages) (example_ticked pl2 (mem c'), buffer_new)"
proof -
  let ?e = "example_env" and ?w = "example_world" and ?st = "(0x80000, 0x10000)" and ?fs = example_stages
  let ?D = "boot_disturbed example_abi (#) example_ports 1000 ?st"
  have st: "stack_wf ?st" "room 1000 ?st (regs example_cpu RSP)" by (simp_all add: stack_wf_def room_def example_cpu_def)
  have "calm (w_platform ?w)" using example_world_facts by (simp add: calm_def)
  from init_idt_calm [OF this] obtain pl1 where
    pl1: "init_idt (e_io ?e) (e_pics_initialize ?e) (w_platform ?w) = Inr pl1" "calm pl1" "irq_enabled pl1"
    by (auto simp: flags_def)
  have "quiet kernel_statics" by (simp add: quiet_def kernel_statics_def)
  from quiet_irq [OF example_abi_ok this pl1(2) st, of example_ports "(#)" Tick "0x5000"] obtain pl2 c' where
    t: "timer_interrupt_handler example_abi (#) (kernel_statics, pl1, deliver 0x5000 example_cpu) = Inr (kernel_statics, pl2, c')"
    by (auto simp: interrupt_def)
  let ?seg = "?w\<lparr>w_segments := gdt_init (e_gdt ?e) (w_segments ?w)\<rparr>"
  have fs: "?fs = segments_stage ?e # on_platform (init_idt (e_io ?e) (e_pics_initialize ?e)) # drop 2 ?fs"
    by (simp add: boot_stages_def setup_stages_def)
  have two: "2 \<le> length (drop 2 ?fs)" by (simp add: boot_stages_def setup_stages_def)
  have "interleaved ?D ?fs (?w, buffer_new) (segments_stage ?e # on_platform (init_idt (e_io ?e) (e_pics_initialize ?e)) # drop 2 ?fs)
      (?w, buffer_new)"
    using interleaved.start [of ?D ?fs "(?w, buffer_new)"] unfolding fs [symmetric] .
  then have "interleaved ?D ?fs (?w, buffer_new) (on_platform (init_idt (e_io ?e) (e_pics_initialize ?e)) # drop 2 ?fs) (?seg, buffer_new)"
    by (rule interleaved.stage) (simp add: segments_stage_def)
  then have r: "interleaved ?D ?fs (?w, buffer_new) (drop 2 ?fs) (?seg\<lparr>w_platform := pl1\<rparr>, buffer_new)"
    by (rule interleaved.stage) (simp add: pl1(1))
  have "?D (drop 2 ?fs) (?seg\<lparr>w_platform := pl1\<rparr>, buffer_new)
      (?seg\<lparr>w_platform := pl1\<rparr>\<lparr>w_kernel := kernel_statics, w_platform := pl2, w_memory := mem c'\<rparr>, buffer_new)"
    by (rule boot_disturbed.interrupt [where c = example_cpu and i = Tick and h = "0x5000"])
       (use two t pl1(3) st(2) example_room(2) example_world_facts(1) in \<open>simp_all add: interrupt_def\<close>)
  from interleaved.disturb [OF r this] have
    "interleaved ?D ?fs (?w, buffer_new) (drop 2 ?fs) (example_ticked pl2 (mem c'), buffer_new)" by (simp add: example_ticked_def)
  then show ?thesis using pl1(1) t by (intro exI conjI)
qed

lemma example_interrupted:
  obtains pl m where "interleaved (boot_disturbed example_abi (#) example_ports 1000 (example_stacks ! 0)) example_stages
    (example_world, buffer_new) (drop 2 example_stages) (example_ticked pl m, buffer_new)"
proof -
  have "example_stacks ! 0 = (0x80000, 0x10000)" by (simp add: example_stacks_def boot_stacks_def)
  then show ?thesis using example_tick that by metis
qed

lemma example_boots:
  "\<exists>w'. kernel_main example_env (0x2000, 0x3000, 0x4000) example_boot_info example_world = Inr w' \<and>
     map proc_id (processes (sched_of (w_kernel w'))) = [0, 1, 2, 3]"
  using kernel_main_ok [OF example_bootable example_room(2,1), of "0x2000" "0x3000" "0x4000" example_abi "(#)" example_ports]
  by (elim exE conjE) (intro exI conjI)

theorem interrupted_boot_witness:
  "\<exists>pl1 pl2 c' v buf. init_idt (e_io example_env) (e_pics_initialize example_env) (w_platform example_world) = Inr pl1 \<and>
     timer_interrupt_handler example_abi (#) (kernel_statics, pl1, deliver 0x5000 example_cpu) = Inr (kernel_statics, pl2, c') \<and>
     run_stages (drop 2 example_stages) (example_ticked pl2 (mem c'), buffer_new) = Inr (v, buf) \<and>
     map proc_id (processes (sched_of (w_kernel v))) = [0, 1, 2, 3]"
proof -
  obtain pl1 pl2 c' where t: "init_idt (e_io example_env) (e_pics_initialize example_env) (w_platform example_world) = Inr pl1"
    "timer_interrupt_handler example_abi (#) (kernel_statics, pl1, deliver 0x5000 example_cpu) = Inr (kernel_statics, pl2, c')"
    "interleaved (boot_disturbed example_abi (#) example_ports 1000 (0x80000, 0x10000)) example_stages (example_world, buffer_new)
       (drop 2 example_stages) (example_ticked pl2 (mem c'), buffer_new)"
    using example_tick by blast
  have st: "stack_wf (0x80000, 0x10000)" by (simp add: stack_wf_def)
  from interrupted_boot [OF example_abi_ok st example_world_facts(2-4) t(3)] example_boots obtain v buf where
    "run_stages (drop 2 example_stages) (example_ticked pl2 (mem c'), buffer_new) = Inr (v, buf)"
    "map proc_id (processes (sched_of (w_kernel v))) = [0, 1, 2, 3]"
    by (auto simp: and_then_eq_Inr same_boot_def)
  with t(1,2) show ?thesis by (intro exI conjI)
qed

end
