(* ===== verification/Workloads.thy ===== *)
theory Workloads
  imports Interrupted_Boot
begin

text \<open>
  What runs after start-up (\<^verbatim>\<open>main.rs\<close> and the end of \<^verbatim>\<open>interrupt/handlers.rs\<close>): the three workloads, the loops that
  never return, \<^verbatim>\<open>dummy_main_process\<close>; and the composition of the workloads with the scheduler, the interrupt
  handlers, the processor and the console. A workload prints with interrupts masked, so a print is one
  step; each iteration of its busy loop is another, and interrupts come between any two steps. What the
  steps of a slice do to registers and stack is any function that keeps off the other stacks; what they
  do to the console follows the code.
\<close>

section \<open>The workloads\<close>

text \<open>\<^verbatim>\<open>core::hint::spin_loop\<close> and \<^verbatim>\<open>hlt\<close> change nothing the model tracks.\<close>

definition spin_loop :: "'s \<Rightarrow> 's result" where
  "spin_loop s = Inr s"

definition hlt :: "'s \<Rightarrow> 's result" where
  "hlt s = Inr s"

definition SPINS :: nat where
  "SPINS = 50000"

definition process_turn :: "string \<Rightarrow> ('p, 'd) platform \<Rightarrow> ('p, 'd) platform result" where
  "process_turn letter pl =
     and_then (without_interrupts (print [bytes_of letter]) pl) (for_loop [0..<SPINS] (\<lambda>_. spin_loop))"

definition process_alpha_turn :: "('p, 'd) platform \<Rightarrow> ('p, 'd) platform result" where
  "process_alpha_turn = process_turn ''A''"

definition process_alpha :: "('p, 'd) platform \<Rightarrow> fault option" where
  "process_alpha = loop_forever process_alpha_turn"

definition process_beta_turn :: "('p, 'd) platform \<Rightarrow> ('p, 'd) platform result" where
  "process_beta_turn = process_turn ''B''"

definition process_beta :: "('p, 'd) platform \<Rightarrow> fault option" where
  "process_beta = loop_forever process_beta_turn"

definition process_omega_turn :: "('p, 'd) platform \<Rightarrow> ('p, 'd) platform result" where
  "process_omega_turn = process_turn ''C''"

definition process_omega :: "('p, 'd) platform \<Rightarrow> fault option" where
  "process_omega = loop_forever process_omega_turn"

definition hlt_loop :: "'s \<Rightarrow> fault option" where
  "hlt_loop = loop_forever hlt"

definition panic_handler :: "'s \<Rightarrow> fault option" where
  "panic_handler = loop_forever Inr"

section \<open>Their steps\<close>

datatype point = AtPrint | Spinning nat

fun process_step :: "string \<Rightarrow> point \<times> ('p, 'd) platform \<Rightarrow> (point \<times> ('p, 'd) platform) result" where
  "process_step letter (AtPrint, pl) =
     and_then (without_interrupts (print [bytes_of letter]) pl) (\<lambda>pl. Inr (Spinning 0, pl))"
| "process_step letter (Spinning i, pl) =
     (if i < SPINS then and_then (spin_loop pl) (\<lambda>pl. Inr (Spinning (Suc i), pl)) else Inr (AtPrint, pl))"

abbreviation terminal :: "u8 list \<Rightarrow> writer \<Rightarrow> writer" where
  "terminal \<equiv> fold (\<lambda>c. spec_byte (sanitize c))"

text \<open>The position of a point in the loop, whose period is one print, the spins and the exit of the inner loop.\<close>

definition PERIOD :: nat where
  "PERIOD = SPINS + 2"

fun position :: "point \<Rightarrow> nat" where
  "position AtPrint = 0"
| "position (Spinning i) = Suc i"

definition prints_by :: "nat \<Rightarrow> nat" where
  "prints_by t = (t + SPINS + 1) div PERIOD"

definition set_screen :: "writer \<Rightarrow> ('p, 'd) platform \<Rightarrow> ('p, 'd) platform" where
  "set_screen w pl = pl\<lparr>WRITER := (WRITER pl)\<lparr>inner := w\<rparr>\<rparr>"

lemma for_loop_spin: "for_loop xs (\<lambda>_. spin_loop) s = Inr s"
  by (induction xs) (simp_all add: spin_loop_def)

lemma masked_print_ok:
  assumes "console_ok (WRITER pl)"
  shows "without_interrupts (print [bs]) pl = Inr (set_screen (terminal bs (inner (WRITER pl))) pl)"
    "writer_wf (terminal bs (inner (WRITER pl)))"
proof -
  obtain w where w: "print_args [bs] (WRITER pl) = Inr ((WRITER pl)\<lparr>inner := w\<rparr>)" "w = terminal bs (inner (WRITER pl))" "writer_wf w"
    using print_args_ok [of "WRITER pl" "[bs]"] assms by (auto simp: console_ok_def)
  then show "without_interrupts (print [bs]) pl = Inr (set_screen (terminal bs (inner (WRITER pl))) pl)"
    "writer_wf (terminal bs (inner (WRITER pl)))"
    by (simp_all add: without_interrupts_def print_eq set_screen_def)
qed

lemma set_screen_simps [simp]:
  "inner (WRITER (set_screen w pl)) = w" "PICS (set_screen w pl) = PICS pl" "devices (set_screen w pl) = devices pl"
  "set_screen w (set_screen w' pl) = set_screen w pl" "set_screen (inner (WRITER pl)) pl = pl"
  "held (WRITER (set_screen w pl)) = held (WRITER pl)"
  by (simp_all add: set_screen_def)

lemma console_ok_set_screen: "console_ok (WRITER pl) \<Longrightarrow> console_ok (WRITER (set_screen w pl)) = writer_wf w"
  by (simp add: console_ok_def)

lemma process_step_ok:
  assumes "console_ok (WRITER pl)" and "position p < PERIOD"
  shows "\<exists>p'. process_step letter (p, pl) =
      Inr (p', set_screen (terminal (if position p = 0 then bytes_of letter else []) (inner (WRITER pl))) pl) \<and>
    position p' = Suc (position p) mod PERIOD \<and>
    writer_wf (terminal (if position p = 0 then bytes_of letter else []) (inner (WRITER pl)))"
proof (cases p)
  case AtPrint
  then show ?thesis using masked_print_ok [OF assms(1)] by (simp add: PERIOD_def SPINS_def)
next
  case (Spinning i)
  then show ?thesis using assms by (auto simp: spin_loop_def PERIOD_def console_ok_def mod_Suc)
qed

lemma ceiling_div_Suc: "(Suc t + m) div Suc m = (t + m) div Suc m + (if t mod Suc m = 0 then 1 else 0)" for t m :: nat
proof -
  define q r where "q = t div Suc m" and "r = t mod Suc m"
  have t: "t = q * Suc m + r" "r \<le> m" using mod_less_divisor [of "Suc m" t] by (simp_all add: q_def r_def del: mult_Suc_right)
  have "(q * Suc m + x) div Suc m = q + x div Suc m" for x by (rule div_mult_self3) simp
  then have "(t + m) div Suc m = q + (r + m) div Suc m" "(Suc t + m) div Suc m = q + Suc (r + m) div Suc m"
    using t(1) by (metis add.assoc add_Suc_right add_Suc)+
  moreover have "(r + m) div Suc m = (if r = 0 then 0 else 1)" "Suc (r + m) div Suc m = 1"
    using t(2) by (auto simp: div_nat_eqI)
  ultimately show ?thesis by (simp add: r_def)
qed

lemma prints_by_Suc: "prints_by (Suc t) = prints_by t + (if t mod PERIOD = 0 then 1 else 0)"
  using ceiling_div_Suc [of t "SPINS + 1"] by (simp add: prints_by_def PERIOD_def)

text \<open>Steps of a process that has made \<open>t\<close> steps already.\<close>

lemma process_steps_ok:
  assumes "console_ok (WRITER pl)" and "position p = t mod PERIOD"
  shows "\<exists>p'. for_loop [0..<n] (\<lambda>_. process_step letter) (p, pl) =
      Inr (p', set_screen (terminal (concat (replicate (prints_by (t + n) - prints_by t) (bytes_of letter))) (inner (WRITER pl))) pl) \<and>
    position p' = (t + n) mod PERIOD \<and> prints_by t \<le> prints_by (t + n) \<and>
    writer_wf (terminal (concat (replicate (prints_by (t + n) - prints_by t) (bytes_of letter))) (inner (WRITER pl)))"
proof (induction n)
  case 0
  then show ?case using assms by (simp add: console_ok_def)
next
  case (Suc n)
  let ?w = "terminal (concat (replicate (prints_by (t + n) - prints_by t) (bytes_of letter))) (inner (WRITER pl))"
  obtain p1 where p1: "for_loop [0..<n] (\<lambda>_. process_step letter) (p, pl) = Inr (p1, set_screen ?w pl)"
    "position p1 = (t + n) mod PERIOD" "prints_by t \<le> prints_by (t + n)" "writer_wf ?w"
    using Suc.IH by blast
  have P: "console_ok (WRITER (set_screen ?w pl))" "position p1 < PERIOD"
    using p1(2,4) assms(1) by (simp_all add: console_ok_set_screen PERIOD_def)
  let ?new = "if position p1 = 0 then bytes_of letter else []"
  obtain p2 where p2: "process_step letter (p1, set_screen ?w pl) = Inr (p2, set_screen (terminal ?new ?w) pl)"
    "position p2 = Suc (position p1) mod PERIOD" "writer_wf (terminal ?new ?w)"
    using process_step_ok [OF P, of letter] by auto
  have d: "prints_by (t + Suc n) - prints_by t = prints_by (t + n) - prints_by t + (if position p1 = 0 then 1 else 0)"
    "prints_by t \<le> prints_by (t + Suc n)"
    using prints_by_Suc [of "t + n"] p1(2,3) by auto
  have "concat (replicate (prints_by (t + Suc n) - prints_by t) (bytes_of letter)) =
      concat (replicate (prints_by (t + n) - prints_by t) (bytes_of letter)) @ ?new"
    unfolding d(1) by (simp add: replicate_add)
  then have w: "terminal (concat (replicate (prints_by (t + Suc n) - prints_by t) (bytes_of letter))) (inner (WRITER pl)) =
      terminal ?new ?w" by simp
  show ?case
    unfolding w using p1(1,2) p2 d(2) by (simp add: for_loop_append mod_Suc_eq)
qed

lemma spin_steps: "n \<le> SPINS \<Longrightarrow> for_loop [0..<n] (\<lambda>_. process_step letter) (Spinning 0, pl) = Inr (Spinning n, pl)"
  by (induction n) (simp_all add: for_loop_append spin_loop_def)

text \<open>
  The single steps between which an interrupt may come, taken one after the
  other for one period, are one pass of the source's loop body: the print and the whole inner loop.
\<close>

theorem process_turn_steps:
  "for_loop [0..<PERIOD] (\<lambda>_. process_step letter) (AtPrint, pl) =
     and_then (process_turn letter pl) (\<lambda>pl'. Inr (AtPrint, pl'))"
proof -
  have "for_loop [0..<PERIOD] (\<lambda>_. process_step letter) (AtPrint, pl) =
      and_then (process_step letter (AtPrint, pl)) (for_loop (map Suc [0..<Suc SPINS]) (\<lambda>_. process_step letter))"
    by (simp add: PERIOD_def upt_conv_Cons map_Suc_upt del: upt_Suc)
  also have "\<dots> = and_then (process_step letter (AtPrint, pl)) (for_loop [0..<Suc SPINS] (\<lambda>_. process_step letter))"
    by (intro arg_cong [where f = "and_then _"] ext) (rule for_loop_map)
  also have "\<dots> = and_then (process_turn letter pl) (\<lambda>pl'. Inr (AtPrint, pl'))"
    by (cases "without_interrupts (print [bytes_of letter]) pl")
       (simp_all add: process_turn_def for_loop_spin for_loop_append spin_steps)
  finally show ?thesis .
qed

text \<open>Process \<open>j\<close> of the table: the root halts until the next interrupt, the others are the workloads.\<close>

definition workload_letter :: "nat \<Rightarrow> string" where
  "workload_letter j = (if j = 1 then ''A'' else if j = 2 then ''B'' else ''C'')"

definition workload_step ::
  "nat \<Rightarrow> (nat \<Rightarrow> point) \<times> ('p, 'd) platform \<Rightarrow> ((nat \<Rightarrow> point) \<times> ('p, 'd) platform) result" where
  "workload_step j = (\<lambda>(pts, pl).
     if j = 0 then hlt (pts, pl)
     else and_then (process_step (workload_letter j) (pts j, pl)) (\<lambda>(p, pl). Inr (pts(j := p), pl)))"

text \<open>A time slice: the number of steps, their effect on the processor, and the interrupt that ends it.\<close>

type_synonym slice = "nat \<times> (cpu \<Rightarrow> cpu) \<times> irq"

definition run_slice ::
  "abi \<Rightarrow> 'd ports \<Rightarrow> (u8 \<Rightarrow> 'p \<Rightarrow> 'p) \<Rightarrow> u64 \<Rightarrow> slice \<Rightarrow> kernel \<times> ('p, 'd) platform \<times> cpu \<times> (nat \<Rightarrow> point) \<Rightarrow>
   (kernel \<times> ('p, 'd) platform \<times> cpu \<times> (nat \<Rightarrow> point)) result" where
  "run_slice abi io notify h = (\<lambda>(n, f, i) (k, pl, c, pts).
     and_then (for_loop [0..<n] (\<lambda>_. workload_step (cur k)) (pts, pl)) (\<lambda>(pts, pl).
     and_then (interrupt abi io notify i (k, pl, deliver h (f c))) (\<lambda>(k, pl, c).
     Inr (k, pl, c, pts))))"

definition run_slices ::
  "abi \<Rightarrow> 'd ports \<Rightarrow> (u8 \<Rightarrow> 'p \<Rightarrow> 'p) \<Rightarrow> u64 \<Rightarrow> slice list \<Rightarrow> kernel \<times> ('p, 'd) platform \<times> cpu \<times> (nat \<Rightarrow> point) \<Rightarrow>
   (kernel \<times> ('p, 'd) platform \<times> cpu \<times> (nat \<Rightarrow> point)) result" where
  "run_slices abi io notify h sl = for_loop sl (run_slice abi io notify h)"

text \<open>What an interrupt prints, and the devices after it.\<close>

definition irq_output :: "'d ports \<Rightarrow> irq \<Rightarrow> 'd \<Rightarrow> u8 list \<times> 'd" where
  "irq_output io i d = (case i of
     Tick \<Rightarrow> ([], d)
   | Key \<Rightarrow> (let (scancode, d') = in8 io 0x60 d in
       (bytes_of ''Keyboard pressed! Scancode: '' @ decimal (unat scancode) @ bytes_of ''. Switching process...'' @ [0x0A], d')))"

definition workload_byte :: "nat \<Rightarrow> u8" where
  "workload_byte j = (if j = 1 then 65 else if j = 2 then 66 else 67)"

lemma workload_bytes: "bytes_of (workload_letter j) = [workload_byte j]"
  by (simp add: workload_letter_def workload_byte_def bytes_of_def of_char_def)

text \<open>What process \<open>j\<close>, having made \<open>t\<close> steps, prints in \<open>n\<close> more, and that every process is where it should be.\<close>

definition slice_output :: "nat \<Rightarrow> nat \<Rightarrow> nat \<Rightarrow> u8 list" where
  "slice_output j t n = (if j = 0 then [] else replicate (prints_by (t + n) - prints_by t) (workload_byte j))"

definition in_step :: "(nat \<Rightarrow> point) \<Rightarrow> (nat \<Rightarrow> nat) \<Rightarrow> bool" where
  "in_step pts T = (\<forall>j. j \<noteq> 0 \<longrightarrow> position (pts j) = T j mod PERIOD)"

text \<open>
  The bytes sent to the screen when process \<open>j\<close> is current and process \<open>i\<close> has made \<open>T i\<close> steps.
\<close>

fun slices_log :: "'d ports \<Rightarrow> nat \<Rightarrow> (nat \<Rightarrow> nat) \<Rightarrow> slice list \<Rightarrow> 'd \<Rightarrow> u8 list" where
  "slices_log io j T [] d = []"
| "slices_log io j T ((n, f, i) # sl) d =
     slice_output j (T j) n @
     fst (irq_output io i d) @ slices_log io ((j + 1) mod 4) (T(j := T j + n)) sl (snd (irq_output io i d))"

text \<open>Slice \<open>i\<close> of the list belongs to process \<open>(j + i) mod 4\<close>.\<close>

definition slices_confined :: "nat \<Rightarrow> stack list \<Rightarrow> nat \<Rightarrow> slice list \<Rightarrow> bool" where
  "slices_confined depth sts j sl = (\<forall>i<length sl. confined depth sts ((j + i) mod 4) (fst (snd (sl ! i))))"

lemma slices_confined_Cons:
  assumes "slices_confined depth sts j ((m, f, i) # sl)" and "j < 4"
  shows "confined depth sts j f" "slices_confined depth sts ((j + 1) mod 4) sl"
proof -
  show "confined depth sts j f" using assms by (force simp: slices_confined_def)
  have "confined depth sts ((j + 1 + i) mod 4) (fst (snd (sl ! i)))" if "i < length sl" for i
    using assms(1) that unfolding slices_confined_def by (elim allE [of _ "Suc i"]) simp
  then show "slices_confined depth sts ((j + 1) mod 4) sl" by (simp add: slices_confined_def mod_simps)
qed

lemma workload_step_process:
  assumes "j \<noteq> 0"
  shows "for_loop [0..<n] (\<lambda>_. workload_step j) (pts, pl) =
    and_then (for_loop [0..<n] (\<lambda>_. process_step (workload_letter j)) (pts j, pl)) (\<lambda>(p, pl). Inr (pts(j := p), pl))"
proof (induction n)
  case (Suc n)
  show ?case
  proof (cases "for_loop [0..<n] (\<lambda>_. process_step (workload_letter j)) (pts j, pl)")
    case (Inr q)
    then show ?thesis
      using Suc.IH unfolding for_loop_Suc
      by (cases q; cases "process_step (workload_letter j) q") (auto simp: workload_step_def assms)
  qed (use Suc.IH in \<open>simp add: for_loop_Suc del: upt_Suc\<close>)
qed (auto simp: fun_eq_iff)

lemma workload_steps_ok:
  assumes "console_ok (WRITER pl)" and "in_step pts T"
  shows "\<exists>pts'. for_loop [0..<n] (\<lambda>_. workload_step j) (pts, pl) =
      Inr (pts', set_screen (terminal (slice_output j (T j) n) (inner (WRITER pl))) pl) \<and>
    in_step pts' (T(j := T j + n)) \<and> writer_wf (terminal (slice_output j (T j) n) (inner (WRITER pl)))"
proof (cases "j = 0")
  case True
  have "for_loop [0..<n] (\<lambda>_. workload_step j) (pts, pl) = Inr (pts, pl)"
    by (induction n) (simp_all add: True workload_step_def hlt_def for_loop_append)
  then show ?thesis using True assms by (simp add: console_ok_def slice_output_def in_step_def)
next
  case False
  have "concat (replicate m (bytes_of (workload_letter j))) = replicate m (workload_byte j)" for m
    by (induction m) (simp_all add: workload_bytes)
  moreover have "position (pts j) = T j mod PERIOD" using assms(2) False by (simp add: in_step_def)
  note process_steps_ok [OF assms(1) this, of n "workload_letter j"]
  ultimately obtain p' where "for_loop [0..<n] (\<lambda>_. process_step (workload_letter j)) (pts j, pl) =
      Inr (p', set_screen (terminal (slice_output j (T j) n) (inner (WRITER pl))) pl)"
    "position p' = (T j + n) mod PERIOD" "writer_wf (terminal (slice_output j (T j) n) (inner (WRITER pl)))"
    using False by (auto simp: slice_output_def)
  then show ?thesis using assms(2) workload_step_process [OF False, of n pts pl] by (simp add: in_step_def)
qed

lemma interrupt_ok:
  assumes run: "runs abi notify io depth k pl c snap sts" and abi: "abi_ok depth abi" "depth + 176 \<le> STACK_SIZE"
    and pl: "\<not> held (PICS pl)" "console_ok (WRITER pl)" and c: "interrupts_enabled c" and st: "\<not> stays k"
  shows "\<exists>k' pl' c'. interrupt abi io notify i (k, pl, deliver h c) = Inr (k', pl', c') \<and>
    runs abi notify io depth k' pl' c' (snap(cur k := arch c)) sts \<and> arch c' = (snap(cur k := arch c)) (cur k') \<and>
    \<not> held (PICS pl') \<and> console_ok (WRITER pl') \<and> \<not> stays k' \<and>
    cur k' = (cur k + 1) mod length (processes (sched_of k)) \<and>
    length (processes (sched_of k')) = length (processes (sched_of k)) \<and>
    inner (WRITER pl') = terminal (fst (irq_output io i (devices pl))) (inner (WRITER pl)) \<and>
    devices pl' = snd (irq_output io i (devices pl))"
proof -
  define f where "f = (case i of Tick \<Rightarrow> SignalEoi | Key \<Rightarrow> HandleKeyboardIoAndEoi)"
  obtain k' c' where sw: "switch_frames f abi k (deliver h c) = Inr (k', c')" "arch c' = (snap(cur k := arch c)) (cur k')"
    "cur k' = (cur k + 1) mod length (processes (sched_of k))" "held (SCHEDULER k') = held (SCHEDULER k)"
    "length (processes (sched_of k')) = length (processes (sched_of k))"
    using interrupt_keeps [OF runs_system_ok [OF run abi] abi(1), of f h] st by (auto simp: next_index_def cur_def)
  obtain sc d where sc: "in8 io 0x60 (devices pl) = (sc, d)" by (cases "in8 io 0x60 (devices pl)")
  define out where "out = fst (irq_output io i (devices pl))"
  define eoi where "eoi = (case i of Tick \<Rightarrow> signal_eoi notify pl | Key \<Rightarrow> handle_keyboard_io_and_eoi io notify pl)"
  have "\<exists>pl'. eoi = Inr pl' \<and> \<not> held (PICS pl') \<and> console_ok (WRITER pl') \<and>
      inner (WRITER pl') = terminal out (inner (WRITER pl)) \<and> devices pl' = snd (irq_output io i (devices pl))"
  proof (cases i)
    case Tick
    then show ?thesis
      using pl by (simp add: eoi_def signal_eoi_def end_of_interrupt_def mutex_lock_def out_def irq_output_def)
  next
    case Key
    then show ?thesis
      using keyboard_io [OF pl(2,1) sc, of notify] pl sc println_ok(2) [OF pl(2), of "[bytes_of ''Keyboard pressed! Scancode: '',
          decimal (unat sc), bytes_of ''. Switching process...'']"]
      by (simp add: eoi_def out_def irq_output_def shown_def console_ok_def)
  qed
  then obtain pl' where pl': "eoi = Inr pl'" "\<not> held (PICS pl')" "console_ok (WRITER pl')"
      "inner (WRITER pl') = terminal out (inner (WRITER pl))" "devices pl' = snd (irq_output io i (devices pl))" by blast
  have res: "interrupt abi io notify i (k, pl, deliver h c) = Inr (k', pl', c')"
    using sw(1) pl'(1) by (cases i) (simp_all add: interrupt_def f_def eoi_def timer_interrupt_handler_eq keyboard_interrupt_handler_eq)
  then have "runs abi notify io depth k' pl' c' (snap(cur k := arch c)) sts"
    using runs.timer [OF run c] runs.keyboard [OF run c] by (cases i) (auto simp: interrupt_def)
  then show ?thesis using res sw pl' st by (auto simp: out_def stays_def)
qed

section \<open>Slices\<close>

lemma run_slice_ok:
  assumes run: "runs abi notify io depth k pl c snap sts" and abi: "abi_ok depth abi" "depth + 176 \<le> STACK_SIZE"
    and pl: "\<not> held (PICS pl)" "console_ok (WRITER pl)" and st: "\<not> stays k" and n: "length (processes (sched_of k)) = 4"
    and pts: "in_step pts T" and f: "confined depth sts (cur k) f"
  shows "\<exists>k' pl' c' pts' snap'. run_slice abi io notify h (m, f, i) (k, pl, c, pts) = Inr (k', pl', c', pts') \<and>
    runs abi notify io depth k' pl' c' snap' sts \<and> \<not> held (PICS pl') \<and> console_ok (WRITER pl') \<and> \<not> stays k' \<and>
    length (processes (sched_of k')) = 4 \<and> in_step pts' (T(cur k := T (cur k) + m)) \<and> cur k' = (cur k + 1) mod 4 \<and>
    inner (WRITER pl') = terminal (slice_output (cur k) (T (cur k)) m @ fst (irq_output io i (devices pl))) (inner (WRITER pl)) \<and>
    devices pl' = snd (irq_output io i (devices pl))"
proof -
  note K = system_okD [OF runs_system_ok [OF run abi]]
  let ?out = "slice_output (cur k) (T (cur k)) m"
  let ?pl = "set_screen (terminal ?out (inner (WRITER pl))) pl"
  obtain pts' where p': "for_loop [0..<m] (\<lambda>_. workload_step (cur k)) (pts, pl) = Inr (pts', ?pl)"
    "in_step pts' (T(cur k := T (cur k) + m))" "writer_wf (terminal ?out (inner (WRITER pl)))"
    using workload_steps_ok [OF pl(2) pts] by blast
  have c: "room depth (sts ! cur k) (regs (f c) RSP)" "interrupts_enabled (f c)"
    "\<And>i x. i < length sts \<Longrightarrow> i \<noteq> cur k \<Longrightarrow> stack_has (sts ! i) x \<Longrightarrow> mem (f c) x = mem c x"
    using f K(5) by (auto simp: confined_def)
  have "runs abi notify io depth k ?pl (f c) snap sts" using run c(3,1) by (rule runs.compute)
  moreover have "console_ok (WRITER ?pl)" using p'(3) pl(2) by (simp add: console_ok_set_screen)
  ultimately obtain k' pl' c' where r: "interrupt abi io notify i (k, ?pl, deliver h (f c)) = Inr (k', pl', c')"
    "runs abi notify io depth k' pl' c' (snap(cur k := arch (f c))) sts" "\<not> held (PICS pl')" "console_ok (WRITER pl')"
    "\<not> stays k'" "cur k' = (cur k + 1) mod 4" "length (processes (sched_of k')) = 4"
    "inner (WRITER pl') = terminal (fst (irq_output io i (devices pl))) (terminal ?out (inner (WRITER pl)))"
    "devices pl' = snd (irq_output io i (devices pl))"
    using interrupt_ok [OF _ abi _ _ c(2) st, of notify io ?pl snap sts i h] pl(1) n by auto
  have "run_slice abi io notify h (m, f, i) (k, pl, c, pts) = Inr (k', pl', c', pts')"
    using p'(1) r(1) by (simp add: run_slice_def)
  then show ?thesis using r(2-9) p'(2) by (intro exI conjI) (assumption | simp)+
qed

lemma run_slices_ok:
  assumes abi: "abi_ok depth abi" "depth + 176 \<le> STACK_SIZE"
  shows "runs abi notify io depth k pl c snap sts \<Longrightarrow> \<not> held (PICS pl) \<Longrightarrow> console_ok (WRITER pl) \<Longrightarrow> \<not> stays k \<Longrightarrow>
    length (processes (sched_of k)) = 4 \<Longrightarrow> in_step pts T \<Longrightarrow>
    slices_confined depth sts (cur k) sl \<Longrightarrow>
    \<exists>k' pl' c' pts' snap'. run_slices abi io notify h sl (k, pl, c, pts) = Inr (k', pl', c', pts') \<and>
      runs abi notify io depth k' pl' c' snap' sts \<and> console_ok (WRITER pl') \<and> cur k' = (cur k + length sl) mod 4 \<and>
      inner (WRITER pl') = terminal (slices_log io (cur k) T sl (devices pl)) (inner (WRITER pl))"
proof (induction sl arbitrary: k pl c snap pts T)
  case Nil
  have "cur k < 4" using system_okD(3,6) [OF runs_system_ok [OF Nil.prems(1) abi]] Nil.prems(5) by simp
  then show ?case using Nil.prems by (auto simp: run_slices_def)
next
  case (Cons s sl)
  obtain m f i where s: "s = (m, f, i)" by (cases s)
  have c4: "cur k < 4" using system_okD(3,6) [OF runs_system_ok [OF Cons.prems(1) abi]] Cons.prems(5) by simp
  note f = slices_confined_Cons [OF Cons.prems(7) [unfolded s] c4]
  let ?T = "T(cur k := T (cur k) + m)" and ?out = "slice_output (cur k) (T (cur k)) m"
  obtain k1 pl1 c1 pts1 snap1 where r: "run_slice abi io notify h (m, f, i) (k, pl, c, pts) = Inr (k1, pl1, c1, pts1)"
    "runs abi notify io depth k1 pl1 c1 snap1 sts" "\<not> held (PICS pl1)" "console_ok (WRITER pl1)" "\<not> stays k1"
    "length (processes (sched_of k1)) = 4" "in_step pts1 ?T" "cur k1 = (cur k + 1) mod 4"
    "inner (WRITER pl1) = terminal (?out @ fst (irq_output io i (devices pl))) (inner (WRITER pl))"
    "devices pl1 = snd (irq_output io i (devices pl))"
    using run_slice_ok [OF Cons.prems(1) abi Cons.prems(2-6) f(1), of h m i] by (elim exE conjE) (rule that)
  have cf: "slices_confined depth sts (cur k1) sl" using f(2) r(8) by simp
  obtain k' pl' c' pts' snap' where ih: "run_slices abi io notify h sl (k1, pl1, c1, pts1) = Inr (k', pl', c', pts')"
    "runs abi notify io depth k' pl' c' snap' sts" "console_ok (WRITER pl')" "cur k' = (cur k1 + length sl) mod 4"
    "inner (WRITER pl') = terminal (slices_log io (cur k1) ?T sl (devices pl1)) (inner (WRITER pl1))"
    using Cons.IH [OF r(2-7) cf] by (elim exE conjE) (rule that)
  have log: "slices_log io (cur k) T (s # sl) (devices pl) =
      ?out @ fst (irq_output io i (devices pl)) @ slices_log io (cur k1) ?T sl (devices pl1)"
    by (simp add: s r(8,10))
  have "run_slices abi io notify h (s # sl) (k, pl, c, pts) = Inr (k', pl', c', pts')"
    using r(1) ih(1) by (simp add: run_slices_def s)
  moreover have "cur k' = (cur k + length (s # sl)) mod 4" using ih(4) r(8) by (simp add: mod_simps)
  moreover have "inner (WRITER pl') = terminal (slices_log io (cur k) T (s # sl) (devices pl)) (inner (WRITER pl))"
    unfolding log using ih(5) r(9) by simp
  ultimately show ?case using ih(2,3) by metis
qed

text \<open>
  C4 (workloads_screen): start the machine, with whatever interrupts during start-up until the lock of the scheduler is given back, and
  let it run from its idle loop on through any sequence of time slices, each with any number of steps of the process whose turn it is and ended by a timer tick or a key press, wherever in
  the process's loop that falls. Then start-up reaches the idle loop, nothing ever fails or waits, the processes take turns, and
  the screen shows exactly what a terminal would for: one letter of the current process for every round of its loop it begins, and
  one line for every key press.
\<close>

theorem workloads_screen:
  fixes w0 :: "('p, 'd, 'h, 'm, 'page, 'g) world"
  assumes "bootable e bi w0 off va sts" and "inner (SCHEDULER (w_kernel w0)) = None" and "room depth (sts ! 0) (regs c RSP)"
    and "abi_ok depth abi" and "depth + 176 \<le> STACK_SIZE"
    and "interleaved (boot_disturbed abi notify (e_io e) depth (sts ! 0)) (boot_stages e (alpha, beta, omega) bi) (w0, buffer_new) fs s"
    and "slices_confined depth sts 0 sl"
  shows "\<exists>w buf k' pl' c' pts'. run_stages fs s = Inr (w, buf) \<and>
    run_slices abi (e_io e) notify h sl (w_kernel w, w_platform w, c\<lparr>mem := w_memory w\<rparr>, \<lambda>_. AtPrint) =
      Inr (k', pl', c', pts') \<and>
    cur k' = length sl mod 4 \<and>
    inner (WRITER pl') = terminal (slices_log (e_io e) 0 (\<lambda>_. 0) sl (devices (w_platform w))) (inner (WRITER (w_platform w)))"
proof -
  obtain w buf where w: "run_stages fs s = Inr (w, buf)" "ready (w_platform w)" "\<not> held (SCHEDULER (w_kernel w))"
    "cur (w_kernel w) = 0" "map proc_id (processes (sched_of (w_kernel w))) = [0, 1, 2, 3]"
    "runs abi notify (e_io e) depth (w_kernel w) (w_platform w) (c\<lparr>mem := w_memory w\<rparr>) (workload_frames alpha beta omega sts) sts"
    using interrupted_boot_ok [OF assms(1-6)] by (elim exE conjE) (rule that)
  have n: "length (processes (sched_of (w_kernel w))) = 4" using arg_cong [OF w(5), of length] by simp
  have pl: "\<not> held (PICS (w_platform w))" "console_ok (WRITER (w_platform w))" "\<not> stays (w_kernel w)"
    using w(2,3) n by (simp_all add: ready_def stays_def)
  have "in_step (\<lambda>_. AtPrint) (\<lambda>_. 0)" by (simp add: in_step_def)
  from run_slices_ok [OF assms(4,5) w(6) pl n this, of sl h]
  show ?thesis using w(1,4) assms(7) by auto
qed

section \<open>The loops of the workloads\<close>

lemma process_turn_ok:
  assumes "console_ok (WRITER pl)"
  shows "process_turn letter pl = Inr (set_screen (terminal (bytes_of letter) (inner (WRITER pl))) pl)"
    "writer_wf (terminal (bytes_of letter) (inner (WRITER pl)))"
  using masked_print_ok [OF assms, of "bytes_of letter"] by (simp_all add: process_turn_def for_loop_spin)

lemma process_turn_forever: "console_ok (WRITER pl) \<Longrightarrow> loop_forever (process_turn letter) pl = None"
  by (rule loop_forever_None [where P = "\<lambda>pl. console_ok (WRITER pl)"]) (auto simp: process_turn_ok console_ok_set_screen)

lemma process_turns:
  assumes "console_ok (WRITER pl)" and "bytes_of letter = [byte]"
  shows "for_loop [0..<n] (\<lambda>_. process_turn letter) pl = Inr (set_screen (terminal (replicate n byte) (inner (WRITER pl))) pl) \<and>
    writer_wf (terminal (replicate n byte) (inner (WRITER pl)))"
proof (induction n)
  case 0
  then show ?case using assms(1) by (simp add: console_ok_def)
next
  case (Suc n)
  let ?pl = "set_screen (terminal (replicate n byte) (inner (WRITER pl))) pl"
  have "console_ok (WRITER ?pl)" using Suc.IH assms(1) by (simp add: console_ok_set_screen)
  from process_turn_ok [OF this, of letter] Suc.IH show ?case
    unfolding for_loop_Suc replicate_append_same [symmetric] replicate.simps by (simp add: assms(2))
qed

text \<open>The single steps in which the workloads are interrupted make up the same rounds.\<close>

lemma workload_turns:
  assumes "console_ok (WRITER pl)" and "j \<noteq> 0"
  shows "for_loop [0..<n * PERIOD] (\<lambda>_. workload_step j) (\<lambda>_. AtPrint, pl) =
    Inr (\<lambda>_. AtPrint, set_screen (terminal (replicate n (workload_byte j)) (inner (WRITER pl))) pl)"
proof -
  have P: "prints_by 0 = 0" "prints_by (0 + n * PERIOD) = n"
    by (simp_all add: prints_by_def PERIOD_def div_nat_eqI)
  obtain p' where p: "for_loop [0..<n * PERIOD] (\<lambda>_. process_step (workload_letter j)) (AtPrint, pl) =
      Inr (p', set_screen (terminal (concat (replicate n (bytes_of (workload_letter j)))) (inner (WRITER pl))) pl)" "position p' = 0"
    using process_steps_ok [OF assms(1), of AtPrint 0 "n * PERIOD" "workload_letter j"] unfolding P by auto
  have "p' = AtPrint" using p(2) by (cases p') simp_all
  moreover have "concat (replicate m (bytes_of (workload_letter j))) = replicate m (workload_byte j)" for m
    by (induction m) (simp_all add: workload_bytes)
  ultimately show ?thesis using p(1) workload_step_process [OF assms(2), of "n * PERIOD" "\<lambda>_. AtPrint" pl] by (simp add: fun_upd_idem)
qed

text \<open>
  C35 (workload_rounds): on a usable console, \<open>n\<close> rounds of the loop of each workload print its own letter \<open>n\<close> times, \<^verbatim>\<open>A\<close>, \<^verbatim>\<open>B\<close> or \<^verbatim>\<open>C\<close>, and change
  nothing else; the single steps in which the process of the same number in the table is interrupted and resumed
  make up exactly these rounds; and the loop never returns.
\<close>

theorem workload_rounds:
  assumes "console_ok (WRITER pl)"
    and "(turn, loop, j, letter) \<in> set [(process_alpha_turn, process_alpha, 1, 0x41), (process_beta_turn, process_beta, 2, 0x42),
      (process_omega_turn, process_omega, 3, 0x43)]"
  shows "for_loop [0..<n] (\<lambda>_. turn) pl = Inr (set_screen (terminal (replicate n letter) (inner (WRITER pl))) pl) \<and>
    for_loop [0..<n * PERIOD] (\<lambda>_. workload_step j) (\<lambda>_. AtPrint, pl) =
      Inr (\<lambda>_. AtPrint, set_screen (terminal (replicate n letter) (inner (WRITER pl))) pl) \<and>
    loop pl = None"
proof -
  obtain t where "turn = process_turn t" "loop = loop_forever (process_turn t)" "bytes_of t = [letter]" "j \<noteq> 0" "workload_byte j = letter"
    using assms(2)
    by (auto simp: process_alpha_def process_beta_def process_omega_def process_alpha_turn_def process_beta_turn_def process_omega_turn_def
        bytes_of_def of_char_def workload_byte_def)
  then show ?thesis using process_turns [OF assms(1)] workload_turns [OF assms(1)] process_turn_forever [OF assms(1)] by metis
qed

theorem workload_rounds_witness:
  "for_loop [0..<3] (\<lambda>_. process_beta_turn) example_platform =
     Inr (set_screen (terminal [0x42, 0x42, 0x42] (inner (WRITER example_platform))) example_platform) \<and>
   process_beta example_platform = None"
  using workload_rounds [OF example_platform_ok(2), of process_beta_turn process_beta 2 "0x42" 3] by (simp add: numeral_3_eq_3)

lemma never_return: "hlt_loop s = None" "panic_handler s = None"
  unfolding hlt_loop_def panic_handler_def
  by (rule loop_forever_None [where P = "\<lambda>_. True"]; simp add: hlt_def)+

section \<open>Yielding\<close>

text \<open>Every saved context has a zero instruction pointer.\<close>

definition rips_zero :: "kernel \<Rightarrow> bool" where
  "rips_zero k = (\<forall>p\<in>set (processes (sched_of k)). pc_rip (proc_context p) = 0)"

lemma update_process_rips:
  assumes "update_process i g s = Inr s'" and "\<And>p. pc_rip (proc_context p) = 0 \<Longrightarrow> pc_rip (proc_context (g p)) = 0"
    and "\<forall>p\<in>set (processes s). pc_rip (proc_context p) = 0"
  shows "\<forall>p\<in>set (processes s'). pc_rip (proc_context p) = 0"
  using assms by (auto simp: update_process_def kernel_simps all_set_conv_all_nth nth_list_update)

lemma preempt_rips:
  assumes "preempt_round_robin r k = Inr (x, k')" and "rips_zero k"
  shows "rips_zero k'"
proof -
  consider "k' = k" | s s1 s2 s3 i where "inner (SCHEDULER k) = Some s" "sched_of k' = s3"
      "update_process (current_index s) (\<lambda>p. p\<lparr>proc_context := (proc_context p)\<lparr>pc_rsp := r\<rparr>\<rparr>) s = Inr s1"
      "update_process (current_index s) (set_state Ready) s1 = Inr s2"
      "update_process i (set_state Running) (s2\<lparr>current_index := i\<rparr>) = Inr s3"
    using assms(1) by (auto simp: preempt_round_robin_def kernel_simps Let_def sched_of_def split: option.splits if_splits)
  then show ?thesis
  proof cases
    case 2
    have "\<forall>p\<in>set (processes s). pc_rip (proc_context p) = 0" using assms(2) 2(1) by (simp add: rips_zero_def sched_of_def)
    then have "\<forall>p\<in>set (processes s1). pc_rip (proc_context p) = 0" using update_process_rips [OF 2(3)] by simp
    then have "\<forall>p\<in>set (processes s2). pc_rip (proc_context p) = 0" using update_process_rips [OF 2(4)] by (simp add: set_state_def)
    then show ?thesis using update_process_rips [OF 2(5)] 2(2) by (simp add: set_state_def rips_zero_def)
  qed (use assms(2) in simp)
qed

lemma switch_frames_rips: "switch_frames f abi k c = Inr (k', c') \<Longrightarrow> rips_zero k \<Longrightarrow> rips_zero k'"
  by (auto simp: switch_frames_def kernel_simps Let_def dest: preempt_rips)

lemma runs_rips_zero: "runs abi notify io depth k pl c snap sts \<Longrightarrow> rips_zero k"
proof (induction rule: runs.induct)
  case (boot k st c pl snap)
  then show ?case by (simp add: rips_zero_def sched_of_def spawn_root_def context_zero_def)
next
  case (spawn k pl c snap sts base entry_point pid next_pid s' m')
  then show ?case
    by (auto simp: rips_zero_def spawn_def Let_def kernel_simps context_zero_def split: prod.splits)
next
  case (timer k pl c snap sts h k' pl' c')
  then show ?case by (auto simp: timer_interrupt_handler_eq kernel_simps intro: switch_frames_rips)
next
  case (keyboard k pl c snap sts h k' pl' c')
  then show ?case by (auto simp: keyboard_interrupt_handler_eq kernel_simps intro: switch_frames_rips)
qed (auto simp: rips_zero_def)

text \<open>
  \<^verbatim>\<open>dummy_main_process\<close>: it goes round while its yields come back at once, and leaves the processor to
  another process when one switches.
\<close>

partial_function (option) dummy_main_process :: "kernel \<Rightarrow> cpu \<Rightarrow> (kernel \<times> cpu) result option" where
  "dummy_main_process k c =
     (case yield_now k c of
        Inl e \<Rightarrow> Some (Inl e)
      | Inr (k', out) \<Rightarrow> (case out of Stayed c' \<Rightarrow> dummy_main_process k' c' | Switched c' \<Rightarrow> Some (Inr (k', c'))))"

text \<open>
  C38 (yield_jumps_to_zero): in every state the running system can reach with the lock of the scheduler free, a cooperative yield with
  two or more processes goes wrong: preemption keeps each process's state on its stack and never fills in the \<^verbatim>\<open>rip\<close> of a
  context, but \<^verbatim>\<open>context_switch\<close> continues at it. The processor ends up at address zero with
  interrupts off, whether the yield comes from \<^verbatim>\<open>yield_now\<close>, from \<^verbatim>\<open>dummy_main_process\<close> or from the bridge of
  the software interrupt.
\<close>

theorem yield_jumps_to_zero:
  assumes "runs abi notify io depth k pl c snap sts" and "abi_ok depth abi" and "depth + 176 \<le> STACK_SIZE"
    and "\<not> held (SCHEDULER k)" and "2 \<le> length (processes (sched_of k))"
  shows "\<exists>k' c'. yield_now k c = Inr (k', Switched c') \<and> rip c' = 0 \<and> \<not> interrupts_enabled c' \<and>
    cur k' = (cur k + 1) mod length (processes (sched_of k)) \<and>
    dummy_main_process k c = Some (Inr (k', c')) \<and> preempt_bridge k c = Inr (k', Switched c')"
proof -
  note K = system_okD [OF runs_system_ok [OF assms(1-3)]]
  let ?s = "sched_of k"
  have kok: "kernel_ok k" using K(1,2) assms(4) by (simp add: kernel_ok_def)
  have "next_index ?s < length (processes ?s)" by (rule next_index_less [OF assms(5)])
  then have z: "pc_rip (proc_context (processes ?s ! next_index ?s)) = 0"
    using runs_rips_zero [OF assms(1)] by (simp add: rips_zero_def)
  obtain k' c' where y: "yield_now k c = Inr (k', Switched c')" "rip c' = 0" "\<not> interrupts_enabled c'"
      "cur k' = (cur k + 1) mod length (processes ?s)"
    using execute_switch_eq [OF kok assms(5), of "cli c"] z
    by (simp add: yield_now_def Let_def context_switch_def ret_def interrupts_enabled_def cur_def next_index_def)
       (simp add: cli_def bit_unset_bit_iff)
  then show ?thesis by (simp add: preempt_bridge_def dummy_main_process.simps)
qed

section \<open>Examples\<close>

definition example_slices :: "slice list" where
  "example_slices = [(0, sti, Tick), (SPINS + 3, sti, Key), (1, sti, Tick), (2, sti, Tick), (7, sti, Tick), (1, sti, Tick)]"

lemma example_slices_confined: "slices_confined depth sts 0 example_slices"
proof -
  have "confined depth sts j sti" for j by (simp add: confined_def sti_enables)
  then show ?thesis by (auto simp: slices_confined_def example_slices_def less_Suc_eq nth_Cons')
qed

theorem workloads_screen_witness:
  "\<exists>pl m w' buf k' pl' c' pts'. run_stages (drop 2 example_stages) (example_ticked pl m, buffer_new) = Inr (w', buf) \<and>
     run_slices example_abi example_ports (#) 0x5000 example_slices
       (w_kernel w', w_platform w', example_cpu\<lparr>mem := w_memory w'\<rparr>, \<lambda>_. AtPrint) = Inr (k', pl', c', pts') \<and> cur k' = 2 \<and>
     inner (WRITER pl') = terminal (bytes_of ''AAKeyboard pressed! Scancode: 30. Switching process...'' @ [0x0A] @ bytes_of ''BC'')
       (inner (WRITER (w_platform w')))"
proof -
  have d: "(1000::nat) + 176 \<le> STACK_SIZE" by (simp add: STACK_SIZE_def)
  have two: "replicate 2 (65 :: u8) = [65, 65]" by (simp add: numeral_2_eq_2)
  have dec: "decimal 30 = [51, 48]" by (simp add: decimal.simps)
  have log: "slices_log example_ports 0 (\<lambda>_. 0) example_slices u =
      bytes_of ''AAKeyboard pressed! Scancode: 30. Switching process...'' @ [0x0A] @ bytes_of ''BC''" for u
    by (simp add: example_slices_def slice_output_def prints_by_def PERIOD_def SPINS_def workload_byte_def irq_output_def
        example_ports_def dec bytes_of_def of_char_def two)
  have io: "e_io example_env = example_ports" by (simp add: example_env_def)
  obtain pl m where t: "interleaved (boot_disturbed example_abi (#) example_ports 1000 (example_stacks ! 0)) example_stages
      (example_world, buffer_new) (drop 2 example_stages) (example_ticked pl m, buffer_new)"
    by (rule example_interrupted)
  from workloads_screen [of example_env, unfolded io, OF example_bootable example_world_facts(2) example_room(1) example_abi_ok d t
      example_slices_confined, of "0x5000"]
  show ?thesis
    unfolding log by (intro exI [of _ pl] exI [of _ m]) (auto simp: example_slices_def)
qed

theorem yield_jumps_to_zero_witness:
  "\<exists>k c snap sts k' c'. runs example_abi (#) example_ports 1000 k example_platform c snap sts \<and>
     yield_now k c = Inr (k', Switched c') \<and> rip c' = 0"
proof -
  obtain k c snap sts where r: "runs example_abi (#) example_ports 1000 k example_platform c snap sts"
    "\<not> held (SCHEDULER k)" "length (processes (sched_of k)) = 2"
    using example_run by blast
  have d: "(1000::nat) + 176 \<le> STACK_SIZE" by (simp add: STACK_SIZE_def)
  show ?thesis using yield_jumps_to_zero [OF r(1) example_abi_ok d r(2)] r(1,3) by force
qed

end
