(* ===== verification/Console.thy ===== *)
theory Console
  imports Workloads
begin

text \<open>
  Printing taken apart. \<open>print_stages\<close> is \<^verbatim>\<open>_print\<close> of \<^verbatim>\<open>vga_buffer/print.rs\<close> as the sequence of steps between which an interrupt
  could arrive, and \<open>turn_stages\<close> is one round of a workload's loop in \<^verbatim>\<open>main.rs\<close>; both are proved to do exactly what
  \<open>print\<close> and \<open>process_turn\<close> do. \<open>console_run\<close> lets any number of processes make these steps, interrupted by the timer and
  the keyboard whenever the interrupt flag is set and for no other reason, after which any process may go on.
  Nothing keeps a step from being tried: that the lock of \<^verbatim>\<open>WRITER\<close> is never found taken is what is proved.
\<close>

section \<open>The steps of printing\<close>

text \<open>The platform, and the interrupt flags that the calls of \<^verbatim>\<open>without_interrupts\<close> under way have saved, innermost first.\<close>

type_synonym ('p, 'd) console_state = "('p, 'd) platform \<times> bool list"

text \<open>\<^verbatim>\<open>without_interrupts\<close> reads the flag, clears it if it was set, and after the closure sets it again if it was set.\<close>

definition save_flag :: "('p, 'd) console_state stage" where
  "save_flag = (\<lambda>(pl, sv). Inr (pl, irq_enabled pl # sv))"

definition disable_saved :: "('p, 'd) console_state stage" where
  "disable_saved = (\<lambda>(pl, sv). Inr (case sv of True # _ \<Rightarrow> pl\<lparr>irq_enabled := False\<rparr> | _ \<Rightarrow> pl, sv))"

definition restore_flag :: "('p, 'd) console_state stage" where
  "restore_flag = (\<lambda>(pl, sv). Inr (case sv of True # _ \<Rightarrow> pl\<lparr>irq_enabled := True\<rparr> | _ \<Rightarrow> pl, tl sv))"

definition masked :: "('p, 'd) console_state stage list \<Rightarrow> ('p, 'd) console_state stage list" where
  "masked fs = [save_flag, disable_saved] @ fs @ [restore_flag]"

text \<open>\<^verbatim>\<open>WRITER.lock()\<close>, one byte of \<^verbatim>\<open>write_fmt\<close>, and the end of the guard.\<close>

definition lock_writer :: "('p, 'd) console_state stage" where
  "lock_writer = (\<lambda>(pl, sv). and_then (mutex_lock (WRITER pl)) (\<lambda>_. Inr (pl\<lparr>WRITER := (WRITER pl)\<lparr>held := True\<rparr>\<rparr>, sv)))"

definition emit_byte :: "u8 \<Rightarrow> ('p, 'd) console_state stage" where
  "emit_byte byte = (\<lambda>(pl, sv). and_then (write_byte (sanitize byte) (inner (WRITER pl))) (\<lambda>w.
     Inr (pl\<lparr>WRITER := (WRITER pl)\<lparr>inner := w\<rparr>\<rparr>, sv)))"

definition unlock_writer :: "('p, 'd) console_state stage" where
  "unlock_writer = (\<lambda>(pl, sv). Inr (pl\<lparr>WRITER := (WRITER pl)\<lparr>held := False\<rparr>\<rparr>, sv))"

definition print_stages :: "u8 list list \<Rightarrow> ('p, 'd) console_state stage list" where
  "print_stages args = masked ([lock_writer] @ map emit_byte (concat args) @ [unlock_writer])"

definition turn_stages :: "string \<Rightarrow> ('p, 'd) console_state stage list" where
  "turn_stages letter = masked (print_stages [bytes_of letter]) @ replicate SPINS spin_loop"

section \<open>They are the code\<close>

text \<open>A sequence of steps does to the platform what \<open>f\<close> does, and leaves no flag behind.\<close>

definition implements ::
  "('p, 'd) console_state stage list \<Rightarrow> (('p, 'd) platform \<Rightarrow> ('p, 'd) platform result) \<Rightarrow> bool" where
  "implements fs f = (\<forall>pl sv. run_stages fs (pl, sv) = and_then (f pl) (\<lambda>pl'. Inr (pl', sv)))"

lemma implementsD: "implements fs f \<Longrightarrow> f pl = Inr pl' \<Longrightarrow> run_stages fs (pl, sv) = Inr (pl', sv)"
  by (simp add: implements_def)

lemma masked_implements:
  assumes "implements fs f"
  shows "implements (masked fs) (without_interrupts f)"
  unfolding implements_def
proof (intro allI)
  fix pl :: "('a, 'b) platform" and sv
  have pl: "\<not> irq_enabled pl \<Longrightarrow> pl\<lparr>irq_enabled := False\<rparr> = pl" by (cases pl) simp
  have "run_stages (masked fs) (pl, sv) =
      and_then (run_stages fs (pl\<lparr>irq_enabled := False\<rparr>, irq_enabled pl # sv)) (run_stages [restore_flag])"
    unfolding masked_def by (auto simp: save_flag_def disable_saved_def run_stages_append pl split: bool.splits)
  then show "run_stages (masked fs) (pl, sv) = and_then (without_interrupts f pl) (\<lambda>pl'. Inr (pl', sv))"
    using assms by (cases "f (pl\<lparr>irq_enabled := False\<rparr>)")
      (auto simp: implements_def without_interrupts_def restore_flag_def split: bool.splits)
qed

lemma emit_bytes:
  "run_stages (map emit_byte bs) (pl, sv) =
     and_then (for_loop bs (\<lambda>byte. write_byte (sanitize byte)) (inner (WRITER pl))) (\<lambda>w.
     Inr (pl\<lparr>WRITER := (WRITER pl)\<lparr>inner := w\<rparr>\<rparr>, sv))"
proof (induction bs arbitrary: pl)
  case (Cons b bs)
  then show ?case by (cases "write_byte (sanitize b) (inner (WRITER pl))") (simp_all add: emit_byte_def)
qed simp

lemma write_pieces: "for_loop args write_str w = for_loop (concat args) (\<lambda>byte. write_byte (sanitize byte)) w"
proof -
  have ws: "write_str = (\<lambda>s. for_loop s (\<lambda>byte. write_byte (sanitize byte)))" by (simp add: fun_eq_iff write_str_def write_string_def)
  show ?thesis
    unfolding ws
  proof (induction args arbitrary: w)
    case (Cons s args)
    then have "for_loop args (\<lambda>s. for_loop s (\<lambda>byte. write_byte (sanitize byte))) = for_loop (concat args) (\<lambda>byte. write_byte (sanitize byte))"
      by (intro ext)
    then show ?case by (simp add: for_loop_append)
  qed simp
qed

lemma print_stages_implement: "implements (print_stages args) (print args)"
  unfolding print_stages_def print_def
proof (rule masked_implements, unfold implements_def, intro allI)
  fix pl :: "('p, 'd) platform" and sv
  let ?w = "for_loop (concat args) (\<lambda>byte. write_byte (sanitize byte)) (inner (WRITER pl))"
  show "run_stages ([lock_writer] @ map emit_byte (concat args) @ [unlock_writer]) (pl, sv) =
      and_then (and_then (print_args args (WRITER pl)) (\<lambda>w. Inr (pl\<lparr>WRITER := w\<rparr>))) (\<lambda>pl'. Inr (pl', sv))"
  proof (cases "held (WRITER pl)")
    case True
    then show ?thesis by (simp add: lock_writer_def print_args_def mutex_lock_def)
  next
    case False
    then have "(WRITER pl)\<lparr>held := False\<rparr> = WRITER pl" by (cases "WRITER pl") simp
    then have "(WRITER pl)\<lparr>held := False, inner := w\<rparr> = (WRITER pl)\<lparr>inner := w\<rparr>" for w by (metis mutex.update_convs)
    with False show ?thesis
      by (cases ?w) (simp_all add: lock_writer_def print_args_def mutex_lock_def run_stages_append emit_bytes write_pieces unlock_writer_def)
  qed
qed



section \<open>Processes and interrupts\<close>

text \<open>The console part of an interrupt handler.\<close>

definition irq_console :: "'d ports \<Rightarrow> (u8 \<Rightarrow> 'p \<Rightarrow> 'p) \<Rightarrow> irq \<Rightarrow> ('p, 'd) platform \<Rightarrow> ('p, 'd) platform result" where
  "irq_console io notify q = (case q of Tick \<Rightarrow> signal_eoi notify | Key \<Rightarrow> handle_keyboard_io_and_eoi io notify)"

lemma interrupt_console: "interrupt abi io notify q (k, pl, c) = Inr (k', pl', c') \<Longrightarrow> irq_console io notify q pl = Inr pl'"
  by (auto simp: interrupt_def irq_console_def timer_interrupt_handler_eq keyboard_interrupt_handler_eq kernel_simps split: irq.splits)

datatype console_call = Turn string | Print "u8 list list"

fun call_stages :: "console_call \<Rightarrow> ('p, 'd) console_state stage list" where
  "call_stages (Turn letter) = turn_stages letter"
| "call_stages (Print args) = print_stages args"

text \<open>A process: the interrupt flag it is resumed with, the flags its calls have saved, and the steps before it.\<close>

record ('p, 'd) caller =
  resume_if :: bool
  saved_flags :: "bool list"
  todo :: "('p, 'd) console_state stage list"

text \<open>
  Process \<open>j\<close> makes the calls \<open>calls j\<close>, any number of them. The current process makes its next step, whatever that is;
  or, if the interrupt flag is set, the processor stores the flag with the process it interrupts, clears it, runs the
  handler, and loads the flag of the process it resumes.
\<close>

inductive console_run ::
  "'d ports \<Rightarrow> (u8 \<Rightarrow> 'p \<Rightarrow> 'p) \<Rightarrow> (nat \<Rightarrow> console_call list) \<Rightarrow> ('p, 'd) platform \<Rightarrow> nat \<Rightarrow> (nat \<Rightarrow> ('p, 'd) caller) \<Rightarrow> bool"
  for io notify calls where
  start: "calm pl \<Longrightarrow> irq_enabled pl \<Longrightarrow>
    console_run io notify calls pl i (\<lambda>j. \<lparr>resume_if = True, saved_flags = [], todo = concat (map call_stages (calls j))\<rparr>)"
| step: "console_run io notify calls pl i ts \<Longrightarrow> todo (ts i) = f # fs \<Longrightarrow> f (pl, saved_flags (ts i)) = Inr (pl', sv) \<Longrightarrow>
    console_run io notify calls pl' i (ts(i := (ts i)\<lparr>saved_flags := sv, todo := fs\<rparr>))"
| interrupted: "console_run io notify calls pl i ts \<Longrightarrow> irq_enabled pl \<Longrightarrow>
    irq_console io notify q (pl\<lparr>irq_enabled := False\<rparr>) = Inr pl' \<Longrightarrow> ts' = ts(i := (ts i)\<lparr>resume_if := irq_enabled pl\<rparr>) \<Longrightarrow>
    console_run io notify calls (pl'\<lparr>irq_enabled := resume_if (ts' j)\<rparr>) j ts'"

section \<open>The discipline of masking\<close>

text \<open>
  \<open>disciplined n h p fs\<close>: the steps \<open>fs\<close> are what is left to do inside \<open>n\<close> calls of \<^verbatim>\<open>without_interrupts\<close>, with the lock held (\<open>h\<close>), with
  the flag read but not yet cleared (\<open>p\<close>).
\<close>

inductive disciplined :: "nat \<Rightarrow> bool \<Rightarrow> bool \<Rightarrow> ('p, 'd) console_state stage list \<Rightarrow> bool" where
  finished: "disciplined 0 False False []"
| save: "disciplined n False True fs \<Longrightarrow> disciplined n False False (save_flag # fs)"
| disable: "disciplined (Suc n) False False fs \<Longrightarrow> disciplined n False True (disable_saved # fs)"
| lock: "0 < n \<Longrightarrow> disciplined n True False fs \<Longrightarrow> disciplined n False False (lock_writer # fs)"
| emit: "disciplined n True False fs \<Longrightarrow> disciplined n True False (emit_byte b # fs)"
| unlock: "disciplined n False False fs \<Longrightarrow> disciplined n True False (unlock_writer # fs)"
| restore: "disciplined n False False fs \<Longrightarrow> disciplined (Suc n) False False (restore_flag # fs)"
| spin: "disciplined n False False fs \<Longrightarrow> disciplined n False False (spin_loop # fs)"

lemma disciplined_masked:
  assumes "\<And>fs. disciplined (Suc n) False False fs \<Longrightarrow> disciplined (Suc n) False False (body @ fs)"
  shows "disciplined n False False fs \<Longrightarrow> disciplined n False False (masked body @ fs)"
  unfolding masked_def by (simp add: disciplined.save disciplined.disable assms disciplined.restore)

lemma disciplined_print: "disciplined n False False fs \<Longrightarrow> disciplined n False False (print_stages args @ fs)"
  unfolding print_stages_def
proof (rule disciplined_masked)
  fix fs :: "('p, 'd) console_state stage list"
  assume "disciplined (Suc n) False False fs"
  then have "disciplined (Suc n) True False (map emit_byte bs @ unlock_writer # fs)" for bs
    by (induction bs) (simp_all add: disciplined.unlock disciplined.emit)
  then show "disciplined (Suc n) False False (([lock_writer] @ map emit_byte (concat args) @ [unlock_writer]) @ fs)"
    by (simp add: disciplined.lock)
qed

lemma disciplined_turn:
  assumes "disciplined 0 False False fs"
  shows "disciplined 0 False False (turn_stages letter @ fs)"
proof -
  have "disciplined 0 False False (replicate n spin_loop @ fs)" for n
    by (induction n) (simp_all add: assms disciplined.spin)
  then show ?thesis unfolding turn_stages_def by (simp add: disciplined_masked disciplined_print)
qed

lemma disciplined_calls: "disciplined 0 False False (concat (map call_stages xs))"
proof (induction xs)
  case (Cons c xs)
  then show ?case by (cases c) (simp_all add: disciplined_print disciplined_turn)
qed (simp add: disciplined.finished)

text \<open>The state that goes with it: masked inside a call, the outermost call having saved a set flag and the others cleared ones.\<close>

fun flags_saved :: "nat \<Rightarrow> bool list" where
  "flags_saved 0 = []"
| "flags_saved (Suc n) = (n = 0) # flags_saved n"

definition placed :: "nat \<Rightarrow> bool \<Rightarrow> bool \<Rightarrow> ('p, 'd) console_state \<Rightarrow> bool" where
  "placed n h p = (\<lambda>(pl, sv). writer_wf (inner (WRITER pl)) \<and> held (WRITER pl) = h \<and> \<not> held (PICS pl) \<and> (h \<longrightarrow> 0 < n) \<and>
     irq_enabled pl = (n = 0) \<and> sv = (if p then [n = 0] else []) @ flags_saved n)"

lemma disciplined_step:
  assumes "disciplined n h p (f # fs)" and "placed n h p s"
  obtains n' h' p' s' where "f s = Inr s'" "disciplined n' h' p' fs" "placed n' h' p' s'"
proof -
  obtain pl sv where s: "s = (pl, sv)" by (cases s)
  note P = assms(2) [unfolded s placed_def prod.case]
  show ?thesis
    using assms(1)
  proof cases
    case save
    with P show ?thesis by (intro that [of _ n False True]) (auto simp: s placed_def save_flag_def)
  next
    case disable
    with P show ?thesis
      by (intro that [of _ "Suc n" False False]) (auto simp: s placed_def disable_saved_def split: bool.splits)
  next
    case lock
    with P show ?thesis by (intro that [of _ n True False]) (auto simp: s placed_def lock_writer_def mutex_lock_def)
  next
    case (emit b)
    with P show ?thesis
      using write_byte_ok [of "inner (WRITER pl)" "sanitize b"]
      by (intro that [of _ n True False]) (auto simp: s placed_def emit_byte_def)
  next
    case unlock
    with P show ?thesis by (intro that [of _ n False False]) (auto simp: s placed_def unlock_writer_def)
  next
    case (restore m)
    with P show ?thesis
      by (intro that [of _ m False False]) (auto simp: s placed_def restore_flag_def split: bool.splits)
  next
    case spin
    with P show ?thesis by (intro that [of _ n False False]) (auto simp: s placed_def spin_loop_def)
  qed
qed

text \<open>Left alone, a process completes its calls.\<close>

lemma disciplined_runs:
  assumes "disciplined n h p fs" and "placed n h p s"
  shows "\<exists>pl'. run_stages fs s = Inr (pl', []) \<and> calm pl' \<and> irq_enabled pl'"
  using assms
proof (induction fs arbitrary: n h p s rule: list.induct)
  case Nil
  then show ?case by (cases s) (auto elim: disciplined.cases simp: placed_def calm_def console_ok_def)
next
  case (Cons f fs)
  from Cons.prems obtain n' h' p' s' where "f s = Inr s'" "disciplined n' h' p' fs" "placed n' h' p' s'"
    by (rule disciplined_step)
  then show ?case using Cons.IH by simp
qed

lemma irq_console_ok:
  assumes "calm pl"
  shows "\<exists>pl'. irq_console io notify q pl = Inr pl' \<and> calm pl'"
proof (cases q)
  case Tick
  then show ?thesis
    using assms by (simp add: irq_console_def signal_eoi_def end_of_interrupt_def mutex_lock_def calm_def)
next
  case Key
  obtain sc d where "in8 io 0x60 (devices pl) = (sc, d)" by (cases "in8 io 0x60 (devices pl)")
  with Key assms show ?thesis
    using keyboard_io [of pl io sc d notify] println_ok(2) [of pl]
    by (simp add: irq_console_def calm_def console_ok_def)
qed

text \<open>A process that is not current stands outside every call, or has just read the flag.\<close>

definition parked :: "('p, 'd) caller \<Rightarrow> bool" where
  "parked t = (resume_if t \<and> (\<exists>p. disciplined 0 False p (todo t) \<and> saved_flags t = (if p then [True] else [])))"

definition console_inv :: "('p, 'd) platform \<Rightarrow> nat \<Rightarrow> (nat \<Rightarrow> ('p, 'd) caller) \<Rightarrow> bool" where
  "console_inv pl i ts = ((\<exists>n h p. disciplined n h p (todo (ts i)) \<and> placed n h p (pl, saved_flags (ts i))) \<and> (\<forall>j. j \<noteq> i \<longrightarrow> parked (ts j)))"

lemma placed_enabled:
  assumes "disciplined n h p fs" and "placed n h p (pl, sv)" and "irq_enabled pl"
  shows "calm pl" "disciplined 0 False p fs" "sv = (if p then [True] else [])"
  using assms by (auto simp: placed_def calm_def console_ok_def)

lemma parked_resumes:
  assumes "parked t" and "calm pl"
  shows "\<exists>n h p. disciplined n h p (todo t) \<and> placed n h p (pl\<lparr>irq_enabled := resume_if t\<rparr>, saved_flags t)"
proof -
  obtain p where "disciplined 0 False p (todo t)" "saved_flags t = (if p then [True] else [])" "resume_if t"
    using assms(1) by (auto simp: parked_def)
  then show ?thesis
    using assms(2) by (intro exI [of _ 0] exI [of _ False] exI [of _ p]) (simp add: placed_def calm_def console_ok_def)
qed

lemma console_run_inv: "console_run io notify calls pl i ts \<Longrightarrow> console_inv pl i ts"
proof (induction rule: console_run.induct)
  case (start pl i)
  have "placed 0 False False (pl, [])" using start by (simp add: placed_def calm_def console_ok_def)
  then show ?case using disciplined_calls by (fastforce simp: console_inv_def parked_def)
next
  case (step pl i ts f fs pl' sv)
  then obtain n h p where "disciplined n h p (f # fs)" "placed n h p (pl, saved_flags (ts i))" by (auto simp: console_inv_def)
  then obtain n' h' p' s' where "f (pl, saved_flags (ts i)) = Inr s'" "disciplined n' h' p' fs" "placed n' h' p' s'"
    by (rule disciplined_step)
  then have "disciplined n' h' p' fs \<and> placed n' h' p' (pl', sv)" using step.hyps(3) by simp
  then show ?case using step.IH by (auto simp: console_inv_def simp del: split_paired_Ex)
next
  case (interrupted pl i ts q pl' ts' j)
  then obtain n h p where i: "disciplined n h p (todo (ts i))" "placed n h p (pl, saved_flags (ts i))" by (auto simp: console_inv_def)
  note E = placed_enabled [OF i interrupted.hyps(2)]
  have "calm (pl\<lparr>irq_enabled := False\<rparr>)" using E(1) by (simp add: calm_def)
  then have "calm pl'" using irq_console_ok [of "pl\<lparr>irq_enabled := False\<rparr>" io notify q] interrupted.hyps(3) by auto
  moreover have "parked (ts' m)" for m
  proof (cases "m = i")
    case True
    have "parked ((ts i)\<lparr>resume_if := True\<rparr>)" unfolding parked_def using E(2,3) by (intro conjI exI [of _ p]) simp_all
    then show ?thesis using True interrupted.hyps(2,4) by simp
  qed (use interrupted.IH interrupted.hyps(4) in \<open>simp add: console_inv_def\<close>)
  ultimately show ?case using parked_resumes unfolding console_inv_def by blast
qed


text \<open>
  C20 (console_never_deadlocks): let any number of processes print and run rounds of the workloads, and let timer and keyboard interrupt
  them between any two steps at which the interrupt flag is set and resume any process. Then in every state that can come about the lock of the
  console is free whenever an interrupt can arrive, both handlers succeed there, the process that runs can always make its next
  step, and left alone it completes its calls and ends with interrupts enabled and the console usable: nobody ever finds the lock taken.
\<close>

theorem console_never_deadlocks:
  assumes "console_run io notify calls pl i ts"
  shows "(irq_enabled pl \<longrightarrow> \<not> held (WRITER pl) \<and> (\<exists>pl'. irq_console io notify q (pl\<lparr>irq_enabled := False\<rparr>) = Inr pl' \<and> calm pl')) \<and>
    (\<exists>pl'. run_stages (todo (ts i)) (pl, saved_flags (ts i)) = Inr (pl', []) \<and> calm pl' \<and> irq_enabled pl')"
proof -
  obtain n h p where i: "disciplined n h p (todo (ts i))" "placed n h p (pl, saved_flags (ts i))"
    using console_run_inv [OF assms] by (auto simp: console_inv_def)
  show ?thesis
    using disciplined_runs [OF i] placed_enabled(1) [OF i] irq_console_ok [of "pl\<lparr>irq_enabled := False\<rparr>" io notify q]
    by (auto simp: calm_def console_ok_def)
qed

section \<open>Example\<close>

lemma console_run_stages:
  assumes "console_run io notify calls pl i ts" and "todo (ts i) = fs @ gs" and "run_stages fs (pl, saved_flags (ts i)) = Inr (pl', sv)"
  shows "console_run io notify calls pl' i (ts(i := (ts i)\<lparr>saved_flags := sv, todo := gs\<rparr>))"
  using assms
proof (induction fs arbitrary: pl ts)
  case Nil
  then have "(ts i)\<lparr>saved_flags := sv, todo := gs\<rparr> = ts i" by (cases "ts i") simp
  then have "ts(i := (ts i)\<lparr>saved_flags := sv, todo := gs\<rparr>) = ts" by (rule fun_upd_idem [OF sym])
  with Nil show ?case by simp
next
  case (Cons f fs)
  from Cons.prems(3) obtain pl1 sv1 where f: "f (pl, saved_flags (ts i)) = Inr (pl1, sv1)" "run_stages fs (pl1, sv1) = Inr (pl', sv)"
    by (cases "f (pl, saved_flags (ts i))") auto
  have "todo (ts i) = f # fs @ gs" using Cons.prems(2) by simp
  note r = console_run.step [OF Cons.prems(1) this f(1)]
  let ?ts = "ts(i := (ts i)\<lparr>saved_flags := sv1, todo := fs @ gs\<rparr>)"
  have "?ts(i := (?ts i)\<lparr>saved_flags := sv, todo := gs\<rparr>) = ts(i := (ts i)\<lparr>saved_flags := sv, todo := gs\<rparr>)"
    by (rule ext) simp
  moreover have "console_run io notify calls pl' i (?ts(i := (?ts i)\<lparr>saved_flags := sv, todo := gs\<rparr>))"
    using f(2) by (intro Cons.IH [OF r]) simp_all
  ultimately show ?case by (simp only:)
qed

text \<open>The first process prints its letter, a key is pressed while it spins, and the second process is inside its own call.\<close>

definition example_calls :: "nat \<Rightarrow> console_call list" where
  "example_calls j = (if j = 0 then [Turn ''A''] else [Print [[0x42]]])"

definition example_callers :: "nat \<Rightarrow> (u8 list, unit) caller" where
  "example_callers j = \<lparr>resume_if = True, saved_flags = [], todo = concat (map call_stages (example_calls j))\<rparr>"

lemma example_keyed:
  "\<exists>pl. console_run example_ports (#) example_calls pl 1
       (example_callers(0 := \<lparr>resume_if = True, saved_flags = [], todo = replicate SPINS spin_loop\<rparr>)) \<and> irq_enabled pl \<and> \<not> held (WRITER pl) \<and>
     inner (WRITER pl) = terminal (bytes_of ''AKeyboard pressed! Scancode: 30. Switching process...'' @ [0x0A]) (inner empty_screen)"
proof -
  let ?pl = "example_platform"
  have c: "calm ?pl" "console_ok (WRITER ?pl)" "irq_enabled ?pl" "inner (WRITER ?pl) = inner empty_screen"
    using example_platform_ok by (simp_all add: calm_def example_platform_def)
  have r0: "console_run example_ports (#) example_calls ?pl 0 example_callers"
    using console_run.start [OF c(1,3), of example_ports "(#)" example_calls 0] by (simp add: example_callers_def [abs_def])
  define pl1 where "pl1 = set_screen (terminal (bytes_of ''A'') (inner empty_screen)) ?pl"
  let ?ts1 = "example_callers(0 := (example_callers 0)\<lparr>saved_flags := [], todo := replicate SPINS spin_loop\<rparr>)"
  have "run_stages (masked (print_stages [bytes_of ''A''])) (?pl, []) = Inr (pl1, [])"
    using masked_print_ok(1) [OF c(2), of "bytes_of ''A''"]
    by (intro implementsD [OF masked_implements [OF print_stages_implement]]) (simp add: pl1_def c(4))
  then have r1: "console_run example_ports (#) example_calls pl1 0 ?ts1"
    by (intro console_run_stages [OF r0]) (simp_all add: example_callers_def example_calls_def turn_stages_def)
  let ?args = "[bytes_of ''Keyboard pressed! Scancode: '', decimal (unat (30 :: u8)), bytes_of ''. Switching process...'']"
  let ?pl1 = "pl1\<lparr>irq_enabled := False\<rparr>"
  have c1: "irq_enabled pl1" "\<not> held (PICS ?pl1)" "console_ok (WRITER ?pl1)" "in8 example_ports 0x60 (devices ?pl1) = (30, ())"
    using masked_print_ok(2) [OF c(2), of "bytes_of ''A''"] c
    by (simp_all add: pl1_def set_screen_def calm_def console_ok_def example_ports_def)
  define pl2 where "pl2 = ?pl1\<lparr>WRITER := (WRITER ?pl1)\<lparr>inner := shown ?args (inner (WRITER ?pl1))\<rparr>, PICS := (PICS ?pl1)\<lparr>inner := 33 # inner (PICS ?pl1)\<rparr>\<rparr>"
  have "irq_console example_ports (#) Key ?pl1 = Inr pl2"
    using keyboard_io [OF c1(3,2,4), of "(#)"] by (simp add: irq_console_def pl2_def)
  from console_run.interrupted [OF r1 c1(1) this refl, of 1]
  have "console_run example_ports (#) example_calls (pl2\<lparr>irq_enabled := True\<rparr>) 1
      (example_callers(0 := \<lparr>resume_if = True, saved_flags = [], todo = replicate SPINS spin_loop\<rparr>))"
    using c1(1) by (simp add: example_callers_def)
  moreover have "inner (WRITER pl2) = terminal (bytes_of ''AKeyboard pressed! Scancode: 30. Switching process...'' @ [0x0A]) (inner empty_screen)"
    by (simp add: pl2_def pl1_def shown_def bytes_of_def of_char_def decimal.simps)
  moreover have "\<not> held (WRITER pl2)" using c1(3) by (simp add: pl2_def console_ok_def)
  ultimately show ?thesis by (intro exI [of _ "pl2\<lparr>irq_enabled := True\<rparr>"]) simp
qed

theorem console_never_deadlocks_witness:
  "\<exists>pl ts. console_run example_ports (#) example_calls pl 1 ts \<and> held (WRITER pl) \<and> \<not> irq_enabled pl \<and>
     inner (WRITER pl) = terminal (bytes_of ''AKeyboard pressed! Scancode: 30. Switching process...'' @ [0x0A]) (inner empty_screen) \<and>
     todo (ts 1) = [emit_byte 0x42, unlock_writer, restore_flag] \<and>
     (\<exists>pl'. run_stages (todo (ts 1)) (pl, saved_flags (ts 1)) = Inr (pl', []) \<and> calm pl' \<and> irq_enabled pl')"
proof -
  let ?ts = "example_callers(0 := \<lparr>resume_if = True, saved_flags = [], todo = replicate SPINS spin_loop\<rparr>)"
  obtain pl where pl: "console_run example_ports (#) example_calls pl 1 ?ts" "irq_enabled pl" "\<not> held (WRITER pl)"
    "inner (WRITER pl) = terminal (bytes_of ''AKeyboard pressed! Scancode: 30. Switching process...'' @ [0x0A]) (inner empty_screen)"
    using example_keyed by blast
  let ?pl = "pl\<lparr>irq_enabled := False, WRITER := (WRITER pl)\<lparr>held := True\<rparr>\<rparr>"
  let ?ts1 = "?ts(1 := (?ts 1)\<lparr>saved_flags := [True], todo := [emit_byte 0x42, unlock_writer, restore_flag]\<rparr>)"
  have "run_stages [save_flag, disable_saved, lock_writer] (pl, []) = Inr (?pl, [True])"
    unfolding run_stages_simps using pl(2,3) by (simp add: save_flag_def disable_saved_def lock_writer_def mutex_lock_def)
  then have r: "console_run example_ports (#) example_calls ?pl 1 ?ts1"
    by (intro console_run_stages [OF pl(1), where fs = "[save_flag, disable_saved, lock_writer]"]) (simp_all add: example_callers_def example_calls_def print_stages_def masked_def)
  show ?thesis
    using r pl(4) console_never_deadlocks [OF r] by (intro exI [of _ ?pl] exI [of _ ?ts1]) simp
qed

end
