(* ===== verification/Net_Kernel.thy ===== *)
theory Net_Kernel
  imports Kernel_Main
begin

text \<open>
  The entry point of \<^verbatim>\<open>something_os_networking\<close> (\<^verbatim>\<open>main.rs\<close>): start-up without a scheduler, the scan that starts the
  drivers of the cards it finds, and the test packet.
\<close>

text \<open>\<open>virt_new\<close> is the crate's \<^verbatim>\<open>VirtAddr::new\<close>, which panics on an address that is not canonical, \<open>translate_addr\<close> its walk of the page tables.\<close>

definition virt_to_phys_u32 :: "(u64 \<Rightarrow> 'va result) \<Rightarrow> ('m \<Rightarrow> 'va \<Rightarrow> u64 option) \<Rightarrow> 'm \<Rightarrow> u64 \<Rightarrow> u32 result" where
  "virt_to_phys_u32 virt_new translate_addr mapper vaddr_ptr =
     and_then (virt_new vaddr_ptr) (\<lambda>virt_addr.
     case translate_addr mapper virt_addr of
       Some phys_addr \<Rightarrow> Inr (ucast phys_addr)
     | None \<Rightarrow> Inl (Panic (ExplicitPanic ''RTL8139 Error: Failed to translate buffer virtual address to physical!'')))"

text \<open>\<^verbatim>\<open>xs[a..a + src.len()].copy_from_slice(src)\<close>.\<close>

definition copy_at :: "nat \<Rightarrow> u8 list \<Rightarrow> u8 list \<Rightarrow> u8 list result" where
  "copy_at a src xs = (if a + length src \<le> length xs
     then Inr (take a xs @ src @ drop (a + length src) xs) else Inl (Panic IndexOutOfBounds))"

definition test_packet :: "u8 list result" where
  "test_packet =
     and_then (copy_at 0 [0xFF, 0xFF, 0xFF, 0xFF, 0xFF, 0xFF] (replicate 60 0)) (\<lambda>p.
     and_then (copy_at 6 [0x52, 0x54, 0x00, 0x12, 0x34, 0x56] p) (\<lambda>p.
     and_then (copy_at 12 [0x00, 0x00] p) (\<lambda>p.
     copy_at 14 (bytes_of ''Hello from Rust OS!'') p)))"

text \<open>The block under \<^verbatim>\<open>RTL8139.lock()\<close>; \<open>packet_addr\<close> is the address of the packet on the stack.\<close>

definition send_test_packet ::
  "'d ports \<Rightarrow> (u64 \<Rightarrow> 'va result) \<Rightarrow> ('m \<Rightarrow> 'va \<Rightarrow> u64 option) \<Rightarrow> u64 \<Rightarrow> ('m, 'page) paging \<Rightarrow> ('p, 'd) net_state \<Rightarrow> ('p, 'd) net_state result" where
  "send_test_packet io virt_new translate_addr packet_addr pg = (\<lambda>(RTL8139, pl).
     and_then (mutex_lock RTL8139) (\<lambda>guard.
     case guard of
       None \<Rightarrow> Inr (RTL8139, pl)
     | Some driver \<Rightarrow>
         and_then test_packet (\<lambda>packet.
         and_then (mutex_lock (MAPPER pg)) (\<lambda>mapper.
         case mapper of
           Some mapper \<Rightarrow>
             and_then (virt_to_phys_u32 virt_new translate_addr mapper packet_addr) (\<lambda>packet_phys_addr.
             and_then (println [bytes_of ''Virtual Addr: '', bytes_of ''0x'' @ map (\<lambda>d. if d < 58 then d else d + 32)
                 (hex_digits (unat packet_addr)), bytes_of '' -> Physical Addr: '', hex (unat packet_phys_addr)] pl) (\<lambda>pl.
             and_then (send_packet io packet_phys_addr (of_nat (length packet)) (driver, pl)) (\<lambda>(driver, pl).
             Inr (RTL8139\<lparr>inner := Some driver\<rparr>, pl))))
         | None \<Rightarrow>
             and_then (println [bytes_of ''Error: KERNEL_MAPPER is None!''] pl) (\<lambda>pl. Inr (RTL8139, pl))))))"

text \<open>\<^verbatim>\<open>kernel_main\<close> of \<^verbatim>\<open>something_os_networking\<close>, up to its idle loop.\<close>

definition net_kernel_main ::
  "('p, 'd, 'h, 'm, 'va, 'g) env \<Rightarrow> ('m \<Rightarrow> 'va \<Rightarrow> u64 option) \<Rightarrow> u64 \<Rightarrow> boot_info \<Rightarrow>
   ('p, 'd, 'h, 'm, 'page, 'g) world \<Rightarrow> ('p, 'd, 'h, 'm, 'page, 'g) world result" where
  "net_kernel_main e translate_addr packet_addr boot_info w =
     (let w = w\<lparr>w_segments := gdt_init (e_gdt e) (w_segments w)\<rparr> in
      and_then (init_idt (e_io e) (e_pics_initialize e) (w_platform w)) (\<lambda>pl.
      and_then (breakpoint_handler (e_frame_text e) pl) (\<lambda>pl.
      and_then (e_virt_new e (physical_memory_offset boot_info)) (\<lambda>phys_mem_offset.
      and_then (init_global_memory e phys_mem_offset (memory_map boot_info) (w_paging w)) (\<lambda>pg.
      and_then (init_heap (e_heap_init e) (w_heap w)) (\<lambda>heap.
      and_then (net_check_network_card (e_io e) (e_rx_addr e) (w_rtl8139 w, pl)) (\<lambda>st.
      and_then (send_test_packet (e_io e) (e_virt_new e) translate_addr packet_addr pg st) (\<lambda>(rtl, pl).
      Inr (w\<lparr>w_platform := pl, w_paging := pg, w_heap := heap, w_rtl8139 := rtl\<rparr>)))))))))"

text \<open>
  The physical address handed to the card is the translated one exactly when
  that lies below 4 GiB; a higher one is silently cut to its low 32 bits, and an address that is not canonical or not mapped panics.
\<close>

theorem virt_to_phys_exact:
  "virt_to_phys_u32 virt_new translate_addr mapper v =
     (case virt_new v of Inl x \<Rightarrow> Inl x | Inr va \<Rightarrow>
       (case translate_addr mapper va of
          None \<Rightarrow> Inl (Panic (ExplicitPanic ''RTL8139 Error: Failed to translate buffer virtual address to physical!''))
        | Some phys \<Rightarrow> Inr (of_nat (unat phys mod 2 ^ 32)))) \<and>
   (virt_new v = Inr va \<and> translate_addr mapper va = Some phys \<longrightarrow>
      (unat phys < 2 ^ 32 \<longleftrightarrow> map_sum id unat (virt_to_phys_u32 virt_new translate_addr mapper v) = Inr (unat phys)))"
  by (auto simp: virt_to_phys_u32_def unsigned_ucast_eq take_bit_eq_mod word_unat_eq_iff unat_of_nat
      split: option.splits sum.splits)

text \<open>
  The test packet can be built and is a minimum-size Ethernet frame: 60
  bytes, broadcast destination, the fixed source address, type zero, the greeting, zero padding.
\<close>

theorem test_packet_layout:
  "test_packet = Inr (replicate 6 0xFF @ [0x52, 0x54, 0x00, 0x12, 0x34, 0x56] @ [0, 0] @
     bytes_of ''Hello from Rust OS!'' @ replicate 27 0)"
  by (simp add: test_packet_def copy_at_def bytes_of_def numeral_eq_Suc)

lemma send_test_packet_eq:
  fixes pl :: "('p, 'd) platform"
  assumes "\<not> held rtl" and "inner rtl = Some drv" and "\<not> held (MAPPER pg)" and "inner (MAPPER pg) = Some mapper"
    and "virt_new packet_addr = Inr va" and "translate_addr mapper va = Some phys" and "console_ok (WRITER pl)"
  shows "\<exists>args. send_test_packet io virt_new translate_addr packet_addr pg (rtl, pl) =
    and_then (send_packet io (ucast phys) 60 (drv, pl\<lparr>WRITER := (WRITER pl)\<lparr>inner := shown args (inner (WRITER pl))\<rparr>\<rparr>))
      (\<lambda>(drv, pl). Inr (rtl\<lparr>inner := Some drv\<rparr>, pl))"
proof -
  let ?text = "[bytes_of ''Virtual Addr: '', bytes_of ''0x'' @ map (\<lambda>d. if d < 58 then d else d + 32)
    (hex_digits (unat packet_addr)), bytes_of '' -> Physical Addr: '', hex (unat (ucast phys :: u32))]"
  have tp: "and_then test_packet f = f p" "length p = 60"
    if "p = replicate 6 0xFF @ [0x52, 0x54, 0x00, 0x12, 0x34, 0x56] @ [0, 0] @ bytes_of ''Hello from Rust OS!'' @ replicate 27 0"
    for f :: "u8 list \<Rightarrow> 'x result" and p
    using that by (simp_all add: test_packet_def copy_at_def bytes_of_def numeral_eq_Suc)
  show ?thesis
    unfolding send_test_packet_def prod.case tp(1) [OF refl] tp(2) [OF refl]
    using assms(1-6) println_ok(1) [OF assms(7), of ?text]
    by (intro exI [of _ ?text]) (simp add: mutex_lock_def virt_to_phys_u32_def)
qed

text \<open>
  Without a driver nothing is sent. With a driver, a mapper and a
  translation for the packet, and a device that completes transmissions, exactly one packet of 60 bytes is
  sent from the translated address through the driver's current descriptor, and the driver moves on
  to the next one.
\<close>

theorem send_test_packet_effect:
  fixes pl :: "('p, 'd) platform"
  assumes "\<not> held rtl" and "\<not> held (MAPPER pg)" and "inner (MAPPER pg) = Some mapper"
    and "virt_new packet_addr = Inr va" and "translate_addr mapper va = Some phys" and "console_ok (WRITER pl)"
    and "\<And>p d. \<exists>n. bit (fst (in32 io p (nth_state (in32 io p) n d))) 13"
    and "\<And>drv. inner rtl = Some drv \<Longrightarrow> unat (tx_index drv) < 4 \<and> unat (io_base drv) + 0x2C < 0x10000"
  shows "case inner rtl of
      None \<Rightarrow> send_test_packet io virt_new translate_addr packet_addr pg (rtl, pl) = Inr (rtl, pl)
    | Some drv \<Rightarrow> \<exists>pl1 pl2 :: ('p, 'd) platform. devices pl1 = devices pl \<and>
        send_packet io (ucast phys) 60 (drv, pl1) =
          Inr (drv\<lparr>tx_index := of_nat ((unat (tx_index drv) + 1) mod 4)\<rparr>, pl2) \<and>
        send_test_packet io virt_new translate_addr packet_addr pg (rtl, pl) =
          Inr (rtl\<lparr>inner := Some (drv\<lparr>tx_index := of_nat ((unat (tx_index drv) + 1) mod 4)\<rparr>)\<rparr>, pl2)"
proof (cases "inner rtl")
  case None
  then show ?thesis using assms(1) by (simp add: send_test_packet_def mutex_lock_def)
next
  case (Some drv)
  from send_test_packet_eq [where virt_new = virt_new and translate_addr = translate_addr and rtl = rtl and pg = pg and io = io,
      OF assms(1) Some assms(2-6)] obtain args where
    e: "send_test_packet io virt_new translate_addr packet_addr pg (rtl, pl) =
      and_then (send_packet io (ucast phys) 60 (drv, pl\<lparr>WRITER := (WRITER pl)\<lparr>inner := shown args (inner (WRITER pl))\<rparr>\<rparr>))
        (\<lambda>(drv, pl). Inr (rtl\<lparr>inner := Some drv\<rparr>, pl))" by blast
  let ?pl = "pl\<lparr>WRITER := (WRITER pl)\<lparr>inner := shown args (inner (WRITER pl))\<rparr>\<rparr>"
  have con: "console_ok (WRITER ?pl)" using println_ok(2) [OF assms(6)] assms(6) by (simp add: console_ok_def)
  have tx: "unat (tx_index drv) < 4" "unat (io_base drv) + 0x2C < 0x10000" using assms(8) [OF Some] by simp_all
  obtain pl2 where pl2: "send_packet io (ucast phys) 60 (drv, ?pl) =
      Inr (drv\<lparr>tx_index := of_nat ((unat (tx_index drv) + 1) mod 4)\<rparr>, pl2)"
    using send_packet_eq [OF con refl tx refl refl refl, of io "ucast phys" 60] assms(7) by auto
  then show ?thesis using Some e by (auto intro!: exI [of _ ?pl])
qed

theorem send_test_packet_effect_witness:
  "\<exists>pl2. send_test_packet done_ports Inr (\<lambda>_ v. Some v) 0x5000
      \<lparr>MAPPER = \<lparr>held = False, inner = Some ()\<rparr>, FRAME_ALLOCATOR = \<lparr>held = False, inner = None\<rparr>, flushed = [] :: u64 list\<rparr>
      (\<lparr>held = False, inner = Some (rtl_new 0xC000)\<rparr>, example_platform) =
    Inr (\<lparr>held = False, inner = Some ((rtl_new 0xC000)\<lparr>tx_index := 1\<rparr>)\<rparr>, pl2)"
proof -
  let ?rtl = "\<lparr>held = False, inner = Some (rtl_new 0xC000)\<rparr>"
  let ?pg = "\<lparr>MAPPER = \<lparr>held = False, inner = Some ()\<rparr>, FRAME_ALLOCATOR = \<lparr>held = False, inner = None\<rparr>, flushed = [] :: u64 list\<rparr>"
  have "\<not> held ?rtl" "\<not> held (MAPPER ?pg)" "inner (MAPPER ?pg) = Some ()" by simp_all
  from send_test_packet_effect [OF this, of Inr "0x5000" "0x5000" "\<lambda>_ v. Some v" "0x5000", OF _ _ example_platform_ok(2) done_ports_live]
  show ?thesis by (auto simp: rtl_new_def)
qed

end
