(* ===== verification/Net_Boot.thy ===== *)
theory Net_Boot
  imports Net_Kernel
begin

text \<open>
  Start-up of the networking kernel on working hardware: which registers it writes, in which order, and what it leaves
  behind. The hardware is any device behind the ports that, as long as it is accessed the way the kernel does it, answers configuration reads
  consistently and completes resets and transmissions (\<open>net_hardware\<close>); \<open>logged\<close> records the writes it receives.
\<close>

section \<open>Recording port writes\<close>

datatype port_write = W8 u16 u8 | W16 u16 u16 | W32 u16 u32

definition logged :: "'d ports \<Rightarrow> ('d \<times> port_write list) ports" where
  "logged io = \<lparr>
     out8 = \<lambda>p v d. (out8 io p v (fst d), snd d @ [W8 p v]),
     out16 = \<lambda>p v d. (out16 io p v (fst d), snd d @ [W16 p v]),
     out32 = \<lambda>p v d. (out32 io p v (fst d), snd d @ [W32 p v]),
     in8 = \<lambda>p d. (fst (in8 io p (fst d)), snd (in8 io p (fst d)), snd d),
     in32 = \<lambda>p d. (fst (in32 io p (fst d)), snd (in32 io p (fst d)), snd d)\<rparr>"

lemma logged_sel [simp]:
  "out8 (logged io) p v d = (out8 io p v (fst d), snd d @ [W8 p v])"
  "out16 (logged io) p w d = (out16 io p w (fst d), snd d @ [W16 p w])"
  "out32 (logged io) p x d = (out32 io p x (fst d), snd d @ [W32 p x])"
  "in8 (logged io) p d = (fst (in8 io p (fst d)), snd (in8 io p (fst d)), snd d)"
  "in32 (logged io) p d = (fst (in32 io p (fst d)), snd (in32 io p (fst d)), snd d)"
  by (simp_all add: logged_def)

lemma nth_state_logged:
  "nth_state (in8 (logged io) p) n d = (nth_state (in8 io p) n (fst d), snd d)"
  "nth_state (in32 (logged io) p) n d = (nth_state (in32 io p) n (fst d), snd d)"
  by (induction n arbitrary: d) (simp_all add: nth_state_Suc)

section \<open>The hardware\<close>

text \<open>
  A slot is a bus and a device number. \<open>ids\<close> and \<open>bar0\<close> are the identification and the first base address register of
  the device there.
\<close>

definition register_address :: "nat \<times> nat \<Rightarrow> u32 \<Rightarrow> u32" where
  "register_address = (\<lambda>(bus, slot) offset. config_address (of_nat bus) (of_nat slot) 0 offset)"

definition card_base :: "u32 \<Rightarrow> u16" where
  "card_base bar = ucast (bar AND NOT 0x3)"

definition driven :: "(nat \<times> nat \<Rightarrow> u32) \<Rightarrow> (nat \<times> nat \<Rightarrow> u32) \<Rightarrow> nat \<times> nat \<Rightarrow> bool" where
  "driven ids bar0 x = (ids x = 0x813910EC \<and> bit (bar0 x) 0)"

text \<open>
  How far the kernel has got with the card in a slot: it decodes its ports once its command register says so, and transmits once
  it has been started.
\<close>

datatype card_phase = Off | Decoding | Started

text \<open>Adding port access and bus mastering to the command register.\<close>

definition enable :: "'d ports \<Rightarrow> nat \<times> nat \<Rightarrow> 'd \<Rightarrow> 'd" where
  "enable io x d = (let (cmd, d) = in32 io 0xCFC (out32 io 0xCF8 (register_address x 0x04) d) in out32 io 0xCFC (cmd OR 5) d)"

text \<open>
  What a card with its registers at \<open>base\<close> lets the driver do in the state \<open>d\<close>. While it decodes its ports it comes out of a reset
  sooner or later; once started it completes a transmission through its first descriptor sooner or later.
\<close>

definition card_accepts ::
  "'d ports \<Rightarrow> ((nat \<times> nat \<Rightarrow> card_phase) \<Rightarrow> 'd \<Rightarrow> bool) \<Rightarrow> (nat \<times> nat \<Rightarrow> card_phase) \<Rightarrow> nat \<times> nat \<Rightarrow> u16 \<Rightarrow> 'd \<Rightarrow> bool" where
  "card_accepts io good ph x base d = (case ph x of
     Off \<Rightarrow> True
   | Decoding \<Rightarrow>
       good ph (out8 io (base + 0x37) 0x10 d) \<and> good ph (snd (in8 io (base + 0x37) d)) \<and>
       (\<exists>n. \<not> bit (fst (in8 io (base + 0x37) (nth_state (in8 io (base + 0x37)) n d))) 4) \<and>
       (\<forall>v. good ph (out32 io (base + 0x30) v d)) \<and> good ph (out32 io (base + 0x44) 0x8F d) \<and>
       good ph (out16 io (base + 0x3E) 0xFFFF d) \<and> good ph (out16 io (base + 0x3C) 5 d) \<and>
       good (ph(x := Started)) (out8 io (base + 0x37) 0x0C d)
   | Started \<Rightarrow>
       (\<forall>v. good ph (out32 io (base + 0x20) v d)) \<and> good ph (out32 io (base + 0x10) 60 d) \<and> good ph (snd (in32 io (base + 0x10) d)) \<and>
       (\<exists>n. bit (fst (in32 io (base + 0x10) (nth_state (in32 io (base + 0x10)) n d))) 13))"

text \<open>
  Working hardware, with a set of good states for every assignment of phases. In a good state the registers of every
  slot read as \<open>ids\<close> and \<open>bar0\<close> say, and the command register of a card that is still off as \<open>cmd\<close> says. Good states are kept by the accesses the kernel makes and by no others: programming the timer, choosing and
  reading a configuration register, adding the two bits to the command register of a card it drives, and the register
  accesses of that card's phase. Other writes, to a base address register say, may do anything.
\<close>

definition net_hardware ::
  "'d ports \<Rightarrow> ((nat \<times> nat \<Rightarrow> card_phase) \<Rightarrow> 'd \<Rightarrow> bool) \<Rightarrow> (nat \<times> nat \<Rightarrow> u32) \<Rightarrow> (nat \<times> nat \<Rightarrow> u32) \<Rightarrow> (nat \<times> nat \<Rightarrow> u32) \<Rightarrow> bool" where
  "net_hardware io good ids cmd bar0 = (\<forall>ph d. good ph d \<longrightarrow>
     good ph (snd (in32 io 0xCFC d)) \<and> (\<forall>a. good ph (out32 io 0xCF8 a d)) \<and>
     (\<forall>v. good ph (out8 io 0x43 v d)) \<and> (\<forall>v. good ph (out8 io 0x40 v d)) \<and>
     (\<forall>x\<in>set slots.
        fst (in32 io 0xCFC (out32 io 0xCF8 (slot_address x) d)) = ids x \<and>
        fst (in32 io 0xCFC (out32 io 0xCF8 (register_address x 0x10) d)) = bar0 x \<and>
        (ids x = 0x813910EC \<and> ph x = Off \<longrightarrow>
           fst (in32 io 0xCFC (out32 io 0xCF8 (register_address x 0x04) d)) = cmd x \<and> good (ph(x := Decoding)) (enable io x d)) \<and>
        (driven ids bar0 x \<longrightarrow> unat (card_base (bar0 x)) + 0x44 < 0x10000 \<and> card_accepts io good ph x (card_base (bar0 x)) d)))"

lemma net_hardwareD:
  assumes "net_hardware io good ids cmd bar0" and "good ph d"
  shows "good ph (snd (in32 io 0xCFC d))" "good ph (out32 io 0xCF8 a d)" "good ph (out8 io 0x43 v d)" "good ph (out8 io 0x40 v d)"
    "x \<in> set slots \<Longrightarrow> fst (in32 io 0xCFC (out32 io 0xCF8 (slot_address x) d)) = ids x"
    "x \<in> set slots \<Longrightarrow> fst (in32 io 0xCFC (out32 io 0xCF8 (register_address x 0x10) d)) = bar0 x"
    "x \<in> set slots \<Longrightarrow> ids x = 0x813910EC \<Longrightarrow> ph x = Off \<Longrightarrow> good (ph(x := Decoding)) (enable io x d)"
    "x \<in> set slots \<Longrightarrow> driven ids bar0 x \<Longrightarrow> unat (card_base (bar0 x)) + 0x44 < 0x10000"
    "x \<in> set slots \<Longrightarrow> driven ids bar0 x \<Longrightarrow> card_accepts io good ph x (card_base (bar0 x)) d"
    "x \<in> set slots \<Longrightarrow> ids x = 0x813910EC \<Longrightarrow> ph x = Off \<Longrightarrow> fst (in32 io 0xCFC (out32 io 0xCF8 (register_address x 0x04) d)) = cmd x"
  using assms unfolding net_hardware_def by blast+

lemma card_decoding:
  assumes "net_hardware io good ids cmd bar0" and "x \<in> set slots" and "driven ids bar0 x" and "base = card_base (bar0 x)" and "ph x = Decoding"
    and "good ph d"
  shows "good ph (out8 io (base + 0x37) 0x10 d)" "good ph (snd (in8 io (base + 0x37) d))"
    "\<exists>n. \<not> bit (fst (in8 io (base + 0x37) (nth_state (in8 io (base + 0x37)) n d))) 4"
    "good ph (out32 io (base + 0x30) v d)" "good ph (out32 io (base + 0x44) 0x8F d)"
    "good ph (out16 io (base + 0x3E) 0xFFFF d)" "good ph (out16 io (base + 0x3C) 5 d)"
    "good (ph(x := Started)) (out8 io (base + 0x37) 0x0C d)"
  using net_hardwareD(9) [OF assms(1,6,2,3)] assms(4,5) by (simp_all add: card_accepts_def)

lemma card_started:
  assumes "net_hardware io good ids cmd bar0" and "x \<in> set slots" and "driven ids bar0 x" and "base = card_base (bar0 x)" and "ph x = Started"
    and "good ph d"
  shows "good ph (out32 io (base + 0x20) v d)" "good ph (out32 io (base + 0x10) 60 d)" "good ph (snd (in32 io (base + 0x10) d))"
    "\<exists>n. bit (fst (in32 io (base + 0x10) (nth_state (in32 io (base + 0x10)) n d))) 13"
  using net_hardwareD(9) [OF assms(1,6,2,3)] assms(4,5) by (simp_all add: card_accepts_def)

lemma nth_state_good: "good d \<Longrightarrow> (\<And>d. good d \<Longrightarrow> good (snd (rd d))) \<Longrightarrow> good (nth_state rd n d)"
  by (induction n arbitrary: d) (simp_all add: nth_state_Suc)

section \<open>What is written\<close>

definition card_writes :: "u16 \<Rightarrow> u64 \<Rightarrow> port_write list" where
  "card_writes base rx_addr = [W8 (base + 0x37) 0x10, W32 (base + 0x30) (ucast rx_addr), W32 (base + 0x44) 0x8F,
     W16 (base + 0x3E) 0xFFFF, W16 (base + 0x3C) 0x0005, W8 (base + 0x37) 0x0C]"

definition slot_writes ::
  "(nat \<times> nat \<Rightarrow> u32) \<Rightarrow> (nat \<times> nat \<Rightarrow> u32) \<Rightarrow> (nat \<times> nat \<Rightarrow> u32) \<Rightarrow> u64 \<Rightarrow> nat \<times> nat \<Rightarrow> port_write list" where
  "slot_writes ids bar0 cmd rx_addr x = W32 0xCF8 (slot_address x) #
     (if ids x = 0x813910EC then
        [W32 0xCF8 (register_address x 0x04), W32 0xCFC (cmd x OR 5), W32 0xCF8 (register_address x 0x10)] @
        (if bit (bar0 x) 0 then card_writes (card_base (bar0 x)) rx_addr else [])
      else [])"

text \<open>The platform after some more output and port accesses.\<close>

definition advanced :: "('d \<Rightarrow> bool) \<Rightarrow> ('p, 'd \<times> port_write list) platform \<Rightarrow> port_write list \<Rightarrow> ('p, 'd \<times> port_write list) platform \<Rightarrow> bool" where
  "advanced good pl ws pl' = (ready pl' \<and> good (fst (devices pl')) \<and> snd (devices pl') = snd (devices pl) @ ws)"

lemma advanced_println:
  assumes "ready pl" and "good (fst (devices pl))"
  shows "\<exists>pl'. println args pl = Inr pl' \<and> advanced good pl [] pl' \<and> devices pl' = devices pl"
  using println_ok [of pl args] assms by (simp add: ready_def console_ok_def advanced_def)

lemma advanced_trans: "advanced good pl us pl1 \<Longrightarrow> advanced good' pl1 vs pl2 \<Longrightarrow> advanced good' pl (us @ vs) pl2"
  by (simp add: advanced_def)

lemma with_line_ready: "ready pl \<Longrightarrow> ready (with_line t pl)"
  using println_line(2) [of pl t] by (simp add: ready_def with_line_def)

lemma with_line_devices: "with_line t (pl\<lparr>devices := d\<rparr>) = (with_line t pl)\<lparr>devices := d\<rparr>"
  by (simp add: with_line_def)

lemma rtl_init_logged:
  assumes hw: "net_hardware io good ids cmd bar0" and x: "x \<in> set slots" "driven ids bar0 x" and ph: "ph x = Decoding"
    and pl: "ready pl" "good ph (fst (devices pl))"
  shows "\<exists>pl'. rtl_init (logged io) rx_addr (rtl_new (card_base (bar0 x))) pl = Inr pl' \<and>
    advanced (good (ph(x := Started))) pl (card_writes (card_base (bar0 x)) rx_addr) pl'"
proof -
  let ?b = "card_base (bar0 x)"
  have con: "console_ok (WRITER pl)" using pl(1) by (simp add: ready_def)
  note C = card_decoding [where ph = ph, OF hw x refl ph]
  have fits: "\<not> 0x10000 \<le> unat ?b + 0x44" using net_hardwareD(8) [OF hw pl(2) x] by simp
  let ?d = "out8 io (?b + 0x37) 0x10 (fst (devices pl))"
  have g: "good ph (nth_state (in8 io (?b + 0x37)) n ?d)" for n
    using C(1) [OF pl(2)] C(2) by (rule nth_state_good)
  have live: "\<exists>n. \<not> bit (fst (in8 io (?b + 0x37) (nth_state (in8 io (?b + 0x37)) n ?d))) 4"
    by (rule C(3) [OF C(1) [OF pl(2)]])
  show ?thesis
    using rtl_init_eq [OF con refl refl refl, of "logged io" rx_addr "rtl_new ?b"] fits live pl
    by (simp add: rtl_new_def nth_state_logged advanced_def card_writes_def C(4-8) g with_line_ready println_line(3))
qed

text \<open>The global driver after a slot: a card that is driven replaces what was there.\<close>

definition slot_driver ::
  "(nat \<times> nat \<Rightarrow> u32) \<Rightarrow> (nat \<times> nat \<Rightarrow> u32) \<Rightarrow> nat \<times> nat \<Rightarrow> Rtl8139Driver option \<Rightarrow> Rtl8139Driver option" where
  "slot_driver ids bar0 x drv = (if driven ids bar0 x then Some (rtl_new (card_base (bar0 x))) else drv)"

text \<open>The phase of a slot after it has been visited.\<close>

definition slot_phase ::
  "(nat \<times> nat \<Rightarrow> u32) \<Rightarrow> (nat \<times> nat \<Rightarrow> u32) \<Rightarrow> nat \<times> nat \<Rightarrow> (nat \<times> nat \<Rightarrow> card_phase) \<Rightarrow> nat \<times> nat \<Rightarrow> card_phase" where
  "slot_phase ids bar0 x ph = (if ids x = 0x813910EC then ph(x := if bit (bar0 x) 0 then Started else Decoding) else ph)"

text \<open>The accesses to the configuration registers of a card, and the line that is printed about it.\<close>

lemma init_device_config:
  assumes hw: "net_hardware io good ids cmd bar0" and x: "x \<in> set slots" "x = (bus, slot)" "ids x = 0x813910EC" and ph: "ph x = Off"
    and pl: "ready pl" "good ph (fst (devices pl))" and rtl: "\<not> held rtl"
  shows "\<exists>pl0 pl1. init_device (logged io) rx_addr (of_nat bus) (of_nat slot) 0 (rtl, pl) =
      (if bit (bar0 x) 0 then
         and_then (rtl_init (logged io) rx_addr (rtl_new (card_base (bar0 x))) pl1) (\<lambda>pl2.
         and_then (println [bytes_of ''-> RTL8139 Driver initialized successfully!''] pl2) (\<lambda>pl3.
         Inr (rtl\<lparr>inner := Some (rtl_new (card_base (bar0 x)))\<rparr>, pl3)))
       else Inr (rtl, pl0)) \<and>
    (\<forall>pl'\<in>{pl0, pl1}. advanced (good (ph(x := Decoding))) pl
       [W32 0xCF8 (register_address x 0x04), W32 0xCFC (cmd x OR 5), W32 0xCF8 (register_address x 0x10)] pl')"
proof -
  note H = net_hardwareD [OF hw]
  let ?d = "out32 io 0xCF8 (register_address x 0x04) (fst (devices pl))"
  have c: "fst (in32 io 0xCFC ?d) = cmd x" by (rule H(10) [OF pl(2) x(1,3) ph])
  let ?d1 = "out32 io 0xCFC (cmd x OR 5) (snd (in32 io 0xCFC ?d))" and ?l = "snd (devices pl)"
  let ?ws = "[W32 0xCF8 (register_address x 0x04), W32 0xCFC (cmd x OR 5), W32 0xCF8 (register_address x 0x10)]"
  define d2 where "d2 = (snd (in32 io 0xCFC (out32 io 0xCF8 (register_address x 0x10) ?d1)), ?l @ ?ws)"
  have "?d1 = enable io x (fst (devices pl))" using c by (auto simp: enable_def split: prod.split)
  then have g: "good (ph(x := Decoding)) ?d1" using H(7) [OF pl(2) x(1,3) ph] by simp
  then have g2: "good (ph(x := Decoding)) (fst d2)" by (simp add: d2_def H(1,2))
  have con: "console_ok (WRITER pl)" using pl(1) by (simp add: ready_def)
  have reg: "config_address (of_nat bus) (of_nat slot) 0 r = register_address x r" for r by (simp add: x(2) register_address_def)
  define line where "line = [bytes_of ''-> RTL8139 IO Base Address: '', hex (unat (card_base (bar0 x)))]"
  define pl0 where "pl0 = with_line ''-> Error: RTL8139 is using Memory Mapping, expected I/O Mapping.'' (pl\<lparr>devices := d2\<rparr>)"
  define pl1 where "pl1 = (pl\<lparr>devices := d2\<rparr>)\<lparr>WRITER := (WRITER pl)\<lparr>inner := shown line (inner (WRITER pl))\<rparr>\<rparr>"
  have "init_device (logged io) rx_addr (of_nat bus) (of_nat slot) 0 (rtl, pl) =
    (if bit (bar0 x) 0 then
       and_then (rtl_init (logged io) rx_addr (rtl_new (card_base (bar0 x))) pl1) (\<lambda>pl2.
       and_then (println [bytes_of ''-> RTL8139 Driver initialized successfully!''] pl2) (\<lambda>pl3.
       Inr (rtl\<lparr>inner := Some (rtl_new (card_base (bar0 x)))\<rparr>, pl3)))
     else Inr (rtl, pl0))"
    using H(6) [OF g x(1)] unfolding pl0_def
    by (intro init_device_eq [OF con rtl, where ?d1.0 = "(snd (in32 io 0xCFC ?d), ?l @ [W32 0xCF8 (register_address x 0x04)])" and cmd = "cmd x"])
       (simp_all add: reg c d2_def pl1_def line_def card_base_def)
  moreover have "advanced (good (ph(x := Decoding))) pl ?ws pl1"
    using pl(1) g2 println_ok(2) [OF con, of line] by (simp add: pl1_def ready_def console_ok_def advanced_def d2_def)
  moreover have "advanced (good (ph(x := Decoding))) pl ?ws pl0"
    using pl(1) g2 with_line_ready [of pl] by (simp add: pl0_def advanced_def with_line_devices d2_def ready_def)
  ultimately show ?thesis by blast
qed

lemma init_device_logged:
  assumes hw: "net_hardware io good ids cmd bar0" and x: "x \<in> set slots" "x = (bus, slot)" "ids x = 0x813910EC" and ph: "ph x = Off"
    and pl: "ready pl" "good ph (fst (devices pl))" and rtl: "\<not> held rtl"
  shows "\<exists>pl'. init_device (logged io) rx_addr (of_nat bus) (of_nat slot) 0 (rtl, pl) =
      Inr (rtl\<lparr>inner := slot_driver ids bar0 x (inner rtl)\<rparr>, pl') \<and>
    advanced (good (slot_phase ids bar0 x ph)) pl
      ([W32 0xCF8 (register_address x 0x04), W32 0xCFC (cmd x OR 5), W32 0xCF8 (register_address x 0x10)] @
      (if bit (bar0 x) 0 then card_writes (card_base (bar0 x)) rx_addr else [])) pl'"
proof -
  let ?ws = "[W32 0xCF8 (register_address x 0x04), W32 0xCFC (cmd x OR 5), W32 0xCF8 (register_address x 0x10)]"
  let ?b = "card_base (bar0 x)"
  obtain pl0 pl1 where e: "init_device (logged io) rx_addr (of_nat bus) (of_nat slot) 0 (rtl, pl) =
      (if bit (bar0 x) 0 then
         and_then (rtl_init (logged io) rx_addr (rtl_new ?b) pl1) (\<lambda>pl2.
         and_then (println [bytes_of ''-> RTL8139 Driver initialized successfully!''] pl2) (\<lambda>pl3.
         Inr (rtl\<lparr>inner := Some (rtl_new ?b)\<rparr>, pl3)))
       else Inr (rtl, pl0))"
    and a: "\<forall>pl'\<in>{pl0, pl1}. advanced (good (ph(x := Decoding))) pl ?ws pl'"
    using init_device_config [OF hw x ph pl rtl, of rx_addr] by (elim exE conjE) (rule that)
  from a have a0: "advanced (good (ph(x := Decoding))) pl ?ws pl0"
    and a1: "advanced (good (ph(x := Decoding))) pl ?ws pl1" by simp_all
  show ?thesis
  proof (cases "bit (bar0 x) 0")
    case True
    then have dr: "driven ids bar0 x" using x(3) by (simp add: driven_def)
    have pl1: "ready pl1" "good (ph(x := Decoding)) (fst (devices pl1))" using a1 by (simp_all add: advanced_def)
    have "(ph(x := Decoding)) x = Decoding" by simp
    from rtl_init_logged [where ph = "ph(x := Decoding)", OF hw x(1) dr this pl1, of rx_addr, unfolded fun_upd_upd]
    obtain pl2 where pl2: "rtl_init (logged io) rx_addr (rtl_new ?b) pl1 = Inr pl2"
        "advanced (good (ph(x := Started))) pl1 (card_writes ?b rx_addr) pl2" by blast
    obtain pl3 where pl3: "println [bytes_of ''-> RTL8139 Driver initialized successfully!''] pl2 = Inr pl3"
        "advanced (good (ph(x := Started))) pl2 [] pl3"
      using advanced_println [of pl2 "good (ph(x := Started))"] pl2(2) by (auto simp: advanced_def)
    show ?thesis
      using e True dr x(3) pl2(1) pl3(1) advanced_trans [OF a1 advanced_trans [OF pl2(2) pl3(2)]]
      by (intro exI [of _ pl3]) (simp add: slot_driver_def slot_phase_def)
  next
    case False
    then show ?thesis
      using e a0 x(3) by (intro exI [of _ pl0]) (simp add: slot_driver_def driven_def slot_phase_def)
  qed
qed

lemma net_check_slot_logged:
  assumes hw: "net_hardware io good ids cmd bar0" and x: "(bus, slot) \<in> set slots" and ph: "ph (bus, slot) = Off"
    and pl: "ready pl" "good ph (fst (devices pl))" and rtl: "\<not> held rtl"
  shows "\<exists>pl'. net_check_slot (logged io) rx_addr (of_nat bus) (of_nat slot) (rtl, pl) =
      Inr (rtl\<lparr>inner := slot_driver ids bar0 (bus, slot) (inner rtl)\<rparr>, pl') \<and>
    advanced (good (slot_phase ids bar0 (bus, slot) ph)) pl (slot_writes ids bar0 cmd rx_addr (bus, slot)) pl'"
proof -
  let ?x = "(bus, slot)"
  let ?a = "slot_address ?x" and ?d = "out32 io 0xCF8 (slot_address ?x) (fst (devices pl))"
  define pl0 where "pl0 = pl\<lparr>devices := (snd (in32 io 0xCFC ?d), snd (devices pl) @ [W32 0xCF8 ?a])\<rparr>"
  note H = net_hardwareD [OF hw pl(2)]
  have a: "push_bit 31 1 OR push_bit 16 (of_nat bus) OR push_bit 11 (of_nat slot) OR 0x00 = ?a"
    by (simp add: slot_address_def config_address_def)
  have r: "read32 (logged io) 0xCFC (write32 (logged io) 0xCF8 ?a pl) = (ids ?x, pl0)"
    using H(5) [OF x] by (simp add: read32_def write32_def pl0_def)
  have id: "(ucast (w AND 0xFFFF) :: u16) = 0x10EC \<and> (ucast (drop_bit 16 w) :: u16) = 0x8139 \<longleftrightarrow> w = 0x813910EC" for w :: u32
    unfolding ids_split by simp
  have pl0: "ready pl0" "good ph (fst (devices pl0))" "advanced (good ph) pl [W32 0xCF8 ?a] pl0"
    using pl net_hardwareD(1) [OF hw H(2)] by (simp_all add: pl0_def advanced_def)
  show ?thesis
  proof (cases "ids ?x = 0x813910EC")
    case True
    then have v: "(ucast (ids ?x AND 0xFFFF) :: u16) = 0x10EC" "(ucast (drop_bit 16 (ids ?x)) :: u16) = 0x8139" using id by blast+
    obtain pl1 where pl1: "println (at_slot ''Realtek RTL8139'' (of_nat bus) (of_nat slot)) pl0 = Inr pl1" "advanced (good ph) pl0 [] pl1"
      using advanced_println [of pl0 "good ph", OF pl0(1,2)] by blast
    then have "ready pl1" "good ph (fst (devices pl1))" by (simp_all add: advanced_def)
    from init_device_logged [where ph = ph, OF hw x refl True ph this rtl, of rx_addr] obtain pl2 where
      i: "init_device (logged io) rx_addr (of_nat bus) (of_nat slot) 0 (rtl, pl1) = Inr (rtl\<lparr>inner := slot_driver ids bar0 ?x (inner rtl)\<rparr>, pl2)"
        "advanced (good (slot_phase ids bar0 ?x ph)) pl1 ([W32 0xCF8 (register_address ?x 0x04), W32 0xCFC (cmd ?x OR 5), W32 0xCF8 (register_address ?x 0x10)] @
          (if bit (bar0 ?x) 0 then card_writes (card_base (bar0 ?x)) rx_addr else [])) pl2" by blast
    have "net_check_slot (logged io) rx_addr (of_nat bus) (of_nat slot) (rtl, pl) = Inr (rtl\<lparr>inner := slot_driver ids bar0 ?x (inner rtl)\<rparr>, pl2)"
      unfolding net_check_slot_def Let_def prod.case a r v using pl1(1) i(1) by simp
    then show ?thesis
      using advanced_trans [OF pl0(3) advanced_trans [OF pl1(2) i(2)]] True by (intro exI [of _ pl2]) (simp add: slot_writes_def)
  next
    case False
    then have nv: "\<not> ((ucast (ids ?x AND 0xFFFF) :: u16) = 0x10EC \<and> (ucast (drop_bit 16 (ids ?x)) :: u16) = 0x8139)" using id by blast
    obtain pl1 where pl1: "println (at_slot ''Intel e1000'' (of_nat bus) (of_nat slot)) pl0 = Inr pl1" "advanced (good ph) pl0 [] pl1"
      using advanced_println [of pl0 "good ph", OF pl0(1,2)] by blast
    have "net_check_slot (logged io) rx_addr (of_nat bus) (of_nat slot) (rtl, pl) \<in> {Inr (rtl, pl0), Inr (rtl, pl1)}"
      unfolding net_check_slot_def Let_def prod.case a r using nv pl1(1) by auto
    then show ?thesis
      using pl0(3) advanced_trans [OF pl0(3) pl1(2)] False by (auto simp: slot_writes_def slot_driver_def slot_phase_def driven_def)
  qed
qed

section \<open>The scan\<close>

lemma scan_logged:
  assumes "net_hardware io good ids cmd bar0" and "set xs \<subseteq> set slots" and "distinct xs" and "\<forall>x\<in>set xs. ph x = Off"
    and "ready pl" and "good ph (fst (devices pl))" and "\<not> held rtl"
  shows "\<exists>pl'. for_loop xs (\<lambda>(bus, slot). net_check_slot (logged io) rx_addr (of_nat bus) (of_nat slot)) (rtl, pl) =
      Inr (rtl\<lparr>inner := fold (slot_driver ids bar0) xs (inner rtl)\<rparr>, pl') \<and>
    advanced (good (fold (slot_phase ids bar0) xs ph)) pl (concat (map (slot_writes ids bar0 cmd rx_addr) xs)) pl'"
  using assms(2-7)
proof (induction xs arbitrary: ph rtl pl)
  case Nil
  then show ?case by (simp add: advanced_def)
next
  case (Cons x xs)
  obtain bus slot where x: "x = (bus, slot)" by (cases x)
  obtain pl1 where one: "net_check_slot (logged io) rx_addr (of_nat bus) (of_nat slot) (rtl, pl) =
      Inr (rtl\<lparr>inner := slot_driver ids bar0 x (inner rtl)\<rparr>, pl1)"
      "advanced (good (slot_phase ids bar0 x ph)) pl (slot_writes ids bar0 cmd rx_addr x) pl1"
    using net_check_slot_logged [where ph = ph, OF assms(1), of bus slot pl rtl rx_addr] Cons.prems x by auto
  have off: "\<forall>y\<in>set xs. slot_phase ids bar0 x ph y = Off" using Cons.prems(2,3) by (auto simp: slot_phase_def)
  let ?rtl = "rtl\<lparr>inner := slot_driver ids bar0 x (inner rtl)\<rparr>"
  obtain pl2 where rest: "for_loop xs (\<lambda>(bus, slot). net_check_slot (logged io) rx_addr (of_nat bus) (of_nat slot)) (?rtl, pl1) =
      Inr (?rtl\<lparr>inner := fold (slot_driver ids bar0) xs (inner ?rtl)\<rparr>, pl2)"
      "advanced (good (fold (slot_phase ids bar0) xs (slot_phase ids bar0 x ph))) pl1 (concat (map (slot_writes ids bar0 cmd rx_addr) xs)) pl2"
    using Cons.IH [OF _ _ off, of pl1 ?rtl] Cons.prems one(2) by (auto simp: advanced_def)
  from advanced_trans [OF one(2) rest(2)] show ?case
    using one(1) rest(1) x by (intro exI [of _ pl2] conjI) simp_all
qed

lemma fold_slot_driver:
  "fold (slot_driver ids bar0) xs drv = (if filter (driven ids bar0) xs = [] then drv
     else Some (rtl_new (card_base (bar0 (last (filter (driven ids bar0) xs))))))"
  by (induction xs arbitrary: drv) (simp_all add: slot_driver_def)

lemma slots_distinct: "distinct slots"
  by (simp add: slots_def distinct_product)

lemma fold_slot_phase: "x \<notin> set xs \<Longrightarrow> fold (slot_phase ids bar0) xs ph x = ph x"
  by (induction xs arbitrary: ph) (auto simp: slot_phase_def)

lemma driven_started: "x \<in> set xs \<Longrightarrow> distinct xs \<Longrightarrow> driven ids bar0 x \<Longrightarrow> fold (slot_phase ids bar0) xs ph x = Started"
  by (induction xs arbitrary: ph) (auto simp: fold_slot_phase, simp add: slot_phase_def driven_def)

lemma net_scan_logged:
  assumes "net_hardware io good ids cmd bar0" and "ready pl" and "good (\<lambda>_. Off) (fst (devices pl))" and "\<not> held rtl"
  shows "\<exists>pl'. net_check_network_card (logged io) rx_addr (rtl, pl) =
      Inr (rtl\<lparr>inner := fold (slot_driver ids bar0) slots (inner rtl)\<rparr>, pl') \<and>
    advanced (good (fold (slot_phase ids bar0) slots (\<lambda>_. Off))) pl (concat (map (slot_writes ids bar0 cmd rx_addr) slots)) pl'"
proof -
  obtain pl1 where pl1: "println [bytes_of ''Scanning PCI buses for Network Cards...''] pl = Inr pl1" "advanced (good (\<lambda>_. Off)) pl [] pl1"
    using advanced_println [of pl "good (\<lambda>_. Off)", OF assms(2,3)] by blast
  then have "ready pl1" "good (\<lambda>_. Off) (fst (devices pl1))" by (simp_all add: advanced_def)
  from scan_logged [where ph = "\<lambda>_. Off", OF assms(1) order.refl slots_distinct _ this assms(4), of rx_addr] obtain pl2 where
    "for_loop slots (\<lambda>(bus, slot). net_check_slot (logged io) rx_addr (of_nat bus) (of_nat slot)) (rtl, pl1) =
      Inr (rtl\<lparr>inner := fold (slot_driver ids bar0) slots (inner rtl)\<rparr>, pl2)"
    "advanced (good (fold (slot_phase ids bar0) slots (\<lambda>_. Off))) pl1 (concat (map (slot_writes ids bar0 cmd rx_addr) slots)) pl2" by auto
  then show ?thesis
    unfolding net_check_network_card_def for_loop_nested slots_def [symmetric]
    using pl1(1) advanced_trans [OF pl1(2)] by (intro exI [of _ pl2]) fastforce
qed

section \<open>Start-up\<close>

text \<open>What is written to the card that was found last, to send the packet.\<close>

definition packet_writes :: "u16 \<Rightarrow> u32 \<Rightarrow> port_write list" where
  "packet_writes base phys = [W32 (base + 0x20) phys, W32 (base + 0x10) 60]"

lemma send_test_packet_logged:
  assumes hw: "net_hardware io good ids cmd bar0" and x: "x \<in> set slots" "driven ids bar0 x" and ph: "ph x = Started"
    and pl: "ready pl" "good ph (fst (devices pl))" and rtl: "\<not> held rtl" "inner rtl = Some (rtl_new (card_base (bar0 x)))"
    and pg: "\<not> held (MAPPER pg)" "inner (MAPPER pg) = Some mapper" "virt_new packet_addr = Inr pv" "translate_addr mapper pv = Some phys"
  shows "\<exists>pl'. send_test_packet (logged io) virt_new translate_addr packet_addr pg (rtl, pl) =
      Inr (rtl\<lparr>inner := Some ((rtl_new (card_base (bar0 x)))\<lparr>tx_index := 1\<rparr>)\<rparr>, pl') \<and>
    advanced (good ph) pl (packet_writes (card_base (bar0 x)) (ucast phys)) pl'"
proof -
  let ?b = "card_base (bar0 x)" and ?drv = "rtl_new (card_base (bar0 x))"
  note C = card_started [where ph = ph, OF hw x refl ph]
  have con: "console_ok (WRITER pl)" using pl(1) by (simp add: ready_def)
  obtain args where e: "send_test_packet (logged io) virt_new translate_addr packet_addr pg (rtl, pl) =
      and_then (send_packet (logged io) (ucast phys) 60 (?drv, pl\<lparr>WRITER := (WRITER pl)\<lparr>inner := shown args (inner (WRITER pl))\<rparr>\<rparr>))
        (\<lambda>(drv, pl). Inr (rtl\<lparr>inner := Some drv\<rparr>, pl))"
    using send_test_packet_eq [where virt_new = virt_new and translate_addr = translate_addr and rtl = rtl and pg = pg and io = "logged io", OF rtl pg con] by blast
  let ?pl = "pl\<lparr>WRITER := (WRITER pl)\<lparr>inner := shown args (inner (WRITER pl))\<rparr>\<rparr>"
  have r: "ready ?pl" using pl(1) println_ok(2) [OF con, of args] by (simp add: ready_def console_ok_def)
  then have con': "console_ok (WRITER ?pl)" by (simp add: ready_def)
  have b: "unat ?b + 0x2C < 0x10000" using net_hardwareD(8) [OF hw pl(2) x] by simp
  let ?d = "out32 io (?b + 0x10) 60 (out32 io (?b + 0x20) (ucast phys) (fst (devices pl)))"
  have g: "good ph ?d" by (rule C(2) [OF C(1) [OF pl(2)]])
  have gn: "good ph (nth_state (in32 io (?b + 0x10)) n ?d)" for n using g C(3) by (rule nth_state_good)
  have len: "(60 :: u32) AND 0x1FFF = 60" by simp
  have "\<exists>n. bit (fst (in32 io (?b + 0x10) (nth_state (in32 io (?b + 0x10)) n ?d))) 13" by (rule C(4) [OF g])
  then show ?thesis
    using send_packet_eq [OF con', of ?drv 0 "?b + 0x20" "?b + 0x10" _ "logged io" 60 "ucast phys", OF _ _ _ _ _ refl] b r e g
    by (simp add: rtl_new_def nth_state_logged advanced_def packet_writes_def gn with_line_devices with_line_ready len)
qed

text \<open>After the scan: the last card found sends the packet; without a card nothing happens.\<close>

lemma send_after_scan:
  assumes hw: "net_hardware io good ids cmd bar0" and cards: "cards = filter (driven ids bar0) slots"
    and ph: "ph = fold (slot_phase ids bar0) slots (\<lambda>_. Off)"
    and pl: "ready pl" "good ph (fst (devices pl))" and rtl: "\<not> held rtl" "inner rtl = fold (slot_driver ids bar0) slots None"
    and pg: "\<not> held (MAPPER pg)" "inner (MAPPER pg) = Some mapper" "virt_new packet_addr = Inr pv" "translate_addr mapper pv = Some phys"
  shows "\<exists>pl'. send_test_packet (logged io) virt_new translate_addr packet_addr pg (rtl, pl) =
      Inr (rtl\<lparr>inner := if cards = [] then None else Some ((rtl_new (card_base (bar0 (last cards))))\<lparr>tx_index := 1\<rparr>)\<rparr>, pl') \<and>
    advanced (good ph) pl (if cards = [] then [] else packet_writes (card_base (bar0 (last cards))) (ucast phys)) pl'"
proof (cases "cards = []")
  case True
  then have "inner rtl = None" using cards rtl(2) by (simp add: fold_slot_driver)
  moreover from this have "rtl\<lparr>inner := None\<rparr> = rtl" by (cases rtl) simp
  ultimately show ?thesis using True pl rtl(1) by (simp add: send_test_packet_def mutex_lock_def advanced_def)
next
  case False
  then have "last cards \<in> set cards" by simp
  then have x: "last cards \<in> set slots" "driven ids bar0 (last cards)" unfolding cards by simp_all
  have drv: "inner rtl = Some (rtl_new (card_base (bar0 (last cards))))" using False cards rtl(2) by (simp add: fold_slot_driver)
  have "ph (last cards) = Started" unfolding ph by (rule driven_started [OF x(1) slots_distinct x(2)])
  from send_test_packet_logged [where virt_new = virt_new and translate_addr = translate_addr and pg = pg and rtl = rtl and ph = ph,
      OF hw x this pl rtl(1) drv pg] False
  show ?thesis by simp
qed

text \<open>Setting up interrupts programs the timer, and the breakpoint behind it only prints.\<close>

lemma interrupts_logged:
  assumes hw: "net_hardware io good ids cmd bar0" and r: "\<not> held (PICS pl)" "console_ok (WRITER pl)" and d: "devices pl = (d0, [])" and g: "good ph d0"
  shows "\<exists>pl1 pl2. init_idt (logged io) pics_initialize pl = Inr pl1 \<and> breakpoint_handler frame_text pl1 = Inr pl2 \<and>
    advanced (good ph) pl [W8 0x43 0x36, W8 0x40 0x9B, W8 0x40 0x2E] pl2"
proof -
  let ?pl1 = "pl\<lparr>idt_loaded := Some IDT, PICS := (PICS pl)\<lparr>inner := pics_initialize (inner (PICS pl))\<rparr>,
    devices := init_pit (logged io) (d0, []), irq_enabled := True\<rparr>"
  have p1: "init_idt (logged io) pics_initialize pl = Inr ?pl1"
    using r d by (simp add: init_idt_def mutex_lock_def)
  have a1: "ready ?pl1" "good ph (fst (devices ?pl1))" "advanced (good ph) pl [W8 0x43 0x36, W8 0x40 0x9B, W8 0x40 0x2E] ?pl1"
    using r d g by (simp_all add: ready_def advanced_def init_pit_def net_hardwareD(3,4) [OF hw])
  obtain pl2 where p2: "breakpoint_handler frame_text ?pl1 = Inr pl2" "advanced (good ph) ?pl1 [] pl2"
    using advanced_println [of ?pl1 "good ph", OF a1(1,2)] unfolding breakpoint_handler_def by blast
  from advanced_trans [OF a1(3) p2(2)] p1 p2(1) show ?thesis by auto
qed

text \<open>
  C16 (net_boot_trace): on working hardware, left alone by interrupts, the networking kernel reaches its idle loop, and the port
  writes of its own code are exactly these, in this order (those the \<^verbatim>\<open>pic8259\<close> crate makes when it initialises the controllers are behind the
  parameter \<open>e_pics_initialize\<close> and not among them): the timer is programmed; every slot of the buses 0 to 254 is asked for its identification in order, and at each RTL8139 port
  access and bus mastering are added to what its command register holds, the base address is read and, if it is a port address, the card is reset and
  started; finally the packet of 60 bytes at the translated address is sent through the first descriptor of the
  card found last, whose driver stays in the global. Without such a card no driver is installed and nothing is sent.
\<close>

theorem net_boot_trace:
  fixes w :: "('p, 'd \<times> port_write list, 'h, 'm, 'page, 'g) world"
  assumes "net_hardware io good ids cmd bar0" and "e_io e = logged io" and "devices (w_platform w) = (d0, [])" and "good (\<lambda>_. Off) d0"
    and "boot_ready e bi w off va h" and "\<not> held (w_rtl8139 w)" and "inner (w_rtl8139 w) = None"
    and "e_virt_new e packet_addr = Inr pv" and "translate_addr (e_page_table_new e va off) pv = Some phys"
    and "cards = filter (driven ids bar0) slots"
  shows "\<exists>w'. net_kernel_main e translate_addr packet_addr bi w = Inr w' \<and> ready (w_platform w') \<and>
    w_paging w' = boot_paging e bi w off va \<and> w_kernel w' = w_kernel w \<and> \<not> held (w_rtl8139 w') \<and>
    inner (w_rtl8139 w') = (if cards = [] then None else Some ((rtl_new (card_base (bar0 (last cards))))\<lparr>tx_index := 1\<rparr>)) \<and>
    snd (devices (w_platform w')) =
      [W8 0x43 0x36, W8 0x40 0x9B, W8 0x40 0x2E] @ concat (map (slot_writes ids bar0 cmd (e_rx_addr e)) slots) @
      (if cards = [] then [] else packet_writes (card_base (bar0 (last cards))) (ucast phys))"
proof -
  note B = assms(5) [unfolded boot_ready_def]
  have "\<not> held (PICS (w_platform w))" "console_ok (WRITER (w_platform w))" using B by simp_all
  from interrupts_logged [OF assms(1) this assms(3,4), of "e_pics_initialize e" "e_frame_text e"] obtain pl1 pl2 where
    p1: "init_idt (e_io e) (e_pics_initialize e) (w_platform w) = Inr pl1" "breakpoint_handler (e_frame_text e) pl1 = Inr pl2"
    and p2: "advanced (good (\<lambda>_. Off)) (w_platform w) [W8 0x43 0x36, W8 0x40 0x9B, W8 0x40 0x2E] pl2"
    unfolding assms(2) by blast
  have pg: "init_global_memory e off (memory_map bi) (w_paging w) = Inr (boot_paging e bi w off va)"
    unfolding boot_paging_def using B by (intro init_global_memory_ok) simp_all
  have heap: "init_heap (e_heap_init e) (w_heap w) = Inr (boot_heap_state w h)"
    using B by (simp add: init_heap_def boot_heap_state_def mutex_lock_def)
  let ?rtl = "(w_rtl8139 w)\<lparr>inner := fold (slot_driver ids bar0) slots None\<rparr>"
  have "ready pl2" "good (\<lambda>_. Off) (fst (devices pl2))" using p2 by (simp_all add: advanced_def)
  from net_scan_logged [OF assms(1) this assms(6), of "e_rx_addr e"] obtain pl3 where
    p3: "net_check_network_card (logged io) (e_rx_addr e) (w_rtl8139 w, pl2) = Inr (?rtl, pl3)"
      "advanced (good (fold (slot_phase ids bar0) slots (\<lambda>_. Off))) pl2 (concat (map (slot_writes ids bar0 cmd (e_rx_addr e)) slots)) pl3"
    unfolding assms(7) by blast
  have r: "ready pl3" "good (fold (slot_phase ids bar0) slots (\<lambda>_. Off)) (fst (devices pl3))" using p3(2) by (simp_all add: advanced_def)
  have m: "\<not> held ?rtl" "inner ?rtl = fold (slot_driver ids bar0) slots None" "\<not> held (MAPPER (boot_paging e bi w off va))"
    "inner (MAPPER (boot_paging e bi w off va)) = Some (e_page_table_new e va off)"
    using B assms(6) by (simp_all add: boot_paging_def)
  from send_after_scan [where virt_new = "e_virt_new e" and translate_addr = translate_addr, OF assms(1,10) refl r m assms(8,9)]
  obtain pl4 where p4: "send_test_packet (logged io) (e_virt_new e) translate_addr packet_addr (boot_paging e bi w off va) (?rtl, pl3) =
      Inr (?rtl\<lparr>inner := if cards = [] then None else Some ((rtl_new (card_base (bar0 (last cards))))\<lparr>tx_index := 1\<rparr>)\<rparr>, pl4)"
    "advanced (good (fold (slot_phase ids bar0) slots (\<lambda>_. Off))) pl3 (if cards = [] then [] else packet_writes (card_base (bar0 (last cards))) (ucast phys)) pl4" by blast
  have off: "e_virt_new e (physical_memory_offset bi) = Inr off" using B by simp
  let ?w = "w\<lparr>w_segments := gdt_init (e_gdt e) (w_segments w), w_platform := pl4, w_paging := boot_paging e bi w off va,
    w_heap := boot_heap_state w h,
    w_rtl8139 := ?rtl\<lparr>inner := if cards = [] then None else Some ((rtl_new (card_base (bar0 (last cards))))\<lparr>tx_index := 1\<rparr>)\<rparr>\<rparr>"
  have "net_kernel_main e translate_addr packet_addr bi w = Inr ?w"
    unfolding net_kernel_main_def Let_def using p1 pg heap p3(1) p4(1) off by (simp add: assms(2))
  moreover have "advanced (good (fold (slot_phase ids bar0) slots (\<lambda>_. Off))) (w_platform w) ([W8 0x43 0x36, W8 0x40 0x9B, W8 0x40 0x2E] @
      concat (map (slot_writes ids bar0 cmd (e_rx_addr e)) slots) @
      (if cards = [] then [] else packet_writes (card_base (bar0 (last cards))) (ucast phys))) pl4"
    by (intro advanced_trans [OF p2] advanced_trans [OF p3(2)] p4(2))
  ultimately show ?thesis
    using assms(3,6) by (intro exI [of _ ?w]) (simp add: advanced_def)
qed

section \<open>Example\<close>

text \<open>
  A machine with one RTL8139 in slot 3 of bus 0, its registers at port 0xC000. Every configuration register can be written, the base
  address registers too, and the card answers at its ports only once its command register lets it; before that all bits
  read as one.
\<close>

definition one_card :: "u32 \<Rightarrow> u32" where
  "one_card a = (if a = slot_address (0, 3) then 0x813910EC else if a = register_address (0, 3) 0x10 then 0xC001 else 0)"

definition decodes :: "(u32 \<Rightarrow> u32) \<Rightarrow> bool" where
  "decodes cfg = bit (cfg (register_address (0, 3) 0x04)) 0"

definition pci_ports :: "(u32 \<times> (u32 \<Rightarrow> u32)) ports" where
  "pci_ports = \<lparr>out8 = \<lambda>_ _ d. d, out16 = \<lambda>_ _ d. d,
     out32 = \<lambda>p v (a, cfg). if p = 0xCF8 then (v, cfg) else if p = 0xCFC then (a, cfg(a := v)) else (a, cfg),
     in8 = \<lambda>_ (a, cfg). (if decodes cfg then 0 else 0xFF, (a, cfg)),
     in32 = \<lambda>p (a, cfg). (if p = 0xCFC then cfg a else if decodes cfg then 0x2000 else 0xFFFFFFFF, (a, cfg))\<rparr>"

definition pci_good :: "(nat \<times> nat \<Rightarrow> card_phase) \<Rightarrow> u32 \<times> (u32 \<Rightarrow> u32) \<Rightarrow> bool" where
  "pci_good ph = (\<lambda>(a, cfg). \<forall>x\<in>set slots. cfg (slot_address x) = one_card (slot_address x) \<and>
     cfg (register_address x 0x10) = one_card (register_address x 0x10) \<and> (if ph x = Off then cfg (register_address x 0x04) = 0 else bit (cfg (register_address x 0x04)) 0))"

lemma register_address_or: "register_address x r = slot_address x OR r"
  by (simp add: register_address_def slot_address_def config_address_def or.assoc split: prod.split)

lemma register_address_fields:
  assumes "x \<in> set slots" and "r < 256"
  shows "drop_bit 16 (register_address x r) AND 0xFF = of_nat (fst x)" "drop_bit 11 (register_address x r) AND 0x1F = of_nat (snd x)"
    "register_address x r AND 0xFF = r"
proof -
  have "fst x < 255" "snd x < 32" using assms(1) by (auto simp: slots_def)
  then have "(of_nat (fst x) :: u32) < 256" "(of_nat (snd x) :: u32) < 32" "(0 :: u32) < 8"
    by (simp_all add: word_less_nat_alt unat_of_nat take_bit_nat_eq_self)
  from config_address_fields [OF this assms(2)]
  show "drop_bit 16 (register_address x r) AND 0xFF = of_nat (fst x)" "drop_bit 11 (register_address x r) AND 0x1F = of_nat (snd x)"
    "register_address x r AND 0xFF = r"
    by (simp_all add: register_address_def case_prod_beta)
qed

lemma register_address_inj:
  assumes "x \<in> set slots" and "y \<in> set slots" and "r < 256" and "register_address x r = register_address y r"
  shows "x = y"
proof -
  have "fst x < 255" "snd x < 32" "fst y < 255" "snd y < 32" using assms(1,2) by (auto simp: slots_def)
  moreover have "(of_nat (fst x) :: u32) = of_nat (fst y)" "(of_nat (snd x) :: u32) = of_nat (snd y)"
    using register_address_fields(1,2) [OF assms(1,3)] register_address_fields(1,2) [OF assms(2,3)] assms(4) by simp_all
  then have "unat (of_nat (fst x) :: u32) = unat (of_nat (fst y) :: u32)" "unat (of_nat (snd x) :: u32) = unat (of_nat (snd y) :: u32)"
    by simp_all
  ultimately show ?thesis by (simp add: unat_of_nat take_bit_nat_eq_self prod_eq_iff)
qed

lemma command_apart:
  assumes "x \<in> set slots" and "y \<in> set slots"
  shows "register_address x 0x04 \<noteq> slot_address y" "register_address x 0x04 \<noteq> register_address y 0x10"
    "x \<noteq> y \<Longrightarrow> register_address x 0x04 \<noteq> register_address y 0x04"
proof -
  show "x \<noteq> y \<Longrightarrow> register_address x 0x04 \<noteq> register_address y 0x04" using register_address_inj [OF assms, of 4] by auto
  have "slot_address y = register_address y 0" by (simp add: register_address_or)
  then show "register_address x 0x04 \<noteq> slot_address y" "register_address x 0x04 \<noteq> register_address y 0x10"
    using register_address_fields(3) [OF assms(1), of 4] register_address_fields(3) [OF assms(2), of 0] register_address_fields(3) [OF assms(2), of "0x10"]
    by auto
qed

lemma pci_goodD:
  assumes "pci_good ph (a, cfg)" and "x \<in> set slots"
  shows "cfg (slot_address x) = one_card (slot_address x)" "cfg (register_address x 0x10) = one_card (register_address x 0x10)"
    "ph x \<noteq> Off \<Longrightarrow> bit (cfg (register_address x 0x04)) 0" "ph x = Off \<Longrightarrow> cfg (register_address x 0x04) = 0"
  using assms by (auto simp: pci_good_def simp del: split_paired_All)

lemma pci_enable:
  assumes "pci_good ph d" and "x \<in> set slots"
  shows "pci_good (ph(x := Decoding)) (enable pci_ports x d)"
proof -
  obtain a cfg where d: "d = (a, cfg)" by (cases d)
  have bit: "bit (w OR 5) 0" for w :: u32 by (simp add: bit_or_iff)
  have e: "enable pci_ports x d = (register_address x 0x04, cfg(register_address x 0x04 := cfg (register_address x 0x04) OR 5))"
    by (simp add: enable_def pci_ports_def d)
  show ?thesis
    unfolding e pci_good_def prod.case
  proof (intro ballI)
    fix y assume y: "y \<in> set slots"
    note D = pci_goodD [OF assms(1) [unfolded d] y]
    show "(cfg(register_address x 0x04 := cfg (register_address x 0x04) OR 5)) (slot_address y) = one_card (slot_address y) \<and>
        (cfg(register_address x 0x04 := cfg (register_address x 0x04) OR 5)) (register_address y 0x10) = one_card (register_address y 0x10) \<and>
        (if (ph(x := Decoding)) y = Off then (cfg(register_address x 0x04 := cfg (register_address x 0x04) OR 5)) (register_address y 0x04) = 0
         else bit ((cfg(register_address x 0x04 := cfg (register_address x 0x04) OR 5)) (register_address y 0x04)) 0)"
      using D command_apart [OF assms(2) y] bit by auto
  qed
qed

lemma one_card_driven:
  assumes "driven (one_card \<circ> slot_address) (\<lambda>x. one_card (register_address x 0x10)) x"
  shows "one_card (register_address x 0x10) = 0xC001" "slot_address x = slot_address (0, 3)"
proof -
  have "\<not> bit (0x813910EC :: u32) 0" by (simp add: bit_0)
  then show "one_card (register_address x 0x10) = 0xC001" "slot_address x = slot_address (0, 3)"
    using assms by (auto simp: driven_def one_card_def split: if_splits)
qed

lemma one_card_base: "card_base 0xC001 = 0xC000"
  by (simp add: card_base_def)

lemma pci_card:
  assumes "pci_good ph d" and "x \<in> set slots" and "slot_address x = slot_address (0, 3)"
  shows "card_accepts pci_ports pci_good ph x 0xC000 d"
proof -
  obtain a cfg where d: "d = (a, cfg)" by (cases d)
  have on: "ph x \<noteq> Off \<Longrightarrow> decodes cfg"
    using pci_goodD(3) [OF assms(1) [unfolded d] assms(2)] assms(3) by (simp add: decodes_def register_address_or)
  have started: "pci_good (ph(x := Started)) d" if "ph x \<noteq> Off" using assms(1) that by (auto simp: pci_good_def)
  show ?thesis
  proof (cases "ph x")
    case Decoding
    then show ?thesis
      using on started assms(1) by (auto simp: card_accepts_def pci_ports_def d intro!: exI [of _ 0])
  next
    case Started
    then show ?thesis
      using on assms(1) by (auto simp: card_accepts_def pci_ports_def d bit_numeral_rec intro!: exI [of _ 0])
  qed (simp add: card_accepts_def)
qed

lemma pci_hardware:
  "net_hardware pci_ports pci_good (one_card \<circ> slot_address) (\<lambda>_. 0) (\<lambda>x. one_card (register_address x 0x10))"
  unfolding net_hardware_def
proof (intro allI impI)
  fix ph d assume g: "pci_good ph d"
  obtain a cfg where d: "d = (a, cfg)" by (cases d)
  have free: "pci_good ph (b, cfg)" for b using g by (simp add: pci_good_def d)
  have "fst (in32 pci_ports 0xCFC (out32 pci_ports 0xCF8 b d)) = cfg b" for b by (simp add: pci_ports_def d)
  then have "\<forall>x\<in>set slots. fst (in32 pci_ports 0xCFC (out32 pci_ports 0xCF8 (slot_address x) d)) = (one_card \<circ> slot_address) x \<and>
      fst (in32 pci_ports 0xCFC (out32 pci_ports 0xCF8 (register_address x 0x10) d)) = one_card (register_address x 0x10) \<and>
      ((one_card \<circ> slot_address) x = 0x813910EC \<and> ph x = Off \<longrightarrow>
         fst (in32 pci_ports 0xCFC (out32 pci_ports 0xCF8 (register_address x 0x04) d)) = 0 \<and> pci_good (ph(x := Decoding)) (enable pci_ports x d)) \<and>
      (driven (one_card \<circ> slot_address) (\<lambda>x. one_card (register_address x 0x10)) x \<longrightarrow>
         unat (card_base (one_card (register_address x 0x10))) + 0x44 < 0x10000 \<and>
         card_accepts pci_ports pci_good ph x (card_base (one_card (register_address x 0x10))) d)"
    using pci_goodD [OF g [unfolded d]] pci_enable [OF g] pci_card [OF g] one_card_driven
    by (auto simp: one_card_base simp del: split_paired_All split_paired_Ex)
  then show "pci_good ph (snd (in32 pci_ports 0xCFC d)) \<and> (\<forall>a. pci_good ph (out32 pci_ports 0xCF8 a d)) \<and>
      (\<forall>v. pci_good ph (out8 pci_ports 0x43 v d)) \<and> (\<forall>v. pci_good ph (out8 pci_ports 0x40 v d)) \<and>
      (\<forall>x\<in>set slots. fst (in32 pci_ports 0xCFC (out32 pci_ports 0xCF8 (slot_address x) d)) = (one_card \<circ> slot_address) x \<and>
      fst (in32 pci_ports 0xCFC (out32 pci_ports 0xCF8 (register_address x 0x10) d)) = one_card (register_address x 0x10) \<and>
      ((one_card \<circ> slot_address) x = 0x813910EC \<and> ph x = Off \<longrightarrow>
         fst (in32 pci_ports 0xCFC (out32 pci_ports 0xCF8 (register_address x 0x04) d)) = 0 \<and> pci_good (ph(x := Decoding)) (enable pci_ports x d)) \<and>
      (driven (one_card \<circ> slot_address) (\<lambda>x. one_card (register_address x 0x10)) x \<longrightarrow>
         unat (card_base (one_card (register_address x 0x10))) + 0x44 < 0x10000 \<and>
         card_accepts pci_ports pci_good ph x (card_base (one_card (register_address x 0x10))) d))"
    using free g by (simp add: pci_ports_def d)
qed

lemma pci_start: "pci_good (\<lambda>_. Off) (0, one_card)"
proof -
  have "(0, 3) \<in> set slots" by (simp add: slots_def)
  from command_apart(1,2) [OF _ this] have "one_card (register_address x 0x04) = 0" if "x \<in> set slots" for x
    using that by (simp add: one_card_def)
  then show ?thesis by (simp add: pci_good_def)
qed

lemma pci_bar0_writable: "fst (in32 pci_ports 0xCFC (out32 pci_ports 0xCFC v (out32 pci_ports 0xCF8 (register_address x 0x10) d))) = v"
  by (cases d) (simp add: pci_ports_def)

definition net_env :: "(u8 list, (u32 \<times> (u32 \<Rightarrow> u32)) \<times> port_write list, linked_list_allocator, unit, u64, nat) env" where
  "net_env = \<lparr>e_io = logged pci_ports, e_gdt = GDT 1 example_add_entry example_tss, e_pics_initialize = (\<lambda>p. p),
     e_frame_text = [], e_virt_new = Inr, e_cr3 = 0x1000, e_virt_add = (\<lambda>a b. Inr (a + b)),
     e_page_table_new = (\<lambda>_ _. ()), e_heap_init = ll_init, e_alloc = ll_alloc, e_dealloc = ll_dealloc, e_rx_addr = 0x123456789\<rparr>"

definition net_world :: "(u8 list, (u32 \<times> (u32 \<Rightarrow> u32)) \<times> port_write list, linked_list_allocator, unit, u64, nat) world" where
  "net_world = \<lparr>w_kernel = kernel_statics,
     w_platform = \<lparr>PICS = \<lparr>held = False, inner = []\<rparr>, WRITER = empty_screen, devices = ((0, one_card), []), idt_loaded = None, irq_enabled = False\<rparr>,
     w_paging = \<lparr>MAPPER = \<lparr>held = False, inner = None\<rparr>, FRAME_ALLOCATOR = \<lparr>held = False, inner = None\<rparr>, flushed = []\<rparr>,
     w_heap = \<lparr>held = False, inner = ll_new Map.empty\<rparr>,
     w_segments = \<lparr>gdt_register = None, cs_register = 0, ds_register = 0, task_register = 0\<rparr>,
     w_memory = (\<lambda>_. 0), w_rtl8139 = \<lparr>held = False, inner = None\<rparr>\<rparr>"

theorem net_boot_trace_witness:
  "\<exists>w'. net_kernel_main net_env (\<lambda>_ v. Some v) 0x5000 example_boot_info net_world = Inr w' \<and> ready (w_platform w') \<and>
     inner (w_rtl8139 w') = Some ((rtl_new 0xC000)\<lparr>tx_index := 1\<rparr>) \<and>
     take 3 (snd (devices (w_platform w'))) = [W8 0x43 0x36, W8 0x40 0x9B, W8 0x40 0x2E] \<and>
     (\<exists>ws. snd (devices (w_platform w')) = ws @ [W32 0xC020 0x5000, W32 0xC010 60])"
proof -
  let ?ids = "one_card \<circ> slot_address" and ?bar0 = "\<lambda>x. one_card (register_address x 0x10)"
  let ?cards = "filter (driven ?ids ?bar0) slots"
  obtain h where h: "ll_init (ll_new Map.empty) HEAP_START HEAP_SIZE = Inr h" by (rule ll_heap_ready)
  have ready: "boot_ready net_env example_boot_info net_world 0x40000000 0x40001000 h"
    using h empty_screen_wf
    by (simp add: boot_ready_def net_env_def net_world_def example_boot_info_def kernel_statics_def console_ok_def)
  have io: "e_io net_env = logged pci_ports" "devices (w_platform net_world) = ((0, one_card), [])"
    "\<not> held (w_rtl8139 net_world)" "inner (w_rtl8139 net_world) = None" by (simp_all add: net_env_def net_world_def)
  have "register_address (0, 3) 0x10 \<noteq> slot_address (0, 3)"
    by (simp add: register_address_def slot_address_def config_address_def)
  then have "driven ?ids ?bar0 (0, 3)" by (simp add: driven_def one_card_def bit_0)
  moreover have "(0, 3) \<in> set slots" by (simp add: slots_def)
  ultimately have ne: "?cards \<noteq> []" by (auto simp: filter_empty_conv)
  then have "last ?cards \<in> set ?cards" by (rule last_in_set)
  then have base: "card_base (?bar0 (last ?cards)) = 0xC000" using one_card_driven(1) one_card_base by auto
  have start: "pci_good (\<lambda>_. Off) (0, one_card)" by (rule pci_start)
  have "e_virt_new net_env 0x5000 = Inr 0x5000" by (simp add: net_env_def)
  from net_boot_trace [where translate_addr = "\<lambda>_ v. Some v", OF pci_hardware io(1,2) start ready io(3,4) this refl refl]
  obtain w' where w: "net_kernel_main net_env (\<lambda>_ v. Some v) 0x5000 example_boot_info net_world = Inr w'" "ready (w_platform w')"
    "inner (w_rtl8139 w') = Some ((rtl_new 0xC000)\<lparr>tx_index := 1\<rparr>)"
    "snd (devices (w_platform w')) = [W8 0x43 0x36, W8 0x40 0x9B, W8 0x40 0x2E] @
      concat (map (slot_writes ?ids ?bar0 (\<lambda>_. 0) (e_rx_addr net_env)) slots) @ packet_writes 0xC000 (ucast (0x5000 :: u64))"
    unfolding if_not_P [OF ne] base by (elim exE conjE) (rule that)
  have "take 3 (snd (devices (w_platform w'))) = [W8 0x43 0x36, W8 0x40 0x9B, W8 0x40 0x2E]" unfolding w(4) by simp
  moreover have "packet_writes 0xC000 (ucast (0x5000 :: u64)) = [W32 0xC020 0x5000, W32 0xC010 60]" by (simp add: packet_writes_def)
  ultimately show ?thesis using w by (intro exI [of _ w'] conjI) auto
qed

end
