(* ===== verification/Spec2Isabelle.thy ===== *)
theory Spec2Isabelle
  imports Bump_Allocator Fragmentation Demand_Paging Console Workloads Interrupted_Boot Net_Boot
begin

text \<open>
  A verification library for the two x86\_64 kernels of this repository, \<^verbatim>\<open>something_os\<close> and
  \<^verbatim>\<open>something_os_networking\<close>. Their sources are the same but for \<^verbatim>\<open>main.rs\<close> and the module \<^verbatim>\<open>networking\<close>,
  which only the second one has; paths below are relative to \<^verbatim>\<open>something_os/src/\<close> unless they start
  with \<^verbatim>\<open>networking/\<close>.

  \<^bold>\<open>The program.\<close> \<^verbatim>\<open>kernel_main\<close> sets up segmentation (\<^verbatim>\<open>gdt\<close>) and interrupts (\<^verbatim>\<open>interrupt\<close>), scans the
  PCI bus, fills the globals \<^verbatim>\<open>MAPPER\<close> and \<^verbatim>\<open>FRAME_ALLOCATOR\<close> (\<^verbatim>\<open>memory\<close>), gives the heap its address range
  (\<^verbatim>\<open>allocator\<close>), creates the scheduler and three processes (\<^verbatim>\<open>process\<close>) and idles. From then on the timer
  and the keyboard interrupt drive everything: their handlers save the interrupted process on its
  own stack, ask the scheduler for another stack pointer and return through it. The heap has no frames
  at first; touching it faults, and the page-fault handler maps a frame. Everything prints through
  one locked VGA writer (\<^verbatim>\<open>vga_buffer\<close>). The second kernel starts a network card and sends a packet.

  \<^bold>\<open>Theories.\<close>
  \<^item> \<^verbatim>\<open>Kernel_Prelude\<close>: machine integers, failures as values (\<open>fault + 'a\<close>: panic, deadlock, divergence,
    invalid access), checked arithmetic and indexing as in a development build, \<^verbatim>\<open>Layout\<close>, spin locks.
  \<^item> \<^verbatim>\<open>Allocator\<close> (\<^verbatim>\<open>allocator.rs\<close>): \<^verbatim>\<open>align_up\<close>, \<^verbatim>\<open>init_heap\<close>, \<^verbatim>\<open>Locked\<close>; the contract of a global
    allocator as the locale \<open>global_allocator\<close> over traces of allocations, frees and client writes.
  \<^item> \<^verbatim>\<open>Bump_Allocator\<close>, \<^verbatim>\<open>Linked_List_Allocator\<close>, \<^verbatim>\<open>Fixed_Size_Block\<close> (\<^verbatim>\<open>allocator/*.rs\<close>): the three allocators,
    each an interpretation of that locale. The free list is modelled with its nodes in a store from addresses
    to nodes, and shown to compute first fit on an abstract list of regions and to terminate on every finite list. The block
    allocator is verified over any fallback heap (locale \<open>fallback_heap\<close>). \<^verbatim>\<open>Fragmentation\<close>: a second interpretation for
    the linked list allocator, with a bound on the pieces of the heap in the invariant, shows that they never grow again.
  \<^item> \<^verbatim>\<open>Frame_Allocator\<close> (\<^verbatim>\<open>memory.rs\<close>): usable frames of the boot map, handed out in order (locale
    \<open>frame_source\<close>).
  \<^item> \<^verbatim>\<open>Vga_Buffer\<close> (\<^verbatim>\<open>vga_buffer/print.rs\<close>): the writer, refined to a terminal; \<^verbatim>\<open>Console\<close>: \<^verbatim>\<open>_print\<close> and the
    rounds of the workloads taken apart into the steps between which an interrupt can come, proved to be the code, and any number of processes
    making these steps with interrupts between them.
  \<^item> \<^verbatim>\<open>X86_Machine\<close>: registers, byte memory, stack instructions, interrupt delivery.
  \<^item> \<^verbatim>\<open>Scheduler\<close> (\<^verbatim>\<open>process.rs\<close>, \<^verbatim>\<open>preempt_round_robin\<close>): process table, \<^verbatim>\<open>spawn\<close> with the forged stack, the
    switching paths (locale \<open>round_robin\<close>, interpreted for the preemptive and the cooperative one).
  \<^item> \<^verbatim>\<open>Interrupts\<close> (\<^verbatim>\<open>interrupt/mod.rs\<close>, \<^verbatim>\<open>interrupt/handlers.rs\<close>): vectors, table, timer programming, all
    handlers; \<^verbatim>\<open>Page_Faults\<close>: every path of the page-fault handler and sequences of faults; \<^verbatim>\<open>Demand_Paging\<close>: heap
    accesses, faults, frames and page tables together, and that the program does not notice them; \<^verbatim>\<open>Preemption\<close>: the
    running system as an inductive relation, and that processes never notice being preempted.
  \<^item> \<^verbatim>\<open>Process_Heap\<close> (\<^verbatim>\<open>process.rs\<close>): creating processes on the heap, the boxed stacks and the growing buffer of the process
    table; the locale \<open>stack_allocator\<close> extends \<open>global_allocator\<close> by what this needs, and the linked list allocator and the
    block allocator over it interpret it.
  \<^item> \<^verbatim>\<open>Gdt\<close> (\<^verbatim>\<open>gdt/mod.rs\<close>), \<^verbatim>\<open>Networking\<close> (\<^verbatim>\<open>networking/*.rs\<close> and the scan in \<^verbatim>\<open>main.rs\<close>), \<^verbatim>\<open>Kernel_Main\<close> (\<^verbatim>\<open>main.rs\<close>):
    segments, card, start-up. \<^verbatim>\<open>Interrupted_Boot\<close>: start-up as a sequence of steps with interrupts between
    them, and that these do not change its outcome (locale \<open>undisturbed\<close>). \<^verbatim>\<open>Net_Kernel\<close> (\<^verbatim>\<open>main.rs\<close> of the second kernel): the packet it sends and its start-up;
    \<^verbatim>\<open>Net_Boot\<close>: the complete sequence of port writes the code of that start-up makes on working hardware.
  \<^item> \<^verbatim>\<open>Workloads\<close> (\<^verbatim>\<open>main.rs\<close>): the three processes step by step under the scheduler, from an interrupted start-up on,
    with interrupts at any point and the screen they produce; their loops; \<^verbatim>\<open>dummy_main_process\<close>, the panic handler and \<^verbatim>\<open>hlt_loop\<close>.
  This theory adds what spans components: start-up followed by the first interrupt, start-up on the repository's
  own linked list allocator, and what goes wrong when stacks come from the bump allocator.

  \<^bold>\<open>Correspondence.\<close> A struct is a record and an enum a datatype with the source's names; a method that
  changes its object returns the changed object. Globals behind a \<^verbatim>\<open>Mutex\<close> are \<open>'a mutex\<close> records whose
  \<open>held\<close> says whether a guard is alive; locking a held mutex is the fault \<open>Deadlock\<close>, because only one
  context runs. The memory of the machine model holds the stacks; other objects are in their records. Integers keep their width as words; \<^verbatim>\<open>+\<close>, \<^verbatim>\<open>-\<close> and \<^verbatim>\<open>*\<close> panic on overflow. Indices into
  containers are natural numbers where the container's length bounds them. Loops over ranges are
  \<open>for_loop\<close> and \<^verbatim>\<open>loop\<close> without exit is \<open>loop_forever\<close>. Loops that may run forever are partial functions whose
  missing value means that they do: the walk of the free list (its missing value becomes the fault \<open>Diverges\<close>, and
  theorems say when it ends), the two device polling loops, with theorems that say exactly when they
  return, faulting accesses, and the endless loops of the processes and the panic handler. No fuel is used.

  \<^bold>\<open>Parameters.\<close> What is not in the repository is an argument: the \<^verbatim>\<open>x86_64\<close> crate's page tables, address
  checks and descriptor table, the global allocator (\<^verbatim>\<open>linked_list_allocator\<close>'s \<^verbatim>\<open>LockedHeap\<close>: its initialiser and the two
  operations of \<^verbatim>\<open>GlobalAlloc\<close>), \<^verbatim>\<open>pic8259\<close> (the port writes it makes are its own and in no log), the devices behind the ports, the
  \<^verbatim>\<open>Debug\<close> text of foreign types, and what compiled functions do to registers and stack (\<open>abi\<close>). What a
  theorem needs of them is a named predicate (\<open>mapper_ok\<close>, \<open>add_entry_ok\<close>, \<open>abi_ok\<close>, \<open>net_hardware\<close>, \<open>fallback_heap\<close>,
  \<open>stack_allocator\<close>), with a witness that has a concrete instance. \<^verbatim>\<open>spin::Mutex\<close>,
  \<^verbatim>\<open>without_interrupts\<close>, and of the standard library \<^verbatim>\<open>Layout\<close>, \<^verbatim>\<open>Box\<close> and the growth of \<^verbatim>\<open>VecDeque\<close> are modelled as documented.

  \<^bold>\<open>Not modelled.\<close> Build files, boot image and the empty test directories; commented-out code, and
  \<^verbatim>\<open>allocator/fixed_size_blocks.rs\<close>, a copy of \<^verbatim>\<open>fixed_size_block.rs\<close> that no module declares. The files that
  \<^verbatim>\<open>something_os_networking\<close> has in common with \<^verbatim>\<open>something_os\<close> are textually identical, so the definitions are theirs
  as well. Floating-point state, which the handlers do not save, is not part of the processor. Interrupts that arrive between the end of the
  scheduler's guard in \<^verbatim>\<open>kernel_main\<close> and its idle loop, where they preempt it, are not part of the start-up theorems.
\<close>

section \<open>From power-on to the first process\<close>

text \<open>
  C6 (boot_enters_alpha): wherever start-up has got to and whatever interrupts have come in so far, none of them after the lock of
  the scheduler was given back, it goes on to the idle loop, and the first timer interrupt there takes the processor to the entry point of the first workload, on the end of that
  workload's own stack, with all other registers zero, interrupts enabled and the kernel's segments; the
  workload is then process 1.
\<close>

theorem boot_enters_alpha:
  fixes w0 :: "('p, 'd, 'h, 'm, 'page, 'g) world"
  assumes "bootable e bi w0 off va sts" and "inner (SCHEDULER (w_kernel w0)) = None" and "room depth (sts ! 0) (regs c RSP)"
    and "abi_ok depth abi" and "depth + 176 \<le> STACK_SIZE"
    and "interleaved (boot_disturbed abi notify io depth (sts ! 0)) (boot_stages e (alpha, beta, omega) bi) (w0, buffer_new) fs s"
  shows "\<exists>w' buf k' pl' c'. run_stages fs s = Inr (w', buf) \<and>
    timer_interrupt_handler abi notify (w_kernel w', w_platform w', deliver h (c\<lparr>mem := w_memory w'\<rparr>)) = Inr (k', pl', c') \<and>
    rip c' = alpha \<and> regs c' = (\<lambda>_. 0)(RSP := fst (sts ! 1) + of_nat STACK_SIZE) \<and> interrupts_enabled c' \<and>
    cs c' = 0x08 \<and> ss c' = 0x10 \<and> cur k' = 1"
proof -
  obtain w' buf where w: "run_stages fs s = Inr (w', buf)" "ready (w_platform w')"
    "\<not> held (SCHEDULER (w_kernel w'))" "cur (w_kernel w') = 0"
    "map proc_id (processes (sched_of (w_kernel w'))) = [0, 1, 2, 3]"
    "runs abi notify io depth (w_kernel w') (w_platform w') (c\<lparr>mem := w_memory w'\<rparr>)
      (workload_frames alpha beta omega sts) sts"
    using interrupted_boot_ok [OF assms] by (elim exE conjE) (rule that)
  have n: "length (processes (sched_of (w_kernel w'))) = 4" using arg_cong [OF w(5), of length] by simp
  have "\<not> held (PICS (w_platform w'))" using w(2) by (simp add: ready_def)
  from tick_full [OF w(6) assms(4,5) this, of h]
  obtain k' pl' c' where t: "timer_interrupt_handler abi notify (w_kernel w', w_platform w', deliver h (c\<lparr>mem := w_memory w'\<rparr>)) =
      Inr (k', pl', c')" "cur k' = 1" "arch c' = initial_frame alpha (fst (sts ! 1) + of_nat STACK_SIZE)"
    using w(3,4) n by (auto simp: stays_def workload_frames_def)
  have a: "arch c' = arch \<lparr>regs = (\<lambda>_. 0)(RSP := fst (sts ! 1) + of_nat STACK_SIZE), rip = alpha, rflags = 0x200,
      cs = 0x08, ss = 0x10, mem = \<lambda>_. 0\<rparr>"
    unfolding t(3) by (simp add: arch_def restore_order_def initial_frame_def numeral_eq_Suc)
  then show ?thesis
    using w(1) t(1,2) unfolding arch_eq_iff by (force simp: interrupts_enabled_def bit_numeral_rec)
qed

theorem boot_enters_alpha_witness:
  "\<exists>pl m w' buf k' pl' c'. run_stages (drop 2 example_stages) (example_ticked pl m, buffer_new) = Inr (w', buf) \<and>
     timer_interrupt_handler example_abi (#)
       (w_kernel w', w_platform w', deliver 0x5000 (example_cpu\<lparr>mem := w_memory w'\<rparr>)) = Inr (k', pl', c') \<and>
     rip c' = 0x2000 \<and> regs c' RSP = HEAP_START + 0x41A0"
proof -
  have d: "(1000::nat) + 176 \<le> STACK_SIZE" by (simp add: STACK_SIZE_def)
  obtain pl m where t: "interleaved (boot_disturbed example_abi (#) example_ports 1000 (example_stacks ! 0)) example_stages
      (example_world, buffer_new) (drop 2 example_stages) (example_ticked pl m, buffer_new)"
    by (rule example_interrupted)
  from boot_enters_alpha [OF example_bootable example_world_facts(2) example_room(1) example_abi_ok d t, of "0x5000"]
  show ?thesis
    by (intro exI [of _ pl] exI [of _ m]) (elim exE conjE, intro exI conjI, auto simp: example_stacks_def boot_stacks_def STACK_SIZE_def)
qed

section \<open>Start-up on the kernel's own allocator\<close>

text \<open>
  C18 (boots_on_linked_list): with the repository's linked list allocator as the global allocator, start-up needs nothing
  of the heap: the allocator, given the configured range, yields the buffer of the process table and behind it the
  three stacks, aligned for the forged frames and clear of each other, and the memory does not run out. The kernel reaches
  its idle loop with the three workloads waiting on these stacks.
\<close>

theorem boots_on_linked_list:
  fixes w :: "('p, 'd, linked_list_allocator, 'm, 'page, 'g) world"
  assumes "\<not> held (PICS (w_platform w))" "console_ok (WRITER (w_platform w))"
    and "\<not> held (MAPPER (w_paging w))" "\<not> held (FRAME_ALLOCATOR (w_paging w))" "\<not> held (w_heap w)"
    and "\<not> held (SCHEDULER (w_kernel w))" "NEXT_PID (w_kernel w) = 1"
    and "e_virt_new e (physical_memory_offset bi) = Inr off" "e_virt_add e off (e_cr3 e) = Inr va"
    and "e_heap_init e = ll_init" "e_alloc e = ll_alloc" "inner (w_heap w) = ll_new store"
    and "stack_wf st0" "apart (stack_extent st0) (unat HEAP_START, 0xC1A0)"
    and "w_memory w = mem c" "room depth st0 (regs c RSP)"
  shows "\<exists>w'. kernel_main e (alpha, beta, omega) bi w = Inr w' \<and>
    map proc_id (processes (sched_of (w_kernel w'))) = [0, 1, 2, 3] \<and>
    runs abi notify io depth (w_kernel w') (w_platform w') (c\<lparr>mem := w_memory w'\<rparr>)
      (workload_frames alpha beta omega (boot_stacks st0)) (boot_stacks st0)"
proof -
  obtain h where h: "ll_init (ll_new store) HEAP_START HEAP_SIZE = Inr h" by (rule ll_heap_ready)
  have bh: "boot_heap (e_alloc e) (boot_heap_state w h) (HEAP_START + 0x1A0) (HEAP_START + 0x41A0) (HEAP_START + 0x81A0)"
    unfolding assms(11) using assms(5) by (intro boot_heap_linked_list [OF h]) (simp_all add: boot_heap_state_def)
  have "boot_ready e bi w off va h" using assms(1-10,12) h by (simp add: boot_ready_def)
  moreover have "e_heap_init e (inner (w_heap w)) HEAP_START HEAP_SIZE = Inr h" using assms(10,12) h by simp
  ultimately have b: "bootable e bi w off va (boot_stacks st0)"
    using boot_stacks_ok [OF assms(13,14)] bh by (simp add: bootable_def boot_stacks_def numeral_2_eq_2 numeral_3_eq_3)
  have r: "room depth (boot_stacks st0 ! 0) (regs c RSP)" using assms(16) by (simp add: boot_stacks_def)
  from kernel_main_ok [OF b assms(15) r, of alpha beta omega abi notify io]
  show ?thesis by (elim exE conjE) (intro exI conjI)
qed

theorem boots_on_linked_list_witness:
  "\<exists>w'. kernel_main example_env (0x2000, 0x3000, 0x4000) example_boot_info example_world = Inr w' \<and>
     map proc_id (processes (sched_of (w_kernel w'))) = [0, 1, 2, 3]"
proof -
  let ?w = example_world and ?e = example_env and ?st0 = "(0x80000, 0x10000) :: stack"
  have "stack_wf ?st0" "apart (stack_extent ?st0) (unat HEAP_START, 0xC1A0)" "w_memory ?w = mem example_cpu"
    "room 1000 ?st0 (regs example_cpu RSP)"
    by (simp_all add: stack_wf_def apart_def stack_extent_def HEAP_START_def example_world_def example_cpu_def room_def)
  moreover have "\<not> held (PICS (w_platform ?w))" "console_ok (WRITER (w_platform ?w))"
    "\<not> held (MAPPER (w_paging ?w))" "\<not> held (FRAME_ALLOCATOR (w_paging ?w))" "\<not> held (w_heap ?w)"
    "\<not> held (SCHEDULER (w_kernel ?w))" "NEXT_PID (w_kernel ?w) = 1"
    "e_virt_new ?e (physical_memory_offset example_boot_info) = Inr 0x40000000" "e_virt_add ?e 0x40000000 (e_cr3 ?e) = Inr 0x40001000"
    "e_heap_init ?e = ll_init" "e_alloc ?e = ll_alloc" "inner (w_heap ?w) = ll_new Map.empty"
    using example_platform_ok by (simp_all add: example_world_def example_env_def example_boot_info_def kernel_statics_def)
  ultimately have "\<exists>w'. kernel_main ?e (0x2000, 0x3000, 0x4000) example_boot_info ?w = Inr w' \<and>
      map proc_id (processes (sched_of (w_kernel w'))) = [0, 1, 2, 3] \<and>
      runs example_abi (#) example_ports 1000 (w_kernel w') (w_platform w') (example_cpu\<lparr>mem := w_memory w'\<rparr>)
        (workload_frames 0x2000 0x3000 0x4000 (boot_stacks ?st0)) (boot_stacks ?st0)"
    by (intro boots_on_linked_list)
  then show ?thesis by (elim exE conjE) (intro exI conjI)
qed

lemma spawn_misaligned:
  assumes "unat base + STACK_SIZE < 2 ^ 64" and "\<not> 8 dvd unat base"
  shows "spawn (Some base) entry_point st = Inl InvalidAccess"
proof -
  have t: "unat (base + of_nat STACK_SIZE) = unat base + STACK_SIZE"
    using assms(1) by (subst unat_add_ok) (simp_all add: STACK_SIZE_def)
  have "(base + of_nat STACK_SIZE) AND 7 \<noteq> 0"
  proof
    assume z: "(base + of_nat STACK_SIZE) AND 7 = 0"
    have "(7 :: u64) = mask 3" by (simp add: mask_eq_exp_minus_1)
    then have "take_bit 3 (base + of_nat STACK_SIZE) = 0" using z by (simp add: take_bit_eq_mask)
    then have "unat (base + of_nat STACK_SIZE) mod 8 = 0"
      using unsigned_take_bit_eq [of 3 "base + of_nat STACK_SIZE", where 'a = nat] by (simp add: take_bit_eq_mod)
    then have "8 dvd unat base + STACK_SIZE" unfolding t by (simp add: mod_eq_0_iff_dvd)
    then show False using assms(2) by (simp add: STACK_SIZE_def dvd_add_left_iff)
  qed
  then show ?thesis by (cases st) (simp add: spawn_def Let_def require_def)
qed

text \<open>
  Nothing in the source asks for that alignment: the boxed array of bytes has alignment one. With the bump
  allocator as the global allocator, one byte allocated before makes the stack start at an odd address,
  and \<^verbatim>\<open>spawn\<close> stores quadwords through a misaligned pointer.
\<close>

theorem bump_breaks_spawn:
  "\<exists>m1 m2. bump_alloc (locked_new (bump_init bump_new HEAP_START HEAP_SIZE)) \<lparr>l_size = 1, l_align = 1\<rparr> = Inr (m1, HEAP_START) \<and>
     bump_alloc m1 stack_layout = Inr (m2, HEAP_START + 1) \<and>
     spawn (Some (HEAP_START + 1)) entry_point st = Inl InvalidAccess"
proof -
  have "unat (HEAP_START + 1) + STACK_SIZE < 2 ^ 64" "\<not> 8 dvd unat (HEAP_START + 1)"
    by (simp_all add: HEAP_START_def STACK_SIZE_def)
  note spawn_misaligned [OF this, of entry_point st]
  then show ?thesis
    by (simp add: bump_alloc_def bump_init_def bump_new_def locked_new_def locked_lock_def mutex_lock_def align_up_def
        add_chk_def sub_chk_def checked_add_def saturating_add_def stack_layout_def HEAP_START_def HEAP_SIZE_def STACK_SIZE_def)
qed

end
